(* ===== verification/Prelude.thy ===== *)
theory Prelude
  imports Main "HOL-Library.Word"
begin

text \<open>
  The generic part of the library: byte and machine-word types, the program monad in which
  every operation of the C++ code is written, its total-correctness predicate \<open>wp\<close> with
  the rule collection \<open>wp_rules\<close>, and the theory of null-terminated chains in a heap.
\<close>

unbundle bit_operations_syntax

type_synonym byte = char
type_synonym u8 = "8 word"
type_synonym u32 = "32 word"
type_synonym u64 = "64 word"

text \<open>An address; 0 is the null pointer.\<close>

type_synonym addr = nat

section \<open>Programs\<close>

text \<open>
  What can go wrong in the C++ code at a point the source does not guard: the
  undefined behaviours the operations can run into, and a call of \<open>exit\<close>.
\<close>

datatype fault =
    NullDeref
  | WildPointer addr
  | IndexOutOfRange nat
  | BufferOverrun
  | UnlockNotHeld
  | IntOverflow
  | DivisionByZero
  | ExitProcess nat
  | MissingReturn

text \<open>
  A program takes a state and has three outcomes: \<open>None\<close>, it never returns (a loop
  that does not end, a spin on a mutex nobody releases); \<open>Some (Inl e)\<close>, it runs into the
  fault \<open>e\<close>; \<open>Some (Inr (x, s'))\<close>, it returns \<open>x\<close> in the state \<open>s'\<close>.
\<close>

type_synonym ('s, 'a) prog = "'s \<Rightarrow> (fault + 'a \<times> 's) option"

definition ret :: "'a \<Rightarrow> ('s, 'a) prog" where
  "ret x = (\<lambda>s. Some (Inr (x, s)))"

definition fail :: "fault \<Rightarrow> ('s, 'a) prog" where
  "fail e = (\<lambda>s. Some (Inl e))"

definition never :: "('s, 'a) prog" where
  "never = (\<lambda>s. None)"

definition gets :: "('s \<Rightarrow> 'a) \<Rightarrow> ('s, 'a) prog" where
  "gets f = (\<lambda>s. Some (Inr (f s, s)))"

definition modify :: "('s \<Rightarrow> 's) \<Rightarrow> ('s, unit) prog" where
  "modify f = (\<lambda>s. Some (Inr ((), f s)))"

definition bnd :: "('s, 'a) prog \<Rightarrow> ('a \<Rightarrow> ('s, 'b) prog) \<Rightarrow> ('s, 'b) prog" where
  "bnd m k = (\<lambda>s. Option.bind (m s)
     (\<lambda>r. case r of Inl e \<Rightarrow> Some (Inl e) | Inr (x, s') \<Rightarrow> k x s'))"

definition thn :: "('s, 'a) prog \<Rightarrow> ('s, 'b) prog \<Rightarrow> ('s, 'b) prog" where
  "thn m k = bnd m (\<lambda>_. k)"

text \<open>A block of statements, and a statement under a condition.\<close>

fun seqs :: "('s, unit) prog list \<Rightarrow> ('s, unit) prog" where
  "seqs [] = ret ()"
| "seqs (m # ms) = thn m (seqs ms)"

definition whenP :: "bool \<Rightarrow> ('s, unit) prog \<Rightarrow> ('s, unit) prog" where
  "whenP b m = (if b then m else ret ())"

text \<open>The rule by which the equations of loops written in this monad are accepted.\<close>

lemma bnd_mono [partial_function_mono]:
  assumes "mono_option (\<lambda>g. m g s)"
    and "\<And>x s'. mono_option (\<lambda>g. k g x s')"
  shows "mono_option (\<lambda>g. bnd (m g) (k g) s)"
proof -
  have "mono_option (\<lambda>g. case r of Inl e \<Rightarrow> Some (Inl e) | Inr (x, s') \<Rightarrow> k g x s')" for r
    using assms(2) by (cases r) (auto simp: monotone_on_def flat_ord_def fun_ord_def)
  then show ?thesis
    unfolding bnd_def by (intro bind_mono assms(1))
qed

lemma thn_mono [partial_function_mono]:
  assumes "mono_option (\<lambda>g. m g s)"
    and "\<And>s'. mono_option (\<lambda>g. k g s')"
  shows "mono_option (\<lambda>g. thn (m g) (k g) s)"
  unfolding thn_def using assms by (intro bnd_mono)

lemma if_prog_mono [partial_function_mono]:
  assumes "mono_option (\<lambda>g. m g s)" and "mono_option (\<lambda>g. m' g s)"
  shows "mono_option (\<lambda>g. (if b then m g else m' g) s)"
  using assms by (cases b) simp_all

section \<open>Total correctness\<close>

text \<open>
  \<open>wp m Q s\<close>: started in \<open>s\<close>, the program \<open>m\<close> returns, without a
  fault, and \<open>Q\<close> holds of its result and final state.
\<close>

definition wp :: "('s, 'a) prog \<Rightarrow> ('a \<Rightarrow> 's \<Rightarrow> bool) \<Rightarrow> 's \<Rightarrow> bool" where
  "wp m Q s = (case m s of Some (Inr (x, s')) \<Rightarrow> Q x s' | _ \<Rightarrow> False)"

named_theorems wp_rules

lemma wp_ret [wp_rules]: "wp (ret x) Q s = Q x s"
  by (simp add: wp_def ret_def)

lemma wp_fail [wp_rules]: "wp (fail e) Q s = False"
  by (simp add: wp_def fail_def)

lemma wp_never [wp_rules]: "wp never Q s = False"
  by (simp add: wp_def never_def)

lemma wp_gets [wp_rules]: "wp (gets f) Q s = Q (f s) s"
  by (simp add: wp_def gets_def)

lemma wp_modify [wp_rules]: "wp (modify f) Q s = Q () (f s)"
  by (simp add: wp_def modify_def)

lemma wp_bnd [wp_rules]: "wp (bnd m k) Q s = wp m (\<lambda>x. wp (k x) Q) s"
  by (simp add: wp_def bnd_def Option.bind_def split: option.splits sum.splits prod.splits)

lemma wp_thn [wp_rules]: "wp (thn m k) Q s = wp m (\<lambda>_. wp k Q) s"
  by (simp add: thn_def wp_bnd)

lemma wp_seqs_Nil [wp_rules]: "wp (seqs []) Q s = Q () s"
  by (simp add: wp_rules)

lemma wp_seqs_Cons [wp_rules]: "wp (seqs (m # ms)) Q s = wp m (\<lambda>_. wp (seqs ms) Q) s"
  by (simp add: wp_thn)

declare seqs.simps [simp del]

lemma wp_if [wp_rules]: "wp (if b then m else m') Q s = (if b then wp m Q s else wp m' Q s)"
  by simp

lemma wp_whenP [wp_rules]: "wp (whenP b m) Q s = (if b then wp m Q s else Q () s)"
  by (simp add: whenP_def wp_ret)

lemma wp_mono: "wp m Q s \<Longrightarrow> (\<And>x s'. Q x s' \<Longrightarrow> R x s') \<Longrightarrow> wp m R s"
  by (simp add: wp_def split: option.splits sum.splits prod.splits)

lemma wp_conj: "wp m Q s \<Longrightarrow> wp m R s \<Longrightarrow> wp m (\<lambda>x s'. Q x s' \<and> R x s') s"
  by (simp add: wp_def split: option.splits sum.splits prod.splits)

lemma wp_iff: "wp m Q s \<longleftrightarrow> (\<exists>x s'. m s = Some (Inr (x, s')) \<and> Q x s')"
  by (simp add: wp_def split: option.splits sum.splits prod.splits)

lemma wp_returns: "m s = Some (Inr (x, s')) \<Longrightarrow> wp m Q s = Q x s'"
  by (simp add: wp_def)

text \<open>Evaluation of the monad itself, for closed runs.\<close>

lemmas prog_defs = ret_def fail_def never_def gets_def modify_def bnd_def thn_def whenP_def

text \<open>Running a program one step at a time.\<close>

lemma thn_run: "m s = Some (Inr (x, s1)) \<Longrightarrow> thn m k s = k s1"
  by (simp add: thn_def bnd_def)

lemma seqs_run: "m s = Some (Inr ((), s1)) \<Longrightarrow> seqs (m # ms) s = seqs ms s1"
  by (simp add: seqs.simps thn_def bnd_def)

lemma seqs_done: "seqs [] s = Some (Inr ((), s))"
  by (simp add: seqs.simps ret_def)

lemma seqs_single: "seqs [m] = m"
proof
  fix s
  show "seqs [m] s = m s"
    by (cases "m s") (auto simp: seqs.simps prog_defs split: sum.splits)
qed

lemma bnd_run: "m s = Some (Inr (x, s1)) \<Longrightarrow> bnd m k s = k x s1"
  by (simp add: bnd_def)

section \<open>Mutexes\<close>

text \<open>
  The contract of a mutex of the program, in the states in which it exists (\<open>valid\<close>): locking
  waits for ever when it is held, unlocking needs it held. The rule \<open>critical\<close> is how every
  locked operation is verified.
\<close>

locale mutex =
  fixes lock unlock :: "('s, unit) prog"
    and valid held :: "'s \<Rightarrow> bool"
    and acquire release :: "'s \<Rightarrow> 's"
  assumes lock_free: "valid s \<Longrightarrow> \<not> held s \<Longrightarrow> lock s = Some (Inr ((), acquire s))"
    and lock_held: "valid s \<Longrightarrow> held s \<Longrightarrow> lock s = None"
    and unlock_held: "valid s \<Longrightarrow> held s \<Longrightarrow> unlock s = Some (Inr ((), release s))"
    and valid_acquire: "valid s \<Longrightarrow> valid (acquire s)"
    and held_acquire: "valid s \<Longrightarrow> \<not> held s \<Longrightarrow> held (acquire s)"
    and release_acquire: "valid s \<Longrightarrow> \<not> held s \<Longrightarrow> release (acquire s) = s"
begin

lemma wp_lock: "valid s \<Longrightarrow> wp lock Q s = (\<not> held s \<and> Q () (acquire s))"
  by (cases "held s") (simp_all add: wp_def lock_free lock_held)

lemma critical:
  assumes "valid s" and "\<not> held s" and "body (acquire s) = Some (Inr (x, s'))"
    and "valid s'" and "held s'"
  shows "thn lock (bnd body (\<lambda>x. thn unlock (ret x))) s = Some (Inr (x, release s'))"
  using assms by (simp add: thn_def bnd_def ret_def lock_free unlock_held)

lemma relock_never_returns: "valid s \<Longrightarrow> thn lock (thn lock m) s = None"
  by (cases "held s") (simp_all add: thn_def bnd_def lock_free lock_held held_acquire valid_acquire)

end

section \<open>Null-terminated chains in a heap\<close>

text \<open>
  \<open>chain h f p xs\<close>: starting at the pointer \<open>p\<close> and following the pointer field
  \<open>f\<close>, the heap \<open>h\<close> holds exactly the cells \<open>xs\<close>, and then the null pointer.
\<close>

fun chain :: "(addr \<rightharpoonup> 'c) \<Rightarrow> ('c \<Rightarrow> addr) \<Rightarrow> addr \<Rightarrow> addr list \<Rightarrow> bool" where
  "chain h f p [] = (p = 0)"
| "chain h f p (x # xs) = (p = x \<and> x \<noteq> 0 \<and> (\<exists>c. h x = Some c \<and> chain h f (f c) xs))"

lemma chain_null [simp]: "chain h f 0 xs = (xs = [])"
  by (cases xs) auto

lemma chain_nonnull: "p \<noteq> 0 \<Longrightarrow>
    chain h f p xs \<longleftrightarrow> (\<exists>c ys. xs = p # ys \<and> h p = Some c \<and> chain h f (f c) ys)"
  by (cases xs) auto

lemma chain_unique: "chain h f p xs \<Longrightarrow> chain h f p ys \<Longrightarrow> xs = ys"
proof (induction xs arbitrary: p ys)
  case Nil
  then show ?case by simp
next
  case (Cons x xs)
  then show ?case by (cases ys) auto
qed

lemma chain_suffix: "chain h f p (us @ x # vs) \<Longrightarrow> chain h f x (x # vs)"
  by (induction us arbitrary: p) auto

lemma chain_distinct: "chain h f p xs \<Longrightarrow> distinct xs"
proof (induction xs arbitrary: p)
  case Nil
  then show ?case by simp
next
  case (Cons x xs)
  then obtain c where c: "h x = Some c" "chain h f (f c) xs" by auto
  have "x \<notin> set xs"
  proof
    assume "x \<in> set xs"
    then obtain us vs where "xs = us @ x # vs" by (meson split_list)
    with c(2) have "chain h f x (x # vs)" using chain_suffix by blast
    moreover from Cons.prems have "chain h f x (x # xs)" by auto
    ultimately have "x # vs = x # xs" by (rule chain_unique)
    with \<open>xs = us @ x # vs\<close> show False by simp
  qed
  with Cons.IH [OF c(2)] show ?case by simp
qed

lemma chain_dom: "chain h f p xs \<Longrightarrow> x \<in> set xs \<Longrightarrow> x \<noteq> 0 \<and> (\<exists>c. h x = Some c)"
  by (induction xs arbitrary: p) auto

lemma chain_head: "chain h f p xs \<Longrightarrow> p \<noteq> 0 \<Longrightarrow> p \<in> set xs"
  by (cases xs) auto

text \<open>A write that leaves the followed field of the cells of the chain alone leaves the chain.\<close>

lemma chain_cong:
  assumes "chain h f p xs"
    and "\<And>x c. x \<in> set xs \<Longrightarrow> h x = Some c \<Longrightarrow> \<exists>c'. h' x = Some c' \<and> f c' = f c"
  shows "chain h' f p xs"
  using assms
proof (induction xs arbitrary: p)
  case Nil
  then show ?case by simp
next
  case (Cons x xs)
  then obtain c where c: "h x = Some c" "chain h f (f c) xs" "p = x" "x \<noteq> 0" by auto
  from Cons.prems(2) [of x c] c(1) obtain c' where c': "h' x = Some c'" "f c' = f c" by auto
  from c(2) Cons.prems(2) have "chain h' f (f c) xs" by (intro Cons.IH) auto
  with c c' show ?case by auto
qed

lemma chain_same: "chain h f p xs \<Longrightarrow> (\<And>x. x \<in> set xs \<Longrightarrow> h' x = h x) \<Longrightarrow> chain h' f p xs"
  by (rule chain_cong) auto

lemma chain_upd_off [simp]: "u \<notin> set xs \<Longrightarrow> chain (h(u := v)) f p xs = chain h f p xs"
  by (induction xs arbitrary: p) auto

lemma chain_upd_same:
  "h u = Some c \<Longrightarrow> f c' = f c \<Longrightarrow> chain (h(u \<mapsto> c')) f p xs = chain h f p xs"
  by (induction xs arbitrary: p) auto


section \<open>Generic list and word facts\<close>

lemma nth_update_eq: "i < length xs \<Longrightarrow> xs[i := v] ! j = (if i = j then v else xs ! j)"
  by (simp add: nth_list_update)

text \<open>Writing a block of bytes into a buffer at an offset, as \<open>memcpy\<close> does.\<close>

definition blit :: "'b list \<Rightarrow> nat \<Rightarrow> 'b list \<Rightarrow> 'b list" where
  "blit buf off bs = take off buf @ bs @ drop (off + length bs) buf"

lemma length_blit [simp]: "off + length bs \<le> length buf \<Longrightarrow> length (blit buf off bs) = length buf"
  by (simp add: blit_def)

lemma blit_read: "off \<le> length buf \<Longrightarrow> take (length bs) (drop off (blit buf off bs)) = bs"
  by (simp add: blit_def)

lemma blit_before:
  "off \<le> length buf \<Longrightarrow> i + n \<le> off \<Longrightarrow> take n (drop i (blit buf off bs)) = take n (drop i buf)"
  by (simp add: blit_def drop_take min_absorb1)

lemma blit_prefix:
  "off \<le> length buf \<Longrightarrow> n \<le> off \<Longrightarrow> take n (blit buf off bs) = take n buf"
  by (simp add: blit_def min_absorb1)

end
