(* ===== verification/Tool.thy ===== *)
theory Tool
  imports Prelude
begin

text \<open>
  tool.cpp: the four checked conversions from decimal text to integers. The C library's
  \<open>strtol\<close> family in base 10 is modelled as the C standard describes it: white space is
  skipped, an optional sign, the longest run of digits, the end pointer (here: the
  unread rest of the string), and \<open>ERANGE\<close> when the value does not fit. On the LP64
  target \<open>long\<close> and \<open>long long\<close> have 64 bits. A C string is the list of its bytes before
  the terminating NUL.
\<close>

section \<open>The C library's conversions\<close>

definition char_val :: "char \<Rightarrow> nat" where
  "char_val c = of_char c"

definition is_space :: "char \<Rightarrow> bool" where
  "is_space c \<longleftrightarrow> char_val c = 32 \<or> (9 \<le> char_val c \<and> char_val c \<le> 13)"

definition is_digit :: "char \<Rightarrow> bool" where
  "is_digit c \<longleftrightarrow> 48 \<le> char_val c \<and> char_val c \<le> 57"

definition digit_val :: "char \<Rightarrow> nat" where
  "digit_val c = char_val c - 48"

definition digits_val :: "string \<Rightarrow> nat" where
  "digits_val ds = foldl (\<lambda>n c. 10 * n + digit_val c) 0 ds"

text \<open>The sign, the digits and the rest; no digits: no conversion, the end pointer is the start.\<close>

fun split_sign :: "string \<Rightarrow> bool \<times> string" where
  "split_sign [] = (False, [])"
| "split_sign (c # cs) =
     (if c = CHR ''-'' then (True, cs) else if c = CHR ''+'' then (False, cs) else (False, c # cs))"

definition scan_number :: "string \<Rightarrow> (int \<times> string) option" where
  "scan_number str =
     (let (neg, body) = split_sign (dropWhile is_space str);
          ds = takeWhile is_digit body; rest = dropWhile is_digit body
      in if ds = [] then None
         else Some (if neg then - int (digits_val ds) else int (digits_val ds), rest))"

text \<open>
  The result of a conversion: the value, whether \<open>errno\<close> became \<open>ERANGE\<close>, whether the end
  pointer differs from the start, and the text at the end pointer.
\<close>

record conv =
  conv_val :: int
  conv_erange :: bool
  conv_any :: bool
  conv_rest :: string

definition strtoll :: "string \<Rightarrow> conv" where
  "strtoll str = (case scan_number str of
     None \<Rightarrow> \<lparr>conv_val = 0, conv_erange = False, conv_any = False, conv_rest = str\<rparr>
   | Some (v, rest) \<Rightarrow>
       if v < - (2 ^ 63) then \<lparr>conv_val = - (2 ^ 63), conv_erange = True, conv_any = True, conv_rest = rest\<rparr>
       else if v \<ge> 2 ^ 63 then \<lparr>conv_val = 2 ^ 63 - 1, conv_erange = True, conv_any = True, conv_rest = rest\<rparr>
       else \<lparr>conv_val = v, conv_erange = False, conv_any = True, conv_rest = rest\<rparr>)"

definition strtoull :: "string \<Rightarrow> conv" where
  "strtoull str = (case scan_number str of
     None \<Rightarrow> \<lparr>conv_val = 0, conv_erange = False, conv_any = False, conv_rest = str\<rparr>
   | Some (v, rest) \<Rightarrow>
       if \<bar>v\<bar> \<ge> 2 ^ 64 then \<lparr>conv_val = 2 ^ 64 - 1, conv_erange = True, conv_any = True, conv_rest = rest\<rparr>
       else \<lparr>conv_val = v mod 2 ^ 64, conv_erange = False, conv_any = True, conv_rest = rest\<rparr>)"

section \<open>tool.cpp\<close>

text \<open>
  Each function returns its \<open>bool\<close> result and the final value of \<open>*out\<close>.
  \<open>*endptr == '\0'\<close> is the emptiness of the rest, \<open>str == endptr\<close> that nothing was
  converted.
\<close>

definition safe_strtoull :: "string \<Rightarrow> bool \<times> u64" where
  "safe_strtoull str = (let r = strtoull str in
     if conv_erange r \<or> \<not> conv_any r then (False, 0)
     else if conv_rest r = [] \<and> conv_any r then
       (if conv_val r \<ge> 2 ^ 63 \<and> CHR ''-'' \<in> set str then (False, 0)
        else (True, of_int (conv_val r)))
     else (False, 0))"

definition safe_strtoll :: "string \<Rightarrow> bool \<times> 64 word" where
  "safe_strtoll str = (let r = strtoll str in
     if conv_erange r \<or> \<not> conv_any r then (False, 0)
     else if conv_rest r = [] \<and> conv_any r then (True, of_int (conv_val r))
     else (False, 0))"

definition safe_strtoul :: "string \<Rightarrow> bool \<times> u32" where
  "safe_strtoul str = (let r = strtoull str in
     if conv_erange r \<or> \<not> conv_any r then (False, 0)
     else if conv_rest r = [] \<and> conv_any r then
       (if conv_val r \<ge> 2 ^ 63 \<and> CHR ''-'' \<in> set str then (False, 0)
        else (True, of_int (conv_val r)))
     else (False, 0))"

definition safe_strtol :: "string \<Rightarrow> bool \<times> 32 word" where
  "safe_strtol str = (let r = strtoll str in
     if conv_erange r \<or> \<not> conv_any r then (False, 0)
     else if conv_rest r = [] \<and> conv_any r then (True, of_int (conv_val r))
     else (False, 0))"

section \<open>Decimal text\<close>

text \<open>What \<open>printf\<close> writes for \<open>%u\<close> and \<open>%lu\<close>; the inverse of the conversions.\<close>

definition digit_char :: "nat \<Rightarrow> char" where
  "digit_char d = char_of (48 + d)"

fun dec :: "nat \<Rightarrow> string" where
  "dec n = (if n < 10 then [digit_char n] else dec (n div 10) @ [digit_char (n mod 10)])"

declare dec.simps [simp del]

definition dec_int :: "int \<Rightarrow> string" where
  "dec_int i = (if i < 0 then CHR ''-'' # dec (nat (- i)) else dec (nat i))"

lemma char_val_digit: "d < 10 \<Longrightarrow> char_val (digit_char d) = 48 + d"
  by (simp add: char_val_def digit_char_def)

lemma is_digit_digit_char: "d < 10 \<Longrightarrow> is_digit (digit_char d)"
  by (simp add: is_digit_def char_val_digit)

lemma digits_val_snoc: "digits_val (ds @ [c]) = 10 * digits_val ds + digit_val c"
  by (simp add: digits_val_def)

lemma digits_val_dec: "digits_val (dec n) = n"
proof (induction n rule: dec.induct)
  case (1 n)
  show ?case
  proof (cases "n < 10")
    case True
    then show ?thesis
      by (subst dec.simps) (simp add: digits_val_def digit_val_def char_val_digit)
  next
    case False
    with 1 show ?thesis
      by (subst dec.simps) (simp add: digits_val_snoc digit_val_def char_val_digit)
  qed
qed

lemma dec_all_digits: "c \<in> set (dec n) \<Longrightarrow> is_digit c"
proof (induction n rule: dec.induct)
  case (1 n)
  show ?case
  proof (cases "n < 10")
    case True
    with 1 show ?thesis by (simp add: dec.simps [of n] is_digit_digit_char)
  next
    case False
    with 1 show ?thesis by (auto simp: dec.simps [of n] is_digit_digit_char)
  qed
qed

lemma dec_nonempty [simp]: "dec n \<noteq> []"
  by (subst dec.simps) simp

lemma digit_not_sign: "is_digit c \<Longrightarrow> c \<noteq> CHR ''-'' \<and> c \<noteq> CHR ''+'' \<and> \<not> is_space c"
  by (auto simp: is_digit_def is_space_def char_val_def)

lemma digits_take: "(\<And>c. c \<in> set ds \<Longrightarrow> is_digit c) \<Longrightarrow> takeWhile is_digit ds = ds"
  by (simp add: takeWhile_eq_all_conv)

lemma digits_drop: "(\<And>c. c \<in> set ds \<Longrightarrow> is_digit c) \<Longrightarrow> dropWhile is_digit ds = []"
  by simp

text \<open>Any text that is white space, an optional sign and digits scans as its value.\<close>

lemma scan_dec: "scan_number (dec n) = Some (int n, [])"
proof -
  obtain c cs where cs: "dec n = c # cs" by (cases "dec n") auto
  then have c: "is_digit c" using dec_all_digits [of c n] by simp
  have "split_sign (dropWhile is_space (dec n)) = (False, dec n)"
    using cs digit_not_sign [OF c] by simp
  then show ?thesis
    by (simp add: scan_number_def digits_take dec_all_digits digits_val_dec)
qed

lemma scan_dec_neg: "scan_number (CHR ''-'' # dec n) = Some (- int n, [])"
proof -
  have "\<not> is_space (CHR ''-'')" by (simp add: is_space_def char_val_def)
  then show ?thesis
    by (simp add: scan_number_def digits_take dec_all_digits digits_val_dec)
qed

lemma scan_dec_int: "scan_number (dec_int i) = Some (i, [])"
  by (simp add: dec_int_def scan_dec scan_dec_neg)

lemma minus_not_in_dec [simp]: "CHR ''-'' \<notin> set (dec n)"
  using dec_all_digits digit_not_sign by blast

section \<open>The contract the four conversions share\<close>

text \<open>
  A conversion reads the whole text as one number \<open>v\<close> (white space, sign, digits, nothing
  after them), accepts it on a set of values, writes \<open>v\<close> truncated to the width of
  \<open>*out\<close>, and otherwise fails with \<open>*out = 0\<close>.
\<close>

locale checked_conversion =
  fixes parse :: "string \<Rightarrow> bool \<times> 'w::len word"
    and accepts :: "int \<Rightarrow> bool"
  assumes parse_number: "scan_number str = Some (v, []) \<Longrightarrow>
      parse str = (if accepts v then (True, of_int v) else (False, 0))"
    and parse_trailing: "scan_number str = Some (v, c # cs) \<Longrightarrow> parse str = (False, 0)"
    and parse_nothing: "scan_number str = None \<Longrightarrow> parse str = (False, 0)"
begin

lemma parse_dec_int: "accepts i \<Longrightarrow> parse (dec_int i) = (True, of_int i)"
  by (simp add: parse_number scan_dec_int)

lemma parse_dec: "accepts (int n) \<Longrightarrow> parse (dec n) = (True, of_nat n)"
  by (simp add: parse_number scan_dec)

lemma refuse_dec_int: "\<not> accepts i \<Longrightarrow> parse (dec_int i) = (False, 0)"
  by (simp add: parse_number scan_dec_int)

lemma accepted_iff: "fst (parse str) \<longleftrightarrow> (\<exists>v. scan_number str = Some (v, []) \<and> accepts v)"
proof (cases "scan_number str")
  case None
  then show ?thesis by (simp add: parse_nothing)
next
  case (Some vr)
  then show ?thesis
    by (cases vr; cases "snd vr") (auto simp: parse_number parse_trailing)
qed

lemma accepted_value:
  "parse str = (True, w) \<Longrightarrow> \<exists>v. scan_number str = Some (v, []) \<and> accepts v \<and> w = of_int v"
proof -
  assume p: "parse str = (True, w)"
  then obtain v where v: "scan_number str = Some (v, [])" "accepts v"
    using accepted_iff [of str] by auto
  with p show ?thesis using parse_number by auto
qed

lemma failed_out_zero: "\<not> fst (parse str) \<Longrightarrow> snd (parse str) = 0"
proof (cases "scan_number str")
  case None
  then show ?thesis by (simp add: parse_nothing)
next
  case (Some vr)
  then show "\<not> fst (parse str) \<Longrightarrow> snd (parse str) = 0"
    by (cases vr; cases "snd vr") (auto simp: parse_number parse_trailing split: if_splits)
qed

end

text \<open>The values the functions accept: \<open>strtoull\<close> negates in 64 bits without an error.\<close>

definition accepts_s64 :: "int \<Rightarrow> bool" where
  "accepts_s64 v \<longleftrightarrow> - (2 ^ 63) \<le> v \<and> v < 2 ^ 63"

definition accepts_u64 :: "int \<Rightarrow> bool" where
  "accepts_u64 v \<longleftrightarrow> (0 \<le> v \<and> v < 2 ^ 64) \<or> (- (2 ^ 64) < v \<and> v < - (2 ^ 63))"

lemma minus_in_text:
  assumes "scan_number str = Some (v, [])"
  shows "v < 0 \<Longrightarrow> CHR ''-'' \<in> set str" and "0 < v \<Longrightarrow> CHR ''-'' \<notin> set str"
proof -
  obtain sp body where sp: "str = sp @ body" "\<forall>c \<in> set sp. is_space c"
    and body: "body = dropWhile is_space str"
    by (metis set_takeWhileD takeWhile_dropWhile_id)
  have ms: "CHR ''-'' \<notin> set sp" using sp(2) by (auto simp: is_space_def char_val_def)
  obtain neg ds where nd: "split_sign body = (neg, ds)" by (cases "split_sign body")
  have all: "dropWhile is_digit ds = []" and val: "v = (if neg then - int (digits_val ds) else int (digits_val ds))"
    using assms nd body by (auto simp: scan_number_def Let_def split: if_splits)
      (metis dropWhile_eq_Nil_conv takeWhile_eq_all_conv)+
  then have md: "CHR ''-'' \<notin> set ds" using digit_not_sign by fastforce
  have cases: "(neg \<and> body = CHR ''-'' # ds) \<or> (\<not> neg \<and> (body = ds \<or> body = CHR ''+'' # ds))"
    using nd by (cases body) (auto split: if_splits)
  show "v < 0 \<Longrightarrow> CHR ''-'' \<in> set str" using cases val sp(1) by (auto split: if_splits)
  show "0 < v \<Longrightarrow> CHR ''-'' \<notin> set str" using cases val sp(1) ms md by (auto split: if_splits)
qed

lemma of_int_mod_2p64:
  assumes "LENGTH('w) \<le> 64"
  shows "(of_int (v mod 18446744073709551616) :: 'w::len word) = of_int v"
proof -
  have "(2::int) ^ LENGTH('w) dvd 2 ^ 64" using assms by (rule le_imp_power_dvd)
  then have "v mod 2 ^ 64 mod 2 ^ LENGTH('w) = v mod 2 ^ LENGTH('w)" by (rule mod_mod_cancel)
  then show ?thesis by (simp add: word_of_int_eq_iff take_bit_eq_mod)
qed

text \<open>The unsigned pair goes through \<open>strtoull\<close>, the signed pair through \<open>strtoll\<close>.\<close>

lemma strtoull_number:
  assumes "scan_number str = Some (v, rest)"
  shows "conv_erange (strtoull str) \<longleftrightarrow> 2 ^ 64 \<le> \<bar>v\<bar>"
    and "conv_any (strtoull str)"
    and "conv_rest (strtoull str) = rest"
    and "\<bar>v\<bar> < 2 ^ 64 \<Longrightarrow> conv_val (strtoull str) = v mod 2 ^ 64"
  using assms by (auto simp: strtoull_def)

lemma strtoll_number:
  assumes "scan_number str = Some (v, rest)"
  shows "conv_erange (strtoll str) \<longleftrightarrow> \<not> accepts_s64 v"
    and "conv_any (strtoll str)"
    and "conv_rest (strtoll str) = rest"
    and "accepts_s64 v \<Longrightarrow> conv_val (strtoll str) = v"
  using assms by (auto simp: strtoll_def accepts_s64_def)

lemma conv_nothing:
  assumes "scan_number str = None"
  shows "\<not> conv_any (strtoull str)" and "\<not> conv_any (strtoll str)"
  using assms by (simp_all add: strtoull_def strtoll_def)

lemma u64_sign_check:
  assumes "scan_number str = Some (v, [])" and "\<bar>v\<bar> < 2 ^ 64"
  shows "(2 ^ 63 \<le> v mod 2 ^ 64 \<and> CHR ''-'' \<in> set str) \<longleftrightarrow> \<not> accepts_u64 v"
proof (cases "v < 0")
  case True
  then have "v mod 2 ^ 64 = v + 2 ^ 64"
    using assms(2) mod_pos_pos_trivial [of "v + 2 ^ 64" "2 ^ 64"] by simp
  with True assms minus_in_text(1) [OF assms(1)] show ?thesis
    by (auto simp: accepts_u64_def)
next
  case False
  then have "v mod 2 ^ 64 = v" using assms(2) by simp
  with False assms minus_in_text(2) [OF assms(1)] show ?thesis
    by (cases "v = 0") (auto simp: accepts_u64_def)
qed

interpretation strtoull: checked_conversion safe_strtoull accepts_u64
proof unfold_locales
  fix str v
  assume n: "scan_number str = Some (v, [])"
  show "safe_strtoull str = (if accepts_u64 v then (True, of_int v) else (False, 0))"
  proof (cases "\<bar>v\<bar> < 2 ^ 64")
    case True
    with strtoull_number [OF n] u64_sign_check [OF n True] show ?thesis
      by (auto simp: safe_strtoull_def Let_def of_int_mod_2p64)
  next
    case False
    with strtoull_number [OF n] show ?thesis
      by (auto simp: safe_strtoull_def Let_def accepts_u64_def)
  qed
qed (auto simp: safe_strtoull_def Let_def strtoull_number conv_nothing)

interpretation strtoul: checked_conversion safe_strtoul accepts_u64
proof unfold_locales
  fix str v
  assume n: "scan_number str = Some (v, [])"
  show "safe_strtoul str = (if accepts_u64 v then (True, of_int v) else (False, 0))"
  proof (cases "\<bar>v\<bar> < 2 ^ 64")
    case True
    with strtoull_number [OF n] u64_sign_check [OF n True] show ?thesis
      by (auto simp: safe_strtoul_def Let_def of_int_mod_2p64)
  next
    case False
    with strtoull_number [OF n] show ?thesis
      by (auto simp: safe_strtoul_def Let_def accepts_u64_def)
  qed
qed (auto simp: safe_strtoul_def Let_def strtoull_number conv_nothing)

interpretation strtoll: checked_conversion safe_strtoll accepts_s64
  by unfold_locales (auto simp: safe_strtoll_def Let_def strtoll_number conv_nothing)

interpretation strtol: checked_conversion safe_strtol accepts_s64
  by unfold_locales (auto simp: safe_strtol_def Let_def strtoll_number conv_nothing)

section \<open>Properties\<close>

text \<open>C26: \<open>safe_strtoull\<close> and \<open>safe_strtoul\<close> accept exactly the texts that are one number
  \<open>v\<close> (white space, a sign, digits, nothing after them) with \<open>0 \<le> v < 2^64\<close>, or with
  \<open>-2^64 < v < -2^63\<close>: \<open>strtoull\<close> wraps negative numbers around, and the check for a
  minus sign is made only when the wrapped value has its top bit set, so the most negative
  ones slip through.\<close>
theorem unsigned_accepts_iff:
  "(fst (safe_strtoull str) \<longleftrightarrow> (\<exists>v. scan_number str = Some (v, []) \<and>
      ((0 \<le> v \<and> v < 2 ^ 64) \<or> (- (2 ^ 64) < v \<and> v < - (2 ^ 63))))) \<and>
   (fst (safe_strtoul str) \<longleftrightarrow> fst (safe_strtoull str))"
  by (simp add: strtoull.accepted_iff strtoul.accepted_iff accepts_u64_def)

text \<open>C25: The 64-bit conversions read back what \<open>printf\<close> writes: every \<open>uint64_t\<close> printed in
  decimal is accepted by \<open>safe_strtoull\<close> with that value, every \<open>int64_t\<close> by
  \<open>safe_strtoll\<close>.\<close>
theorem print_parse_64:
  "safe_strtoull (dec (unat w)) = (True, w) \<and> safe_strtoll (dec_int (sint w)) = (True, w)"
proof -
  have "accepts_u64 (int (unat w))"
    using unsigned_less [where ?'a = int, of w] by (simp add: accepts_u64_def)
  moreover have "accepts_s64 (sint w)"
    using sint_ge [of w] sint_lt [of w] by (simp add: accepts_s64_def)
  ultimately show ?thesis by (simp add: strtoull.parse_dec strtoll.parse_dec_int)
qed

text \<open>The conversions to 32 bits check the 64-bit range and then truncate: a number that does
  not fit \<open>*out\<close> is not refused, its value is taken modulo \<open>2^32\<close>. For a number that fits,
  the result is the number.\<close>
theorem narrow_conversions_truncate:
  assumes "n < 2 ^ 64" and "- (2 ^ 63) \<le> i" "i < 2 ^ 63"
  shows "fst (safe_strtoul (dec n)) \<and> unat (snd (safe_strtoul (dec n))) = n mod 2 ^ 32 \<and>
    fst (safe_strtol (dec_int i)) \<and>
    sint (snd (safe_strtol (dec_int i))) = (i + 2 ^ 31) mod 2 ^ 32 - 2 ^ 31"
proof -
  have "accepts_u64 (int n)" using assms(1) by (simp add: accepts_u64_def)
  moreover have "accepts_s64 i" using assms(2,3) by (simp add: accepts_s64_def)
  moreover have "unat (of_nat n :: u32) = n mod 2 ^ 32" by (simp add: unsigned_of_nat take_bit_eq_mod)
  moreover have "sint (of_int i :: u32) = (i + 2 ^ 31) mod 2 ^ 32 - 2 ^ 31"
    by (simp add: signed_of_int signed_take_bit_eq_take_bit_shift take_bit_eq_mod)
  ultimately show ?thesis by (simp add: strtoul.parse_dec strtol.parse_dec_int)
qed

lemma narrow_conversions_truncate_witness:
  "safe_strtoul (dec 4294967297) = (True, 1) \<and> fst (safe_strtol (dec_int 4294967295)) \<and>
   sint (snd (safe_strtol (dec_int 4294967295))) = - 1"
proof -
  note t = narrow_conversions_truncate [of 4294967297 4294967295, simplified]
  have "snd (safe_strtoul (dec 4294967297)) = 1"
    using t by (simp add: word_unat_eq_iff)
  with t show ?thesis by (simp add: prod_eq_iff)
qed

text \<open>Whatever the text, when one of the four conversions fails it has stored 0 in \<open>*out\<close>,
  as its caller may still read it.\<close>
theorem failed_conversion_stores_zero:
  "(fst (safe_strtoull str) \<or> snd (safe_strtoull str) = 0) \<and>
   (fst (safe_strtoll str) \<or> snd (safe_strtoll str) = 0) \<and>
   (fst (safe_strtoul str) \<or> snd (safe_strtoul str) = 0) \<and>
   (fst (safe_strtol str) \<or> snd (safe_strtol str) = 0)"
  using strtoull.failed_out_zero [of str] strtoll.failed_out_zero [of str]
    strtoul.failed_out_zero [of str] strtol.failed_out_zero [of str] by blast

end
