(* ===== verification/Machine.thy ===== *)
theory Machine
  imports Prelude
begin

text \<open>
  The data of the storage side of the server, as the code has it: the structs and classes
  of slab.h and settings.h as records, the globals of memcached.h as one record
  \<open>machine\<close>, and the primitive effects the operations are built from: reading and
  writing an item through a pointer, copying bytes of its \<open>data\<close> array, allocating memory,
  reading the clock, taking and releasing the global mutex.
\<close>

section \<open>Constants and layout\<close>

text \<open>
  The layout of \<open>base_item\<close> on the LP64 target of the Makefile: four 8-byte fields, four
  4-byte fields and three bytes put the flexible array \<open>data\<close> at offset 51, and the
  alignment of the struct rounds its size up to 56.
\<close>

definition sizeof_base_item :: nat where
  "sizeof_base_item = 56"

definition offset_data :: nat where
  "offset_data = 51"

lemmas layout = sizeof_base_item_def offset_data_def

abbreviation ITEM_LINKED :: u8 where "ITEM_LINKED \<equiv> 1"
abbreviation ITEM_CAS :: u8 where "ITEM_CAS \<equiv> 2"
abbreviation ITEM_SLABBED :: u8 where "ITEM_SLABBED \<equiv> 4"
abbreviation ITEM_FETCHED :: u8 where "ITEM_FETCHED \<equiv> 8"

definition POWER_SMALLEST :: nat where "POWER_SMALLEST = 1"
definition POWER_LARGEST :: nat where "POWER_LARGEST = 200"
definition CHUNK_ALION_BYTES :: nat where "CHUNK_ALION_BYTES = 8"

lemmas power_defs = POWER_SMALLEST_def POWER_LARGEST_def

text \<open>The conversion of a C \<open>int\<close> to \<open>size_t\<close>, and of \<open>size_t\<close> to \<open>int\<close>.\<close>

definition size_t :: "int \<Rightarrow> nat" where
  "size_t i = nat (i mod 2 ^ 64)"

definition c_int :: "int \<Rightarrow> int" where
  "c_int i = (i + 2 ^ 31) mod 2 ^ 32 - 2 ^ 31"

lemma size_t_nonneg [simp]: "0 \<le> i \<Longrightarrow> i < 2 ^ 64 \<Longrightarrow> size_t i = nat i"
  by (simp add: size_t_def)

lemma c_int_small: "- (2 ^ 31) \<le> i \<Longrightarrow> i < 2 ^ 31 \<Longrightarrow> c_int i = i"
  by (simp add: c_int_def)

section \<open>Structs\<close>

record settings =
  verbose :: int
  num_threads :: int
  port :: int
  unix_filename :: "string option"
  net_or_local :: int
  backlog :: int
  chunk_size :: u32
  item_size_max :: u32
  oldest_live :: u32
  evict_to_free :: int

text \<open>The constructor; it leaves \<open>unix_filename\<close> unset.\<close>

definition default_settings :: settings where
  "default_settings = \<lparr>
     verbose = 2, num_threads = 4, port = 11211, unix_filename = None,
     net_or_local = 1, backlog = 1024, chunk_size = 48, item_size_max = 1024 * 1024,
     oldest_live = 0, evict_to_free = 1 \<rparr>"

record base_item =
  it_next :: addr
  it_prev :: addr
  it_h_next :: addr
  it_cas :: u64
  it_realtime :: u32
  it_exptime :: u32
  it_nbytes :: int
  it_refcount :: u32
  it_flag :: u8
  it_clsid :: u8
  it_nkey :: u8
  it_data :: "byte list"

text \<open>What \<open>memset(ptr, 0, len)\<close> makes of a chunk of the given size.\<close>

definition zero_item :: "nat \<Rightarrow> base_item" where
  "zero_item sz = \<lparr>
     it_next = 0, it_prev = 0, it_h_next = 0, it_cas = 0, it_realtime = 0, it_exptime = 0,
     it_nbytes = 0, it_refcount = 0, it_flag = 0, it_clsid = 0, it_nkey = 0,
     it_data = replicate (sz - offset_data) (CHR 0x00) \<rparr>"

definition item_total :: "base_item \<Rightarrow> nat" where
  "item_total it = size_t (int sizeof_base_item + int (unat (it_nkey it)) + 1 + it_nbytes it)"

text \<open>The key of an item, and where its value starts in \<open>data\<close>.\<close>

definition real_data_off :: "base_item \<Rightarrow> nat" where
  "real_data_off it = unat (it_nkey it) + 1"

definition key_of :: "base_item \<Rightarrow> byte list" where
  "key_of it = take (unat (it_nkey it)) (it_data it)"

definition value_of :: "base_item \<Rightarrow> byte list" where
  "value_of it = take (nat (it_nbytes it)) (drop (real_data_off it) (it_data it))"

text \<open>
  The unsigned fields of a class and of the allocator are held as natural numbers. The sizes, and
  the sums of bytes, are reduced to their width where they are computed (theory Slabs); the numbers
  of chunks and pages reach theirs only with more than 240 GB of memory in one class.
\<close>

record slabclass =
  cls_size :: nat
  perslab :: nat
  slots :: addr
  sl_curr :: nat
  slabs :: nat
  slab_list :: "addr list"
  list_size :: nat
  killing :: nat
  requested :: u64

definition slabclass_init :: slabclass where
  "slabclass_init = \<lparr> cls_size = 0, perslab = 0, slots = 0, sl_curr = 0, slabs = 0,
     slab_list = [], list_size = 0, killing = 0, requested = 0 \<rparr>"

record Slab =
  power_largest :: nat
  mem_limit :: nat
  mem_malloced :: nat
  mem_base :: "slabclass list"
  slabs_lock :: bool

record HashTable =
  primary_hashtable :: "addr list"
  item_locks :: "bool list"
  item_lock_count :: nat
  hashpower :: nat

record LRU_list =
  heads :: "addr list"
  tails :: "addr list"
  sizes :: "u32 list"

text \<open>
  The globals. \<open>alloc_ok\<close> and \<open>clock\<close> are the environment: whether the n-th request
  for memory is granted, and what the n-th reading of the clock returns.
\<close>

record machine =
  heap :: "addr \<rightharpoonup> base_item"
  brk :: addr
  alloc_ok :: "nat \<Rightarrow> bool"
  alloc_calls :: nat
  clock :: "nat \<Rightarrow> u32"
  clock_reads :: nat
  slab :: Slab
  hashtable :: HashTable
  lru_list :: LRU_list
  hashitems :: u32
  cache_lock :: bool
  last_cas_id :: u64
  mem_setting :: settings

section \<open>Primitive effects\<close>

text \<open>Reading and updating the item a pointer points to.\<close>

definition rd :: "addr \<Rightarrow> (machine, base_item) prog" where
  "rd p = (\<lambda>s. if p = 0 then Some (Inl NullDeref)
     else case heap s p of None \<Rightarrow> Some (Inl (WildPointer p)) | Some c \<Rightarrow> Some (Inr (c, s)))"

definition upd :: "addr \<Rightarrow> (base_item \<Rightarrow> base_item) \<Rightarrow> (machine, unit) prog" where
  "upd p f = bnd (rd p) (\<lambda>c. modify (\<lambda>s. s\<lparr>heap := (heap s)(p \<mapsto> f c)\<rparr>))"

lemma wp_rd [wp_rules]:
  "wp (rd p) Q s = (p \<noteq> 0 \<and> (\<exists>c. heap s p = Some c \<and> Q c s))"
  by (simp add: wp_def rd_def split: option.splits)

lemma wp_upd [wp_rules]:
  "wp (upd p f) Q s =
     (p \<noteq> 0 \<and> (\<exists>c. heap s p = Some c \<and> Q () (s\<lparr>heap := (heap s)(p \<mapsto> f c)\<rparr>)))"
  by (auto simp: upd_def wp_rules)

text \<open>Reading \<open>n\<close> bytes of \<open>data\<close> from an offset, and \<open>memcpy\<close> into it.\<close>

definition rd_data :: "addr \<Rightarrow> nat \<Rightarrow> nat \<Rightarrow> (machine, byte list) prog" where
  "rd_data p off n = bnd (rd p) (\<lambda>c.
     if length (it_data c) < off + n then fail BufferOverrun
     else ret (take n (drop off (it_data c))))"

definition wr_data :: "addr \<Rightarrow> nat \<Rightarrow> byte list \<Rightarrow> (machine, unit) prog" where
  "wr_data p off bs = bnd (rd p) (\<lambda>c.
     if length (it_data c) < off + length bs then fail BufferOverrun
     else upd p (\<lambda>c. c\<lparr>it_data := blit (it_data c) off bs\<rparr>))"

lemma wp_rd_data [wp_rules]:
  "wp (rd_data p off n) Q s =
     (p \<noteq> 0 \<and> (\<exists>c. heap s p = Some c \<and> off + n \<le> length (it_data c) \<and>
        Q (take n (drop off (it_data c))) s))"
  by (cases "heap s p") (auto simp: rd_data_def wp_rules)

lemma wp_wr_data [wp_rules]:
  "wp (wr_data p off bs) Q s =
     (p \<noteq> 0 \<and> (\<exists>c. heap s p = Some c \<and> off + length bs \<le> length (it_data c) \<and>
        Q () (s\<lparr>heap := (heap s)(p \<mapsto> c\<lparr>it_data := blit (it_data c) off bs\<rparr>)\<rparr>)))"
  by (cases "heap s p") (auto simp: wr_data_def wp_rules)

text \<open>The clock: every call of \<open>current_time\<close> may read another value.\<close>

definition current_time :: "(machine, u32) prog" where
  "current_time = bnd (gets (\<lambda>s. clock s (clock_reads s)))
     (\<lambda>t. thn (modify (\<lambda>s. s\<lparr>clock_reads := Suc (clock_reads s)\<rparr>)) (ret t))"

lemma wp_current_time [wp_rules]:
  "wp current_time Q s =
     Q (clock s (clock_reads s)) (s\<lparr>clock_reads := Suc (clock_reads s)\<rparr>)"
  by (simp add: current_time_def wp_rules)

text \<open>
  Memory from the system: a request that is granted yields a block past every earlier one,
  a request that is not yields the null pointer.
\<close>

definition sys_alloc :: "nat \<Rightarrow> (machine, addr) prog" where
  "sys_alloc len = bnd (gets (\<lambda>s. (alloc_ok s (alloc_calls s), brk s))) (\<lambda>(ok, b).
     thn (modify (\<lambda>s. s\<lparr>alloc_calls := Suc (alloc_calls s),
                        brk := (if ok then b + len else b)\<rparr>))
         (ret (if ok then b else 0)))"

lemma wp_sys_alloc [wp_rules]:
  "wp (sys_alloc len) Q s =
     (if alloc_ok s (alloc_calls s)
      then Q (brk s) (s\<lparr>alloc_calls := Suc (alloc_calls s), brk := brk s + len\<rparr>)
      else Q 0 (s\<lparr>alloc_calls := Suc (alloc_calls s), brk := brk s\<rparr>))"
  by (simp add: sys_alloc_def wp_rules)

text \<open>
  The global mutexes. \<open>mutex_lock\<close> spins on \<open>try_lock\<close>: on a mutex that is held it does
  not return. Releasing a mutex that is not held is an error.
\<close>

definition lock_cache :: "(machine, unit) prog" where
  "lock_cache = bnd (gets cache_lock) (\<lambda>held.
     if held then never else modify (\<lambda>s. s\<lparr>cache_lock := True\<rparr>))"

definition unlock_cache :: "(machine, unit) prog" where
  "unlock_cache = bnd (gets cache_lock) (\<lambda>held.
     if held then modify (\<lambda>s. s\<lparr>cache_lock := False\<rparr>) else fail UnlockNotHeld)"

lemma wp_lock_cache [wp_rules]:
  "wp lock_cache Q s = (\<not> cache_lock s \<and> Q () (s\<lparr>cache_lock := True\<rparr>))"
  by (simp add: lock_cache_def wp_rules)

lemma wp_unlock_cache [wp_rules]:
  "wp unlock_cache Q s = (cache_lock s \<and> Q () (s\<lparr>cache_lock := False\<rparr>))"
  by (simp add: unlock_cache_def wp_rules)

interpretation cache_mutex: mutex lock_cache unlock_cache "\<lambda>_. True" cache_lock
    "\<lambda>s. s\<lparr>cache_lock := True\<rparr>" "\<lambda>s. s\<lparr>cache_lock := False\<rparr>"
  by unfold_locales (auto simp: lock_cache_def unlock_cache_def prog_defs)

text \<open>\<open>base_item::get_cas_id\<close>: the next number of the static counter.\<close>

definition get_cas_id :: "(machine, u64) prog" where
  "get_cas_id = thn (modify (\<lambda>s. s\<lparr>last_cas_id := last_cas_id s + 1\<rparr>)) (gets last_cas_id)"

lemma wp_get_cas_id [wp_rules]:
  "wp get_cas_id Q s = Q (last_cas_id s + 1) (s\<lparr>last_cas_id := last_cas_id s + 1\<rparr>)"
  by (simp add: get_cas_id_def wp_rules)

definition set_cas :: "addr \<Rightarrow> u64 \<Rightarrow> (machine, unit) prog" where
  "set_cas p v = upd p (\<lambda>c. c\<lparr>it_cas := v\<rparr>)"

definition get_cas :: "addr \<Rightarrow> (machine, u64) prog" where
  "get_cas p = bnd (rd p) (\<lambda>c. ret (it_cas c))"

declare set_cas_def [wp_rules] get_cas_def [wp_rules]

text \<open>An indexed element of a vector; past its end the code has undefined behaviour.\<close>

definition idx :: "'b list \<Rightarrow> nat \<Rightarrow> ('s, 'b) prog" where
  "idx xs i = (if i < length xs then ret (xs ! i) else fail (IndexOutOfRange i))"

lemma wp_idx [wp_rules]: "wp (idx xs i) Q s = (i < length xs \<and> Q (xs ! i) s)"
  by (simp add: idx_def wp_rules)

text \<open>
  The globals before their constructors have run: static storage is zeroed, no memory has
  been handed out.
\<close>

definition blank :: "(nat \<Rightarrow> bool) \<Rightarrow> (nat \<Rightarrow> u32) \<Rightarrow> settings \<Rightarrow> machine" where
  "blank ok clk st = \<lparr>
     heap = Map.empty, brk = 4096, alloc_ok = ok, alloc_calls = 0, clock = clk, clock_reads = 0,
     slab = \<lparr>power_largest = 0, mem_limit = 0, mem_malloced = 0, mem_base = [], slabs_lock = False\<rparr>,
     hashtable = \<lparr>primary_hashtable = [], item_locks = [], item_lock_count = 0, hashpower = 0\<rparr>,
     lru_list = \<lparr>heads = [], tails = [], sizes = []\<rparr>,
     hashitems = 0, cache_lock = False, last_cas_id = 0, mem_setting = st\<rparr>"

end
