(* ===== verification/Slabs.thy ===== *)
theory Slabs
  imports Machine
begin

text \<open>
  The class \<open>Slab\<close> of slab.cpp: the table of slab classes built by the constructor, the
  choice of a class for a size, the page allocator that cuts a page into chunks, and the
  per-class free lists, which are chained through the \<open>next\<close> and \<open>prev\<close> fields of the
  free chunks themselves.
\<close>

section \<open>Access to the class table\<close>

definition get_class :: "nat \<Rightarrow> (machine, slabclass) prog" where
  "get_class cid = bnd (gets (\<lambda>s. mem_base (slab s))) (\<lambda>mb. idx mb cid)"

definition set_class :: "nat \<Rightarrow> (slabclass \<Rightarrow> slabclass) \<Rightarrow> machine \<Rightarrow> machine" where
  "set_class cid f s = s\<lparr>slab := (slab s)\<lparr>mem_base :=
     (mem_base (slab s))[cid := f (mem_base (slab s) ! cid)]\<rparr>\<rparr>"

definition upd_class :: "nat \<Rightarrow> (slabclass \<Rightarrow> slabclass) \<Rightarrow> (machine, unit) prog" where
  "upd_class cid f = thn (get_class cid) (modify (set_class cid f))"

lemma wp_get_class [wp_rules]:
  "wp (get_class cid) Q s = (cid < length (mem_base (slab s)) \<and> Q (mem_base (slab s) ! cid) s)"
  by (simp add: get_class_def wp_rules)

lemma wp_upd_class [wp_rules]:
  "wp (upd_class cid f) Q s = (cid < length (mem_base (slab s)) \<and> Q () (set_class cid f s))"
  by (simp add: upd_class_def wp_rules)

lemma set_class_frame [simp]:
  "heap (set_class cid f s) = heap s" "brk (set_class cid f s) = brk s"
  "hashtable (set_class cid f s) = hashtable s" "lru_list (set_class cid f s) = lru_list s"
  "cache_lock (set_class cid f s) = cache_lock s" "hashitems (set_class cid f s) = hashitems s"
  "alloc_ok (set_class cid f s) = alloc_ok s" "alloc_calls (set_class cid f s) = alloc_calls s"
  "clock (set_class cid f s) = clock s" "clock_reads (set_class cid f s) = clock_reads s"
  "last_cas_id (set_class cid f s) = last_cas_id s"
  "mem_setting (set_class cid f s) = mem_setting s"
  "power_largest (slab (set_class cid f s)) = power_largest (slab s)"
  "mem_limit (slab (set_class cid f s)) = mem_limit (slab s)"
  "mem_malloced (slab (set_class cid f s)) = mem_malloced (slab s)"
  "slabs_lock (slab (set_class cid f s)) = slabs_lock (slab s)"
  "length (mem_base (slab (set_class cid f s))) = length (mem_base (slab s))"
  by (simp_all add: set_class_def)

lemma set_class_nth:
  "i < length (mem_base (slab s)) \<Longrightarrow> mem_base (slab (set_class cid f s)) ! i =
     (if i = cid then f (mem_base (slab s) ! i) else mem_base (slab s) ! i)"
  by (simp add: set_class_def nth_list_update)

section \<open>The constructor's class table\<close>

text \<open>
  The growth factor is the rational \<open>fn / fd\<close>; the server uses 1.2, that is 6 / 5, for
  which the conversion \<open>size *= factor\<close> from \<open>double\<close> back to \<open>unsigned\<close> is the quotient;
  a quotient that no \<open>unsigned int\<close> holds is undefined. The sizes are 32-bit numbers: the
  header and the chunk size are added, and a size is aligned, modulo \<open>2 ^ 32\<close>, and an aligned
  size of 0 is a divisor.
\<close>

definition align_up :: "nat \<Rightarrow> nat" where
  "align_up sz = (if sz mod CHUNK_ALION_BYTES \<noteq> 0
     then sz + (CHUNK_ALION_BYTES - sz mod CHUNK_ALION_BYTES) else sz)"

definition new_class :: "nat \<Rightarrow> nat \<Rightarrow> slabclass" where
  "new_class sz n = slabclass_init\<lparr>cls_size := sz, perslab := n\<rparr>"

function slab_classes :: "nat \<Rightarrow> nat \<Rightarrow> nat \<Rightarrow> nat \<Rightarrow> nat \<Rightarrow> slabclass list
    \<Rightarrow> fault + (slabclass list \<times> nat)" where
  "slab_classes fn fd imax i sz mb =
     (if i + 1 < POWER_LARGEST \<and> sz * fn \<le> imax * fd
      then (let sz = align_up sz mod 2 ^ 32 in
            if sz = 0 then Inl DivisionByZero
            else if 2 ^ 32 \<le> sz * fn div fd then Inl IntOverflow
            else slab_classes fn fd imax (i + 1) (sz * fn div fd)
                   (mb @ [new_class sz (imax div sz)]))
      else Inr (mb @ [new_class imax 1], i + 1))"
  by pat_completeness auto
termination
  by (relation "measure (\<lambda>(fn, fd, imax, i, sz, mb). POWER_LARGEST - i)") auto

declare slab_classes.simps [simp del]

definition make_table :: "nat \<Rightarrow> nat \<Rightarrow> nat \<Rightarrow> settings \<Rightarrow> fault + Slab" where
  "make_table limit fn fd st =
     (case slab_classes fn fd (unat (item_size_max st)) (POWER_SMALLEST - 1)
             (unat (of_nat sizeof_base_item + chunk_size st)) [slabclass_init] of
        Inl e \<Rightarrow> Inl e
      | Inr (mb, i) \<Rightarrow> Inr \<lparr> power_largest = i, mem_limit = limit, mem_malloced = 0,
          mem_base = mb, slabs_lock = False \<rparr>)"

section \<open>Choosing a class\<close>

text \<open>The scan of \<open>slabs_clsid\<close> from \<open>res\<close> upwards; reading past the table is a fault.\<close>

function clsid_scan :: "Slab \<Rightarrow> nat \<Rightarrow> nat \<Rightarrow> fault + nat" where
  "clsid_scan sl sz res =
     (if \<not> res < length (mem_base sl) then Inl (IndexOutOfRange res)
      else if sz > cls_size (mem_base sl ! res)
      then if res = power_largest sl then Inr 0 else clsid_scan sl sz (res + 1)
      else Inr res)"
  by pat_completeness auto
termination
  by (relation "measure (\<lambda>(sl, sz, res). length (mem_base sl) - res)") auto

declare clsid_scan.simps [simp del]

definition clsid_of :: "Slab \<Rightarrow> nat \<Rightarrow> fault + nat" where
  "clsid_of sl sz = (if sz = 0 then Inr 0 else clsid_scan sl sz POWER_SMALLEST)"

definition slabs_clsid :: "nat \<Rightarrow> (machine, nat) prog" where
  "slabs_clsid sz = bnd (gets slab) (\<lambda>sl.
     case clsid_of sl sz of Inl e \<Rightarrow> fail e | Inr r \<Rightarrow> ret r)"

section \<open>Pages and free lists\<close>

definition do_slabs_free :: "addr \<Rightarrow> nat \<Rightarrow> nat \<Rightarrow> (machine, unit) prog" where
  "do_slabs_free ptr sz cid = bnd (rd ptr) (\<lambda>it.
     if it_clsid it \<noteq> 0 \<or> cid < POWER_SMALLEST \<or> cid > POWER_LARGEST then ret ()
     else bnd (get_class cid) (\<lambda>p. seqs [
       upd ptr (\<lambda>it. it\<lparr>it_flag := it_flag it OR ITEM_SLABBED\<rparr>),
       upd ptr (\<lambda>it. it\<lparr>it_prev := 0\<rparr>),
       upd ptr (\<lambda>it. it\<lparr>it_next := slots p\<rparr>),
       whenP (slots p \<noteq> 0) (upd (slots p) (\<lambda>it. it\<lparr>it_prev := ptr\<rparr>)),
       upd_class cid (\<lambda>p. p\<lparr>slots := ptr\<rparr>),
       upd_class cid (\<lambda>p. p\<lparr>sl_curr := sl_curr p + 1\<rparr>),
       upd_class cid (\<lambda>p. p\<lparr>requested := requested p - of_nat sz\<rparr>)]))"

text \<open>\<open>memset(ptr, 0, len)\<close> on a page of \<open>n\<close> chunks.\<close>

fun zero_page :: "addr \<Rightarrow> nat \<Rightarrow> nat \<Rightarrow> (addr \<rightharpoonup> base_item) \<Rightarrow> (addr \<rightharpoonup> base_item)" where
  "zero_page ptr sz 0 h = h"
| "zero_page ptr sz (Suc n) h = zero_page (ptr + sz) sz n (h(ptr \<mapsto> zero_item sz))"

fun split_loop :: "addr \<Rightarrow> nat \<Rightarrow> nat \<Rightarrow> nat \<Rightarrow> (machine, unit) prog" where
  "split_loop ptr sz cid 0 = ret ()"
| "split_loop ptr sz cid (Suc n) = thn (do_slabs_free ptr 0 cid) (split_loop (ptr + sz) sz cid n)"

definition split_slab_page_into_freelist :: "addr \<Rightarrow> nat \<Rightarrow> (machine, unit) prog" where
  "split_slab_page_into_freelist ptr cid =
     bnd (get_class cid) (\<lambda>p. split_loop ptr (cls_size p) cid (perslab p))"

text \<open>
  \<open>realloc\<close> keeps the old entries; the entries it adds are not initialised (0 here) and are
  written before they are read.
\<close>

definition grow_slab_list :: "nat \<Rightarrow> (machine, nat) prog" where
  "grow_slab_list cid = bnd (get_class cid) (\<lambda>p.
     if slabs p = list_size p then
       (let new_size = (if list_size p \<noteq> 0 then list_size p * 2 else 16) in
        bnd (sys_alloc (new_size * 8)) (\<lambda>new_list.
          if new_list = 0 then ret 0
          else thn (upd_class cid (\<lambda>p. p\<lparr>list_size := new_size,
                 slab_list := slab_list p @ replicate (new_size - length (slab_list p)) 0\<rparr>))
               (ret 1)))
     else ret 1)"

definition memory_allocate :: "nat \<Rightarrow> (machine, addr) prog" where
  "memory_allocate len = sys_alloc len"

text \<open>
  The length of a page is an \<open>int\<close>: the 32-bit product of the chunk size and the number of
  chunks, read as a signed number. It goes to \<open>malloc\<close> and into the sums as a \<open>size_t\<close>, and
  a page shorter than its chunks is overrun when it is cut up.
\<close>

definition page_len :: "slabclass \<Rightarrow> int" where
  "page_len p = c_int (int (cls_size p * perslab p))"

definition do_slabs_newslab :: "nat \<Rightarrow> (machine, nat) prog" where
  "do_slabs_newslab cid = bnd (get_class cid) (\<lambda>p.
     let len = size_t (page_len p) in
     bnd (gets slab) (\<lambda>sl.
     if mem_limit sl \<noteq> 0 \<and> (mem_malloced sl + len) mod 2 ^ 64 > mem_limit sl \<and> slabs p > 0 then ret 0
     else bnd (grow_slab_list cid) (\<lambda>grown.
     if grown = 0 then ret 0
     else bnd (memory_allocate len) (\<lambda>ptr.
     if ptr = 0 then ret 0
     else if len < cls_size p * perslab p then fail BufferOverrun
     else thn (seqs [
       modify (\<lambda>s. s\<lparr>heap := zero_page ptr (cls_size p) (perslab p) (heap s)\<rparr>),
       split_slab_page_into_freelist ptr cid,
       bnd (get_class cid) (\<lambda>p.
         if slabs p < length (slab_list p)
         then upd_class cid (\<lambda>p. p\<lparr>slab_list := (slab_list p)[slabs p := ptr], slabs := slabs p + 1\<rparr>)
         else fail (IndexOutOfRange (slabs p))),
       modify (\<lambda>s. s\<lparr>slab := (slab s)\<lparr>mem_malloced :=
         (mem_malloced (slab s) + len) mod 2 ^ 64\<rparr>\<rparr>)])
     (ret 1)))))"

definition do_slabs_alloc :: "nat \<Rightarrow> nat \<Rightarrow> (machine, addr) prog" where
  "do_slabs_alloc sz cid =
     (if cid < POWER_SMALLEST \<or> cid > POWER_LARGEST then ret 0
      else bnd (get_class cid) (\<lambda>p0.
      bnd (if sl_curr p0 \<noteq> 0 then ret 1 else do_slabs_newslab cid) (\<lambda>avail.
      if avail = 0 then ret 0
      else bnd (get_class cid) (\<lambda>p.
      bnd (if sl_curr p \<noteq> 0
           then bnd (rd (slots p)) (\<lambda>it. thn (seqs [
              upd_class cid (\<lambda>p. p\<lparr>slots := it_next it\<rparr>),
              whenP (it_next it \<noteq> 0) (upd (it_next it) (\<lambda>n. n\<lparr>it_prev := 0\<rparr>)),
              upd_class cid (\<lambda>p. p\<lparr>sl_curr := sl_curr p - 1\<rparr>)])
              (ret (slots p)))
           else ret 0) (\<lambda>r.
      thn (whenP (r \<noteq> 0) (upd_class cid (\<lambda>p. p\<lparr>requested := requested p + of_nat sz\<rparr>)))
          (ret r))))))"

section \<open>Preallocation and the constructor\<close>

fun prealloc_loop :: "nat list \<Rightarrow> nat \<Rightarrow> nat \<Rightarrow> (machine, unit) prog" where
  "prealloc_loop [] prealloc maxslabs = ret ()"
| "prealloc_loop (i # is) prealloc maxslabs =
     (if prealloc + 1 > maxslabs then ret ()
      else bnd (do_slabs_newslab i) (\<lambda>ok.
        if ok = 0 then fail (ExitProcess 1) else prealloc_loop is (prealloc + 1) maxslabs))"

definition slabs_preallocate :: "nat \<Rightarrow> (machine, unit) prog" where
  "slabs_preallocate maxslabs = bnd (gets slab) (\<lambda>sl.
     prealloc_loop [POWER_SMALLEST..<power_largest sl] 0 maxslabs)"

definition slab_ctor :: "nat \<Rightarrow> nat \<Rightarrow> nat \<Rightarrow> (machine, unit) prog" where
  "slab_ctor limit fn fd = bnd (gets (\<lambda>s. make_table limit fn fd (mem_setting s))) (\<lambda>t.
     case t of
       Inl e \<Rightarrow> fail e
     | Inr sl \<Rightarrow> thn (modify (\<lambda>s. s\<lparr>slab := sl\<rparr>)) (slabs_preallocate POWER_LARGEST))"

text \<open>\<open>Slab(struct settings*)\<close>: limit 10000000, factor 1.2.\<close>

definition slab_default_ctor :: "(machine, unit) prog" where
  "slab_default_ctor = slab_ctor 10000000 6 5"

section \<open>The locked entry points\<close>

definition lock_slabs :: "(machine, unit) prog" where
  "lock_slabs = bnd (gets (\<lambda>s. slabs_lock (slab s))) (\<lambda>held.
     if held then never else modify (\<lambda>s. s\<lparr>slab := (slab s)\<lparr>slabs_lock := True\<rparr>\<rparr>))"

definition unlock_slabs :: "(machine, unit) prog" where
  "unlock_slabs = bnd (gets (\<lambda>s. slabs_lock (slab s))) (\<lambda>held.
     if held then modify (\<lambda>s. s\<lparr>slab := (slab s)\<lparr>slabs_lock := False\<rparr>\<rparr>) else fail UnlockNotHeld)"

definition slabs_alloc :: "nat \<Rightarrow> nat \<Rightarrow> (machine, addr) prog" where
  "slabs_alloc sz cid = thn lock_slabs (bnd (do_slabs_alloc sz cid) (\<lambda>r.
     thn unlock_slabs (ret r)))"

definition slabs_free :: "addr \<Rightarrow> nat \<Rightarrow> nat \<Rightarrow> (machine, unit) prog" where
  "slabs_free ptr sz cid = seqs [lock_slabs, do_slabs_free ptr sz cid, unlock_slabs]"

definition slabs_adjust_mem_requested :: "nat \<Rightarrow> nat \<Rightarrow> nat \<Rightarrow> (machine, unit) prog" where
  "slabs_adjust_mem_requested cid old ntotal = seqs [
     lock_slabs,
     upd_class cid (\<lambda>p. p\<lparr>requested := requested p - of_nat old + of_nat ntotal\<rparr>),
     unlock_slabs]"

definition item_size_ok :: "nat \<Rightarrow> int \<Rightarrow> (machine, bool) prog" where
  "item_size_ok nkey nbytes =
     bnd (slabs_clsid (size_t (int sizeof_base_item + int nkey + 1 + nbytes)))
         (\<lambda>c. ret (c \<noteq> 0))"

section \<open>The class table\<close>

text \<open>
  A well-formed table: entry 0 is unused, the classes 1 to \<open>power_largest\<close> have growing
  chunk sizes that hold at least the item header, and every page holds at least one chunk
  and has a length that an \<open>int\<close> holds.
\<close>

definition classes_ok :: "Slab \<Rightarrow> bool" where
  "classes_ok sl \<longleftrightarrow>
     length (mem_base sl) = Suc (power_largest sl) \<and>
     1 \<le> power_largest sl \<and> power_largest sl \<le> POWER_LARGEST \<and>
     (\<forall>i \<in> {1..power_largest sl}.
        sizeof_base_item \<le> cls_size (mem_base sl ! i) \<and> 0 < perslab (mem_base sl ! i) \<and>
        cls_size (mem_base sl ! i) * perslab (mem_base sl ! i) < 2 ^ 31) \<and>
     (\<forall>i \<in> {1..<power_largest sl}.
        cls_size (mem_base sl ! i) < cls_size (mem_base sl ! Suc i))"

lemma align_up_bounds: "sz \<le> align_up sz" "align_up sz \<le> sz + 7" "8 dvd align_up sz"
proof -
  have m: "sz mod 8 < 8" by simp
  show "sz \<le> align_up sz" "align_up sz \<le> sz + 7"
    using m by (auto simp: align_up_def CHUNK_ALION_BYTES_def)
  show "8 dvd align_up sz"
    unfolding align_up_def CHUNK_ALION_BYTES_def by presburger
qed

text \<open>
  The loop of the constructor. Started with class \<open>i\<close> to come and the table built so far,
  it returns the final table and \<open>power_largest\<close>.
\<close>

definition fresh_class :: "nat \<Rightarrow> slabclass \<Rightarrow> bool" where
  "fresh_class imax p \<longleftrightarrow> sizeof_base_item \<le> cls_size p \<and> 0 < perslab p \<and>
     cls_size p * perslab p \<le> imax \<and> slots p = 0 \<and> sl_curr p = 0 \<and> slabs p = 0 \<and>
     list_size p = 0 \<and> slab_list p = []"

definition table_ok :: "nat \<Rightarrow> nat \<Rightarrow> slabclass list \<Rightarrow> bool" where
  "table_ok imax k mb \<longleftrightarrow> length mb = Suc k \<and> (\<forall>i \<in> {1..k}. fresh_class imax (mb ! i)) \<and>
     (\<forall>i \<in> {1..<k}. cls_size (mb ! i) < cls_size (mb ! Suc i))"

lemma table_ok_snoc:
  assumes "table_ok imax k mb" and "fresh_class imax p"
    and "k = 0 \<or> cls_size (mb ! k) < cls_size p"
  shows "table_ok imax (Suc k) (mb @ [p])"
proof -
  have len: "length mb = Suc k" using assms(1) by (simp add: table_ok_def)
  have new: "(mb @ [p]) ! Suc k = p" using len by (simp add: nth_append)
  have old: "(mb @ [p]) ! i = mb ! i" if "i \<le> k" for i
    using len that by (simp add: nth_append)
  have "fresh_class imax ((mb @ [p]) ! i)" if "i \<in> {1..Suc k}" for i
    using that assms(1,2) by (cases "i = Suc k") (auto simp: new old table_ok_def)
  moreover have "cls_size ((mb @ [p]) ! i) < cls_size ((mb @ [p]) ! Suc i)" if "i \<in> {1..<Suc k}" for i
    using that assms(1,3) by (cases "i = k") (auto simp: new old table_ok_def)
  ultimately show ?thesis using len by (simp add: table_ok_def)
qed

lemma fresh_new_class:
  "sizeof_base_item \<le> sz \<Longrightarrow> 0 < n \<Longrightarrow> sz * n \<le> imax \<Longrightarrow> fresh_class imax (new_class sz n)"
  by (simp add: fresh_class_def new_class_def slabclass_init_def)

lemma cls_size_new_class [simp]: "cls_size (new_class sz n) = sz"
  by (simp add: new_class_def)

text \<open>The table as it would be with sizes of any width, for comparison.\<close>

function ideal_classes :: "nat \<Rightarrow> nat \<Rightarrow> nat \<Rightarrow> nat \<Rightarrow> nat \<Rightarrow> slabclass list \<Rightarrow> slabclass list \<times> nat" where
  "ideal_classes fn fd imax i sz mb =
     (if i + 1 < POWER_LARGEST \<and> sz * fn \<le> imax * fd
      then (let sz = align_up sz in
            ideal_classes fn fd imax (i + 1) (sz * fn div fd)
              (mb @ [new_class sz (imax div sz)]))
      else (mb @ [new_class imax 1], i + 1))"
  by pat_completeness auto
termination
  by (relation "measure (\<lambda>(fn, fd, imax, i, sz, mb). POWER_LARGEST - i)") auto

declare ideal_classes.simps [simp del]

definition slab_table :: "nat \<Rightarrow> nat \<Rightarrow> nat \<Rightarrow> settings \<Rightarrow> Slab" where
  "slab_table limit fn fd st =
     (let (mb, i) = ideal_classes fn fd (unat (item_size_max st)) (POWER_SMALLEST - 1)
                      (sizeof_base_item + unat (chunk_size st)) [slabclass_init]
      in \<lparr> power_largest = i, mem_limit = limit, mem_malloced = 0, mem_base = mb,
           slabs_lock = False \<rparr>)"

text \<open>
  Settings for which nothing wraps: the largest item holds a header and its size is an \<open>int\<close>,
  and the header and the chunk size add up to an \<open>unsigned int\<close>.
\<close>

definition settings_ok :: "settings \<Rightarrow> bool" where
  "settings_ok st \<longleftrightarrow> sizeof_base_item \<le> unat (item_size_max st) \<and>
     unat (item_size_max st) < 2 ^ 31 \<and> sizeof_base_item + unat (chunk_size st) < 2 ^ 32"

lemma default_settings_ok [simp]: "settings_ok default_settings"
  by (simp add: settings_ok_def default_settings_def layout)

lemma slab_classes_ideal:
  assumes "imax < 2 ^ 31" and "0 < sz"
  shows "slab_classes 6 5 imax i sz mb = Inr (ideal_classes 6 5 imax i sz mb)"
  using assms
proof (induction "6 :: nat" "5 :: nat" imax i sz mb rule: ideal_classes.induct)
  case (1 imax i sz mb)
  show ?case
  proof (cases "i + 1 < POWER_LARGEST \<and> sz * 6 \<le> imax * 5")
    case True
    define sz' where "sz' = align_up sz"
    have b: "0 < sz'" "sz' \<le> sz + 7"
      using align_up_bounds(1,2) [of sz] "1.prems"(2) by (auto simp: sz'_def)
    have le: "sz * 6 \<le> imax * 5" using True by simp
    have "sz' * 6 < 2 ^ 32 * 5" using le b(2) "1.prems"(1) by simp
    then have "sz' * 6 div 5 < 2 ^ 32" by (rule less_mult_imp_div_less)
    moreover have "sz' < 2 ^ 32" using le b(2) "1.prems"(1) by simp
    ultimately have w: "align_up sz mod 2 ^ 32 = sz'" "\<not> 2 ^ 32 \<le> sz' * 6 div 5"
      by (simp_all add: sz'_def)
    have g: "0 < sz' * 6 div 5" using b by simp
    have "slab_classes 6 5 imax (i + 1) (sz' * 6 div 5) (mb @ [new_class sz' (imax div sz')]) =
        Inr (ideal_classes 6 5 imax (i + 1) (sz' * 6 div 5) (mb @ [new_class sz' (imax div sz')]))"
      using "1.hyps" [OF True sz'_def] "1.prems"(1) g by simp
    moreover have "slab_classes 6 5 imax i sz mb =
        slab_classes 6 5 imax (i + 1) (sz' * 6 div 5) (mb @ [new_class sz' (imax div sz')])"
      by (subst slab_classes.simps) (use True b w in \<open>simp add: Let_def\<close>)
    moreover have "ideal_classes 6 5 imax i sz mb =
        ideal_classes 6 5 imax (i + 1) (sz' * 6 div 5) (mb @ [new_class sz' (imax div sz')])"
      by (subst ideal_classes.simps) (use True in \<open>simp add: Let_def sz'_def\<close>)
    ultimately show ?thesis by simp
  next
    case False
    have "slab_classes 6 5 imax i sz mb = Inr (mb @ [new_class imax 1], i + 1)"
      by (subst slab_classes.simps) (simp only: False if_False)
    moreover have "ideal_classes 6 5 imax i sz mb = (mb @ [new_class imax 1], i + 1)"
      by (subst ideal_classes.simps) (simp only: False if_False)
    ultimately show ?thesis by simp
  qed
qed

lemma make_table_ideal:
  assumes "settings_ok st"
  shows "make_table limit 6 5 st = Inr (slab_table limit 6 5 st)"
proof -
  have "unat (of_nat sizeof_base_item + chunk_size st) = sizeof_base_item + unat (chunk_size st)"
    using assms by (simp add: settings_ok_def layout unat_word_ariths)
  then show ?thesis
    using assms slab_classes_ideal [of "unat (item_size_max st)" "sizeof_base_item + unat (chunk_size st)"]
    by (simp add: make_table_def slab_table_def settings_ok_def layout split: prod.splits)
qed

text \<open>
  With other settings the table is not built, or not sound: a chunk size of \<open>2 ^ 32 - 56\<close>
  makes the first size 0, by which the page is divided; one of \<open>2 ^ 32 - 10\<close> makes the first
  class smaller than the header of an item.
\<close>

lemma chunk_size_wraps:
  "make_table limit 6 5 (default_settings\<lparr>chunk_size := 4294967240\<rparr>) = Inl DivisionByZero"
  by (simp add: make_table_def default_settings_def slab_classes.simps align_up_def layout power_defs
      CHUNK_ALION_BYTES_def Let_def)

lemma chunk_size_below_header:
  "\<exists>sl. make_table limit 6 5 (default_settings\<lparr>chunk_size := 4294967286\<rparr>) = Inr sl \<and>
     cls_size (mem_base sl ! 1) = 48"
  by (simp add: make_table_def default_settings_def slab_classes.simps align_up_def layout power_defs
      CHUNK_ALION_BYTES_def Let_def new_class_def)

lemma ideal_classes_ok:
  assumes "table_ok imax i mb" and "i < POWER_LARGEST" and "sizeof_base_item \<le> imax"
    and "sizeof_base_item \<le> sz"
    and "i = 0 \<or> cls_size (mb ! i) < sz \<and> cls_size (mb ! i) < imax"
    and "ideal_classes 6 5 imax i sz mb = (mb', k)"
  shows "table_ok imax k mb' \<and> i < k \<and> k \<le> POWER_LARGEST \<and> cls_size (mb' ! k) = imax"
  using assms
proof (induction "6 :: nat" "5 :: nat" imax i sz mb rule: ideal_classes.induct)
  case (1 imax i sz mb)
  note prems = "1.prems"
  have len: "length mb = Suc i" using prems(1) by (simp add: table_ok_def)
  show ?case
  proof (cases "i + 1 < POWER_LARGEST \<and> sz * 6 \<le> imax * 5")
    case True
    define sz' where "sz' = align_up sz"
    note b = align_up_bounds [of sz, folded sz'_def]
    have s: "sizeof_base_item \<le> sz'" "sz' < imax"
      using b True prems(3,4) by (auto simp: sizeof_base_item_def)
    have n: "0 < imax div sz'" "sz' * (imax div sz') \<le> imax"
      using s by (auto simp: div_greater_zero_iff sizeof_base_item_def)
    have t: "table_ok imax (Suc i) (mb @ [new_class sz' (imax div sz')])"
      using prems(1,5) s n b(1) by (intro table_ok_snoc fresh_new_class) auto
    have grow: "sz' < sz' * 6 div 5" using s by (auto simp: sizeof_base_item_def)
    have last: "cls_size ((mb @ [new_class sz' (imax div sz')]) ! Suc i) = sz'"
      using len by (simp add: nth_append)
    have rec: "ideal_classes 6 5 imax (i + 1) (sz' * 6 div 5) (mb @ [new_class sz' (imax div sz')]) = (mb', k)"
      using prems(6) True by (subst (asm) ideal_classes.simps) (simp add: sz'_def Let_def)
    have "table_ok imax k mb' \<and> i + 1 < k \<and> k \<le> POWER_LARGEST \<and> cls_size (mb' ! k) = imax"
      using "1.hyps" [OF True sz'_def] t True prems(3) s grow last rec by simp
    then show ?thesis by simp
  next
    case False
    then have mb': "mb' = mb @ [new_class imax 1]" and k: "k = Suc i"
      using prems(6) by (auto simp: ideal_classes.simps [of 6 5 imax i sz mb])
    have "table_ok imax (Suc i) (mb @ [new_class imax 1])"
      using prems(1,3,5) by (intro table_ok_snoc fresh_new_class) auto
    then show ?thesis using mb' k prems(2) len by (simp add: nth_append)
  qed
qed

lemma slab_table_facts:
  fixes limit :: nat and st :: settings
  assumes "settings_ok st"
  defines "sl \<equiv> slab_table limit 6 5 st"
  shows "table_ok (unat (item_size_max st)) (power_largest sl) (mem_base sl)"
    and "1 \<le> power_largest sl" and "power_largest sl \<le> POWER_LARGEST"
    and "cls_size (mem_base sl ! power_largest sl) = unat (item_size_max st)"
    and "mem_limit sl = limit" and "mem_malloced sl = 0" and "\<not> slabs_lock sl"
    and "classes_ok sl"
proof -
  let ?imax = "unat (item_size_max st)"
  obtain mb k where r: "ideal_classes 6 5 ?imax (POWER_SMALLEST - 1)
      (sizeof_base_item + unat (chunk_size st)) [slabclass_init] = (mb, k)" by fastforce
  have t0: "table_ok ?imax 0 [slabclass_init]" by (simp add: table_ok_def)
  note f = ideal_classes_ok [of ?imax 0 "[slabclass_init]" "sizeof_base_item + unat (chunk_size st)" mb k]
  have sl: "power_largest sl = k" "mem_base sl = mb" "mem_limit sl = limit" "mem_malloced sl = 0"
      "\<not> slabs_lock sl"
    using r by (auto simp: sl_def slab_table_def)
  from f t0 r assms(1) sl show t: "table_ok ?imax (power_largest sl) (mem_base sl)"
    "1 \<le> power_largest sl" "power_largest sl \<le> POWER_LARGEST"
    "cls_size (mem_base sl ! power_largest sl) = ?imax"
    "mem_limit sl = limit" "mem_malloced sl = 0" "\<not> slabs_lock sl"
    by (auto simp: power_defs settings_ok_def)
  have imax: "?imax < 2 ^ 31" using assms(1) by (simp add: settings_ok_def)
  have "cls_size (mem_base sl ! i) * perslab (mem_base sl ! i) < 2 ^ 31" if "i \<in> {1..power_largest sl}" for i
  proof -
    have "cls_size (mem_base sl ! i) * perslab (mem_base sl ! i) \<le> ?imax"
      using t(1) that by (simp add: table_ok_def fresh_class_def)
    then show ?thesis using imax by (rule order_le_less_trans)
  qed
  with t(1-3) show "classes_ok sl"
    by (simp add: table_ok_def classes_ok_def fresh_class_def)
qed

section \<open>The choice of a class\<close>

lemma interval_extend:
  assumes "P a" and "\<forall>j \<in> {Suc a..b}. P j"
  shows "\<forall>j \<in> {a..b}. P j"
proof
  fix j assume "j \<in> {a..b}"
  then show "P j" using assms by (cases "j = a") auto
qed

lemma interval_extend_less:
  assumes "P a" and "\<forall>j \<in> {Suc a..<b}. P j"
  shows "\<forall>j \<in> {a..<b}. P j"
proof
  fix j assume "j \<in> {a..<b}"
  then show "P j" using assms by (cases "j = a") auto
qed

definition scan_result :: "Slab \<Rightarrow> nat \<Rightarrow> nat \<Rightarrow> nat \<Rightarrow> bool" where
  "scan_result sl sz res r \<longleftrightarrow>
     (if r = 0 then \<forall>j \<in> {res..power_largest sl}. cls_size (mem_base sl ! j) < sz
      else res \<le> r \<and> r \<le> power_largest sl \<and> sz \<le> cls_size (mem_base sl ! r) \<and>
        (\<forall>j \<in> {res..<r}. cls_size (mem_base sl ! j) < sz))"

lemma scan_result_step:
  assumes "cls_size (mem_base sl ! res) < sz" and "scan_result sl sz (Suc res) r"
  shows "scan_result sl sz res r"
proof (cases "r = 0")
  case True
  with assms have "\<forall>j \<in> {Suc res..power_largest sl}. cls_size (mem_base sl ! j) < sz"
    by (simp add: scan_result_def)
  with assms(1) have "\<forall>j \<in> {res..power_largest sl}. cls_size (mem_base sl ! j) < sz"
    by (rule interval_extend)
  with True show ?thesis by (simp add: scan_result_def)
next
  case False
  with assms(2) have "\<forall>j \<in> {Suc res..<r}. cls_size (mem_base sl ! j) < sz"
    by (simp add: scan_result_def)
  with assms(1) have "\<forall>j \<in> {res..<r}. cls_size (mem_base sl ! j) < sz"
    by (rule interval_extend_less)
  with False assms(2) show ?thesis by (simp add: scan_result_def)
qed

lemma clsid_scan_spec:
  assumes "length (mem_base sl) = Suc (power_largest sl)" and "res \<le> power_largest sl" and "0 < res"
  shows "\<exists>r. clsid_scan sl sz res = Inr r \<and> scan_result sl sz res r"
  using assms
proof (induction sl sz res rule: clsid_scan.induct)
  case (1 sl sz res)
  show ?case
  proof (cases "cls_size (mem_base sl ! res) < sz \<and> res \<noteq> power_largest sl")
    case True
    with "1.prems" have "\<exists>r. clsid_scan sl sz (res + 1) = Inr r \<and> scan_result sl sz (res + 1) r"
      by (intro "1.IH") simp_all
    with True "1.prems" show ?thesis
      by (auto simp: clsid_scan.simps [of sl sz res] intro: scan_result_step)
  next
    case False
    then show ?thesis using "1.prems"
      by (auto simp: clsid_scan.simps [of sl sz res] scan_result_def)
  qed
qed

lemma sizes_mono:
  assumes "classes_ok sl" and "1 \<le> i" and "i \<le> j" and "j \<le> power_largest sl"
  shows "cls_size (mem_base sl ! i) \<le> cls_size (mem_base sl ! j)"
  using assms(3,4)
proof (induction j rule: dec_induct)
  case base
  then show ?case by simp
next
  case (step n)
  then have "cls_size (mem_base sl ! n) < cls_size (mem_base sl ! Suc n)"
    using assms(1,2) by (simp add: classes_ok_def)
  with step show ?case by simp
qed

lemma clsid_of_spec:
  assumes "classes_ok sl"
  shows "\<exists>r. clsid_of sl sz = Inr r \<and> r \<le> power_largest sl \<and>
     (r = 0 \<longleftrightarrow> sz = 0 \<or> cls_size (mem_base sl ! power_largest sl) < sz) \<and>
     (r \<noteq> 0 \<longrightarrow> sz \<le> cls_size (mem_base sl ! r) \<and>
        (\<forall>j \<in> {1..<r}. cls_size (mem_base sl ! j) < sz))"
proof (cases "sz = 0")
  case True
  then show ?thesis by (simp add: clsid_of_def)
next
  case False
  have pl: "1 \<le> power_largest sl" "length (mem_base sl) = Suc (power_largest sl)"
    using assms by (auto simp: classes_ok_def)
  from clsid_scan_spec [OF pl(2), of 1 sz] pl(1) obtain r where
    r: "clsid_scan sl sz 1 = Inr r" "scan_result sl sz 1 r" by auto
  have c: "clsid_of sl sz = Inr r" using r(1) False by (simp add: clsid_of_def POWER_SMALLEST_def)
  show ?thesis
  proof (cases "r = 0")
    case True
    then show ?thesis using c r(2) pl by (auto simp: scan_result_def)
  next
    case False
    then have "sz \<le> cls_size (mem_base sl ! power_largest sl)"
      using r(2) sizes_mono [OF assms, of r "power_largest sl"] by (auto simp: scan_result_def)
    then show ?thesis using c r(2) False \<open>sz \<noteq> 0\<close> by (auto simp: scan_result_def)
  qed
qed

lemma wp_slabs_clsid:
  assumes "classes_ok (slab s)"
    and "\<And>r. r \<le> power_largest (slab s) \<Longrightarrow>
       (r = 0 \<longleftrightarrow> sz = 0 \<or> cls_size (mem_base (slab s) ! power_largest (slab s)) < sz) \<Longrightarrow>
       (r \<noteq> 0 \<Longrightarrow> sz \<le> cls_size (mem_base (slab s) ! r)) \<Longrightarrow> Q r s"
  shows "wp (slabs_clsid sz) Q s"
proof -
  from clsid_of_spec [OF assms(1), of sz] obtain r where
    "clsid_of (slab s) sz = Inr r" "Q r s" using assms(2) by auto
  then show ?thesis by (simp add: slabs_clsid_def wp_rules)
qed

section \<open>The invariant of the allocator\<close>

text \<open>
  The typed heap is sound: null is no cell, cells lie below the break, and the bytes of
  two cells (header and \<open>data\<close>) never overlap.
\<close>

definition cell_end :: "addr \<Rightarrow> base_item \<Rightarrow> addr" where
  "cell_end a c = a + offset_data + length (it_data c)"

definition heap_ok :: "machine \<Rightarrow> bool" where
  "heap_ok s \<longleftrightarrow> heap s 0 = None \<and> 0 < brk s \<and>
     (\<forall>a c. heap s a = Some c \<longrightarrow> cell_end a c \<le> brk s) \<and>
     (\<forall>a b c d. a < b \<longrightarrow> heap s a = Some c \<longrightarrow> heap s b = Some d \<longrightarrow> cell_end a c \<le> b)"

text \<open>
  The free lists: \<open>fl cid\<close> is the list of the free chunks of a class. Every free chunk has
  the capacity of its class, carries \<open>ITEM_SLABBED\<close> and the class number 0, the first chunk
  of a list has no predecessor, and no chunk is on two lists.
\<close>

definition free_cell :: "slabclass \<Rightarrow> base_item \<Rightarrow> bool" where
  "free_cell p c \<longleftrightarrow> it_clsid c = 0 \<and> it_flag c AND ITEM_SLABBED \<noteq> 0 \<and>
     length (it_data c) = cls_size p - offset_data"

definition class_free :: "(addr \<rightharpoonup> base_item) \<Rightarrow> slabclass \<Rightarrow> addr list \<Rightarrow> bool" where
  "class_free h p xs \<longleftrightarrow> chain h it_next (slots p) xs \<and> sl_curr p = length xs \<and>
     (\<forall>x \<in> set xs. \<exists>c. h x = Some c \<and> free_cell p c \<and> (x = slots p \<longrightarrow> it_prev c = 0))"

definition frees :: "(nat \<Rightarrow> addr list) \<Rightarrow> Slab \<Rightarrow> addr set" where
  "frees fl sl = (\<Union>i < length (mem_base sl). set (fl i))"

definition free_ok :: "(nat \<Rightarrow> addr list) \<Rightarrow> machine \<Rightarrow> bool" where
  "free_ok fl s \<longleftrightarrow>
     (\<forall>i < length (mem_base (slab s)). class_free (heap s) (mem_base (slab s) ! i) (fl i)) \<and>
     (\<forall>i < length (mem_base (slab s)). \<forall>j < length (mem_base (slab s)).
        i \<noteq> j \<longrightarrow> set (fl i) \<inter> set (fl j) = {})"

text \<open>The page tables have room for the pages they list.\<close>

definition pages_ok :: "Slab \<Rightarrow> bool" where
  "pages_ok sl \<longleftrightarrow> (\<forall>i < length (mem_base sl).
     slabs (mem_base sl ! i) \<le> list_size (mem_base sl ! i) \<and>
     length (slab_list (mem_base sl ! i)) = list_size (mem_base sl ! i))"

definition slab_inv :: "(nat \<Rightarrow> addr list) \<Rightarrow> machine \<Rightarrow> bool" where
  "slab_inv fl s \<longleftrightarrow> classes_ok (slab s) \<and> heap_ok s \<and> free_ok fl s \<and> pages_ok (slab s)"

text \<open>
  What the rest of the program may do to the heap: write the cells that are not free,
  without changing the extent of a cell, and clear the \<open>prev\<close> field of a free one (which a
  stale pointer of the item queues can do).
\<close>

definition keeps :: "addr set \<Rightarrow> (addr \<rightharpoonup> base_item) \<Rightarrow> (addr \<rightharpoonup> base_item) \<Rightarrow> bool" where
  "keeps F h h' \<longleftrightarrow> dom h' = dom h \<and>
     (\<forall>a c c'. h a = Some c \<longrightarrow> h' a = Some c' \<longrightarrow>
        length (it_data c') = length (it_data c) \<and>
        (a \<in> F \<longrightarrow> c' = c \<or> c' = c\<lparr>it_prev := 0\<rparr>))"

lemma keeps_refl [simp]: "keeps F h h"
  by (simp add: keeps_def)

lemma keeps_trans: "keeps F h h' \<Longrightarrow> keeps F h' h'' \<Longrightarrow> keeps F h h''"
proof -
  assume 1: "keeps F h h'" and 2: "keeps F h' h''"
  have "length (it_data c'') = length (it_data c) \<and> (a \<in> F \<longrightarrow> c'' = c \<or> c'' = c\<lparr>it_prev := 0\<rparr>)"
    if c: "h a = Some c" "h'' a = Some c''" for a c c''
  proof -
    obtain c' where "h' a = Some c'" using 1 c(1) unfolding keeps_def by (metis domIff option.exhaust)
    with 1 2 c have "length (it_data c') = length (it_data c)" "length (it_data c'') = length (it_data c')"
      "a \<in> F \<longrightarrow> c' = c \<or> c' = c\<lparr>it_prev := 0\<rparr>" "a \<in> F \<longrightarrow> c'' = c' \<or> c'' = c'\<lparr>it_prev := 0\<rparr>"
      unfolding keeps_def by blast+
    then show ?thesis by auto
  qed
  with 1 2 show ?thesis unfolding keeps_def by blast
qed

lemma keeps_upd:
  "h a = Some c \<Longrightarrow> a \<notin> F \<or> c' = c\<lparr>it_prev := 0\<rparr> \<Longrightarrow> length (it_data c') = length (it_data c) \<Longrightarrow>
   keeps F h (h(a \<mapsto> c'))"
  by (auto simp: keeps_def dom_def)

lemma keeps_fetch: "keeps F h h' \<Longrightarrow> h a = Some c \<Longrightarrow>
    \<exists>c'. h' a = Some c' \<and> length (it_data c') = length (it_data c) \<and>
      (a \<in> F \<longrightarrow> c' = c \<or> c' = c\<lparr>it_prev := 0\<rparr>)"
  unfolding keeps_def by (metis domIff option.exhaust)

lemma keeps_mono: "keeps F h h' \<Longrightarrow> G \<subseteq> F \<Longrightarrow> keeps G h h'"
  unfolding keeps_def by blast

lemma heap_ok_keeps:
  assumes "heap_ok s" and "keeps F (heap s) (heap s')" and "brk s' = brk s"
  shows "heap_ok s'"
proof -
  have ext: "\<exists>c. heap s a = Some c \<and> cell_end a c = cell_end a c'" if "heap s' a = Some c'" for a c'
    using that assms(2) unfolding keeps_def cell_end_def by (metis domIff option.exhaust)
  have "heap s' 0 = None"
    using assms(1,2) unfolding keeps_def heap_ok_def by (metis domIff)
  then show ?thesis
    using assms(1,3) ext unfolding heap_ok_def by metis
qed

lemma class_free_keeps:
  assumes "class_free h p xs" and "keeps F h h'" and "set xs \<subseteq> F"
  shows "class_free h' p xs"
proof -
  have same: "\<exists>c'. h' x = Some c' \<and> (c' = c \<or> c' = c\<lparr>it_prev := 0\<rparr>)"
    if "x \<in> set xs" "h x = Some c" for x c
    using that keeps_fetch [OF assms(2) that(2)] assms(3) by blast
  have "chain h' it_next (slots p) xs"
  proof (rule chain_cong [of h])
    show "chain h it_next (slots p) xs" using assms(1) by (simp add: class_free_def)
    show "\<exists>c'. h' x = Some c' \<and> it_next c' = it_next c" if "x \<in> set xs" "h x = Some c" for x c
      using same [OF that] by auto
  qed
  moreover have "\<exists>c. h' x = Some c \<and> free_cell p c \<and> (x = slots p \<longrightarrow> it_prev c = 0)"
    if xs: "x \<in> set xs" for x
  proof -
    have "\<forall>y \<in> set xs. \<exists>c. h y = Some c \<and> free_cell p c \<and> (y = slots p \<longrightarrow> it_prev c = 0)"
      using assms(1) by (simp add: class_free_def)
    from bspec [OF this xs] obtain c where
      "h x = Some c \<and> free_cell p c \<and> (x = slots p \<longrightarrow> it_prev c = 0)" ..
    then have c: "h x = Some c" "free_cell p c" "x = slots p \<longrightarrow> it_prev c = 0" by simp_all
    obtain c' where c': "h' x = Some c'" "c' = c \<or> c' = c\<lparr>it_prev := 0\<rparr>"
      using same [OF xs c(1)] by blast
    from c'(2) have "free_cell p c' \<and> (x = slots p \<longrightarrow> it_prev c' = 0)"
      by (rule disjE) (use c(2,3) in \<open>simp_all add: free_cell_def\<close>)
    with c'(1) show ?thesis by blast
  qed
  ultimately show ?thesis using assms(1) by (simp add: class_free_def)
qed

lemma frees_I: "i < length (mem_base sl) \<Longrightarrow> x \<in> set (fl i) \<Longrightarrow> x \<in> frees fl sl"
  by (auto simp: frees_def)

lemma slab_inv_keeps:
  assumes "slab_inv fl s" and "keeps (frees fl (slab s)) (heap s) (heap s')"
    and "brk s' = brk s" and "mem_base (slab s') = mem_base (slab s)"
    and "power_largest (slab s') = power_largest (slab s)"
  shows "slab_inv fl s'"
proof -
  have "free_ok fl s'"
    using assms(1,2,4) unfolding slab_inv_def free_ok_def
    by (metis class_free_keeps frees_I subsetI)
  moreover have "heap_ok s'"
    using assms(1,2,3) unfolding slab_inv_def by (blast intro: heap_ok_keeps)
  moreover have "classes_ok (slab s')" "pages_ok (slab s')"
    using assms(1,4,5) by (simp_all add: slab_inv_def classes_ok_def pages_ok_def)
  ultimately show ?thesis by (simp add: slab_inv_def)
qed

lemma free_in_heap:
  "slab_inv fl s \<Longrightarrow> x \<in> frees fl (slab s) \<Longrightarrow> \<exists>c. heap s x = Some c \<and> it_flag c AND ITEM_SLABBED \<noteq> 0"
  unfolding slab_inv_def free_ok_def class_free_def frees_def free_cell_def by blast

lemma inv_heap_null: "slab_inv fl s \<Longrightarrow> heap s 0 = None"
  by (simp add: slab_inv_def heap_ok_def)

lemma inv_heap_nonnull: "slab_inv fl s \<Longrightarrow> heap s x = Some c \<Longrightarrow> x \<noteq> 0"
  by (metis inv_heap_null option.distinct(1))

section \<open>Freeing a chunk\<close>

lemma set_class_compose [simp]:
  "cid < length (mem_base (slab s)) \<Longrightarrow>
   set_class cid f (set_class cid g s) = set_class cid (\<lambda>p. f (g p)) s"
  by (simp add: set_class_def)

lemma set_class_heap [simp]: "set_class cid f (s\<lparr>heap := h\<rparr>) = (set_class cid f s)\<lparr>heap := h\<rparr>"
  by (simp add: set_class_def)

text \<open>The effect of \<open>do_slabs_free\<close> on the heap: the chunk becomes the head before \<open>q\<close>.\<close>

definition push_heap :: "(addr \<rightharpoonup> base_item) \<Rightarrow> addr \<Rightarrow> addr \<Rightarrow> (addr \<rightharpoonup> base_item)" where
  "push_heap h ptr q =
     (let h1 = h(ptr := map_option (\<lambda>c. c\<lparr>it_flag := it_flag c OR ITEM_SLABBED, it_prev := 0,
                                             it_next := q\<rparr>) (h ptr))
      in if q = 0 then h1 else h1(q := map_option (\<lambda>d. d\<lparr>it_prev := ptr\<rparr>) (h1 q)))"

lemma wp_do_slabs_free:
  assumes "heap s ptr = Some c" and "ptr \<noteq> 0" and "it_clsid c = 0"
    and "1 \<le> cid" and "cid \<le> POWER_LARGEST" and "cid < length (mem_base (slab s))"
    and "q = slots (mem_base (slab s) ! cid)" and "q = 0 \<or> (\<exists>d. heap s q = Some d)"
  shows "do_slabs_free ptr sz cid s = Some (Inr ((),
     (set_class cid (\<lambda>p. p\<lparr>slots := ptr, sl_curr := sl_curr p + 1,
                          requested := requested p - of_nat sz\<rparr>) s)
       \<lparr>heap := push_heap (heap s) ptr q\<rparr>))"
proof -
  have "wp (do_slabs_free ptr sz cid) (\<lambda>_ s'. s' =
     (set_class cid (\<lambda>p. p\<lparr>slots := ptr, sl_curr := sl_curr p + 1,
                          requested := requested p - of_nat sz\<rparr>) s)
       \<lparr>heap := push_heap (heap s) ptr q\<rparr>) s"
    using assms
    by (auto simp: do_slabs_free_def wp_rules power_defs push_heap_def Let_def fun_upd_twist)
  then show ?thesis by (auto simp: wp_iff)
qed

text \<open>A free chunk's bits.\<close>

lemma slabbed_or [simp]: "(f OR ITEM_SLABBED) AND ITEM_SLABBED \<noteq> (0 :: u8)"
proof -
  have "(f OR 4) AND 4 = (4 :: u8)" by (rule bit_eqI) (auto simp: bit_simps)
  then show ?thesis by simp
qed

lemma push_heap_cases:
  assumes "h ptr = Some c" and "ptr \<noteq> q"
  shows "push_heap h ptr q ptr = Some (c\<lparr>it_flag := it_flag c OR ITEM_SLABBED, it_prev := 0, it_next := q\<rparr>)"
    and "q \<noteq> 0 \<Longrightarrow> push_heap h ptr q q = map_option (\<lambda>d. d\<lparr>it_prev := ptr\<rparr>) (h q)"
    and "x \<noteq> ptr \<Longrightarrow> q = 0 \<or> x \<noteq> q \<Longrightarrow> push_heap h ptr q x = h x"
  using assms by (auto simp: push_heap_def Let_def)

lemma class_free_push:
  assumes cf: "class_free h p xs" and ptr: "h ptr = Some c" "ptr \<notin> set xs" "ptr \<noteq> 0"
    and cell: "it_clsid c = 0" "length (it_data c) = cls_size p - offset_data"
  shows "class_free (push_heap h ptr (slots p)) (p\<lparr>slots := ptr, sl_curr := sl_curr p + 1, requested := r\<rparr>)
           (ptr # xs)"
proof -
  let ?q = "slots p" and ?h = "push_heap h ptr (slots p)"
  have q: "ptr \<noteq> ?q" using cf ptr(2,3) chain_head [of h it_next ?q xs] by (auto simp: class_free_def)
  note pc = push_heap_cases [of h ptr c "slots p", OF ptr(1) q]
  have keep: "\<exists>c'. ?h x = Some c' \<and> it_next c' = it_next d \<and> it_clsid c' = it_clsid d \<and>
      it_flag c' = it_flag d \<and> it_data c' = it_data d" if "x \<in> set xs" "h x = Some d" for x d
    using that ptr(2) pc(2) pc(3) [of x] by (cases "?q \<noteq> 0 \<and> x = ?q") auto
  have "chain ?h it_next ?q xs"
  proof (rule chain_cong [of h])
    show "chain h it_next ?q xs" using cf by (simp add: class_free_def)
    show "\<exists>c'. ?h x = Some c' \<and> it_next c' = it_next d" if "x \<in> set xs" "h x = Some d" for x d
      using keep [OF that] by blast
  qed
  moreover have "\<exists>d. ?h x = Some d \<and> free_cell p d \<and> (x = ptr \<longrightarrow> it_prev d = 0)"
    if "x \<in> set xs" for x
    using that cf keep ptr(2) unfolding class_free_def free_cell_def by metis
  ultimately show ?thesis
    using cf ptr(3) pc(1) cell by (auto simp: class_free_def free_cell_def)
qed

lemma class_free_push_other:
  assumes "class_free h p ys" and "h ptr = Some c" and "ptr \<notin> set ys" and "q \<notin> set ys" and "ptr \<noteq> q"
  shows "class_free (push_heap h ptr q) p ys"
proof -
  have same: "push_heap h ptr q x = h x" if "x \<in> set ys" for x
    using that assms(3,4) push_heap_cases(3) [of h ptr c q x, OF assms(2,5)] by auto
  have "chain (push_heap h ptr q) it_next (slots p) ys"
    using assms(1) same by - (rule chain_same [of h], simp_all add: class_free_def)
  with assms(1) same show ?thesis by (simp add: class_free_def)
qed

lemma class_free_requested [simp]: "class_free h (p\<lparr>requested := r\<rparr>) xs = class_free h p xs"
  by (simp add: class_free_def free_cell_def)

lemma keeps_push_heap:
  assumes "h ptr = Some c" and "ptr \<noteq> q"
  shows "keeps {} h (push_heap h ptr q)"
  using assms by (auto simp: keeps_def push_heap_def Let_def dom_def split: if_splits)

text \<open>Freeing a chunk that is on no list puts it in front of the list of its class.\<close>

lemma slab_inv_push:
  assumes inv: "slab_inv fl s" and ptr: "heap s ptr = Some c" "ptr \<notin> frees fl (slab s)"
    and cell: "it_clsid c = 0" "length (it_data c) = cls_size (mem_base (slab s) ! cid) - offset_data"
    and cid: "1 \<le> cid" "cid \<le> power_largest (slab s)"
  shows "\<exists>s'. do_slabs_free ptr sz cid s = Some (Inr ((), s')) \<and>
     slab_inv (fl(cid := ptr # fl cid)) s' \<and>
     s' = (set_class cid (\<lambda>p. p\<lparr>slots := ptr, sl_curr := sl_curr p + 1,
                          requested := requested p - of_nat sz\<rparr>) s)
       \<lparr>heap := push_heap (heap s) ptr (slots (mem_base (slab s) ! cid))\<rparr>"
proof -
  let ?q = "slots (mem_base (slab s) ! cid)"
  let ?s = "(set_class cid (\<lambda>p. p\<lparr>slots := ptr, sl_curr := sl_curr p + 1,
               requested := requested p - of_nat sz\<rparr>) s)\<lparr>heap := push_heap (heap s) ptr ?q\<rparr>"
  have len: "length (mem_base (slab s)) = Suc (power_largest (slab s))"
    and pl: "power_largest (slab s) \<le> POWER_LARGEST"
    using inv by (auto simp: slab_inv_def classes_ok_def)
  have cl: "cid < length (mem_base (slab s))" using cid len by simp
  have cf: "class_free (heap s) (mem_base (slab s) ! cid) (fl cid)"
    using inv cl by (simp add: slab_inv_def free_ok_def)
  have ptr0: "ptr \<noteq> 0" using inv_heap_nonnull [OF inv ptr(1)] .
  have qin: "?q \<noteq> 0 \<Longrightarrow> ?q \<in> set (fl cid)"
    using cf chain_head by (auto simp: class_free_def)
  have nin: "ptr \<notin> set (fl i)" if "i < length (mem_base (slab s))" for i
    using ptr(2) that by (auto simp: frees_def)
  have pq: "ptr \<noteq> ?q" using qin nin [OF cl] ptr0 by auto
  have qheap: "?q = 0 \<or> (\<exists>d. heap s ?q = Some d)"
    using qin cf by (auto simp: class_free_def)
  have run: "do_slabs_free ptr sz cid s = Some (Inr ((), ?s))"
    using cid pl by (intro wp_do_slabs_free [OF ptr(1) ptr0 cell(1) cid(1) _ cl _ qheap]) simp_all
  have "free_ok (fl(cid := ptr # fl cid)) ?s"
    unfolding free_ok_def
  proof (intro conjI allI impI)
    fix i assume "i < length (mem_base (slab ?s))"
    then have i: "i < length (mem_base (slab s))" by simp
    show "class_free (heap ?s) (mem_base (slab ?s) ! i) ((fl(cid := ptr # fl cid)) i)"
    proof (cases "i = cid")
      case True
      with i class_free_push [OF cf ptr(1) nin [OF cl] ptr0 cell] show ?thesis
        by (simp add: set_class_nth)
    next
      case False
      have cfi: "class_free (heap s) (mem_base (slab s) ! i) (fl i)"
        using inv i by (simp add: slab_inv_def free_ok_def)
      have "?q \<notin> set (fl i)"
      proof (cases "?q = 0")
        case True
        then show ?thesis using cfi chain_dom unfolding class_free_def by metis
      next
        case False
        with qin \<open>i \<noteq> cid\<close> i cl inv show ?thesis
          unfolding slab_inv_def free_ok_def by (metis disjoint_iff)
      qed
      with class_free_push_other [OF cfi ptr(1) nin [OF i] _ pq] False i show ?thesis
        by (simp add: set_class_nth)
    qed
  next
    fix i j assume "i < length (mem_base (slab ?s))" "j < length (mem_base (slab ?s))" "i \<noteq> j"
    then show "set ((fl(cid := ptr # fl cid)) i) \<inter> set ((fl(cid := ptr # fl cid)) j) = {}"
      using inv nin [of i] nin [of j] by (simp add: slab_inv_def free_ok_def)
  qed
  moreover have "heap_ok ?s"
    using inv keeps_push_heap [of "heap s" ptr c ?q, OF ptr(1) pq]
    by - (rule heap_ok_keeps [of s "{}"], simp_all add: slab_inv_def)
  moreover have "classes_ok (slab ?s)" "pages_ok (slab ?s)"
    using inv by (auto simp: slab_inv_def classes_ok_def pages_ok_def set_class_nth)
  ultimately have "slab_inv (fl(cid := ptr # fl cid)) ?s" by (simp add: slab_inv_def)
  with run show ?thesis by blast
qed

section \<open>Frames\<close>

text \<open>
  What the operations of the allocator leave alone: everything but the heap, the system
  memory and the slab; of the slab, the sizes of the classes, the limit and the lock.
\<close>

definition same_classes :: "Slab \<Rightarrow> Slab \<Rightarrow> bool" where
  "same_classes sl sl' \<longleftrightarrow> power_largest sl' = power_largest sl \<and> mem_limit sl' = mem_limit sl \<and>
     slabs_lock sl' = slabs_lock sl \<and> length (mem_base sl') = length (mem_base sl) \<and>
     (\<forall>i < length (mem_base sl). cls_size (mem_base sl' ! i) = cls_size (mem_base sl ! i) \<and>
        perslab (mem_base sl' ! i) = perslab (mem_base sl ! i))"

definition slab_frame :: "machine \<Rightarrow> machine \<Rightarrow> bool" where
  "slab_frame s s' \<longleftrightarrow> same_classes (slab s) (slab s') \<and>
     hashtable s' = hashtable s \<and> lru_list s' = lru_list s \<and> cache_lock s' = cache_lock s \<and>
     hashitems s' = hashitems s \<and> clock s' = clock s \<and> clock_reads s' = clock_reads s \<and>
     last_cas_id s' = last_cas_id s \<and> mem_setting s' = mem_setting s \<and> alloc_ok s' = alloc_ok s"

lemma same_classes_refl [simp]: "same_classes sl sl"
  by (simp add: same_classes_def)

lemma same_classes_trans: "same_classes a b \<Longrightarrow> same_classes b c \<Longrightarrow> same_classes a c"
  by (simp add: same_classes_def)

text \<open>The choice of a class depends on nothing else.\<close>

lemma clsid_scan_same: "same_classes sl sl' \<Longrightarrow> clsid_scan sl' sz r = clsid_scan sl sz r"
proof (induction sl sz r rule: clsid_scan.induct)
  case (1 sl sz r)
  note c = 1(2) [unfolded same_classes_def]
  show ?case
    using 1(1) [OF _ _ _ 1(2)] c by (subst (1 2) clsid_scan.simps) auto
qed

lemma clsid_of_same: "same_classes sl sl' \<Longrightarrow> clsid_of sl' sz = clsid_of sl sz"
  by (simp add: clsid_of_def clsid_scan_same)

lemma slab_frame_refl [simp]: "slab_frame s s"
  by (simp add: slab_frame_def)

lemma slab_frame_trans: "slab_frame a b \<Longrightarrow> slab_frame b c \<Longrightarrow> slab_frame a c"
  unfolding slab_frame_def by (auto intro: same_classes_trans)

lemma slab_frame_fields:
  assumes "slab_frame s s'"
  shows "hashtable s' = hashtable s" "lru_list s' = lru_list s" "cache_lock s' = cache_lock s"
    "hashitems s' = hashitems s" "clock s' = clock s" "clock_reads s' = clock_reads s"
    "last_cas_id s' = last_cas_id s" "mem_setting s' = mem_setting s" "alloc_ok s' = alloc_ok s"
    "slabs_lock (slab s') = slabs_lock (slab s)" "mem_limit (slab s') = mem_limit (slab s)"
    "power_largest (slab s') = power_largest (slab s)"
    "length (mem_base (slab s')) = length (mem_base (slab s))"
  using assms unfolding slab_frame_def same_classes_def by blast+

lemma slab_frame_set_class:
  "(\<And>p. cls_size (f p) = cls_size p) \<Longrightarrow> (\<And>p. perslab (f p) = perslab p) \<Longrightarrow>
   slab_frame s (set_class cid f s)"
  by (simp add: slab_frame_def same_classes_def set_class_nth)

lemma slab_frame_heap [simp]: "slab_frame s (s'\<lparr>heap := h\<rparr>) = slab_frame s s'"
  by (simp add: slab_frame_def)

text \<open>The cells in use are not written.\<close>

definition untouched :: "addr set \<Rightarrow> (addr \<rightharpoonup> base_item) \<Rightarrow> (addr \<rightharpoonup> base_item) \<Rightarrow> bool" where
  "untouched F h h' \<longleftrightarrow> (\<forall>a c. h a = Some c \<longrightarrow> a \<notin> F \<longrightarrow> h' a = Some c)"

lemma untouched_refl [simp]: "untouched F h h"
  by (simp add: untouched_def)

section \<open>Taking a chunk off a free list\<close>

definition pop_heap :: "(addr \<rightharpoonup> base_item) \<Rightarrow> addr \<Rightarrow> (addr \<rightharpoonup> base_item)" where
  "pop_heap h q = (if q = 0 then h else h(q := map_option (\<lambda>d. d\<lparr>it_prev := 0\<rparr>) (h q)))"

lemma class_free_pop:
  assumes "class_free h p (x # xs)" and "h x = Some c"
  shows "class_free (pop_heap h (it_next c)) (p\<lparr>slots := it_next c, sl_curr := sl_curr p - 1, requested := r\<rparr>) xs"
    and "it_next c \<noteq> 0 \<Longrightarrow> it_next c \<in> set xs" and "it_prev c = 0"
proof -
  let ?q = "it_next c" and ?h = "pop_heap h (it_next c)"
  have c: "chain h it_next ?q xs" "\<forall>y \<in> set xs. \<exists>d. h y = Some d \<and> free_cell p d" "sl_curr p = Suc (length xs)"
    using assms by (auto simp: class_free_def)
  show "it_prev c = 0" using assms by (auto simp: class_free_def)
  from c show "?q \<noteq> 0 \<Longrightarrow> ?q \<in> set xs" using chain_head by metis
  have keep: "\<exists>d'. ?h y = Some d' \<and> it_next d' = it_next d \<and> free_cell p d' = free_cell p d \<and>
      (y = ?q \<longrightarrow> ?q \<noteq> 0 \<longrightarrow> it_prev d' = 0)" if "h y = Some d" for y d
    using that by (auto simp: pop_heap_def free_cell_def)
  have "chain ?h it_next ?q xs"
    by (rule chain_cong [OF c(1)]) (use keep in blast)
  moreover have "\<exists>d. ?h y = Some d \<and> free_cell p d \<and> (y = ?q \<longrightarrow> it_prev d = 0)"
    if "y \<in> set xs" for y
    using that c(2) keep chain_dom [OF c(1) that] by metis
  ultimately show "class_free ?h (p\<lparr>slots := ?q, sl_curr := sl_curr p - 1, requested := r\<rparr>) xs"
    using c(3) by (simp add: class_free_def free_cell_def)
qed

lemma keeps_pop_heap: "keeps {} h (pop_heap h q)"
  by (auto simp: keeps_def pop_heap_def dom_def)

lemma do_slabs_alloc_pop:
  assumes cf: "class_free (heap s) (mem_base (slab s) ! cid) (x # xs)" and hx: "heap s x = Some c"
    and cid: "1 \<le> cid" "cid \<le> POWER_LARGEST" "cid < length (mem_base (slab s))"
  shows "do_slabs_alloc sz cid s = Some (Inr (x,
     (set_class cid (\<lambda>p. p\<lparr>slots := it_next c, sl_curr := sl_curr p - 1,
                          requested := requested p + of_nat sz\<rparr>) s)
       \<lparr>heap := pop_heap (heap s) (it_next c)\<rparr>))"
proof -
  have x: "slots (mem_base (slab s) ! cid) = x" "x \<noteq> 0" "sl_curr (mem_base (slab s) ! cid) \<noteq> 0"
    using cf by (auto simp: class_free_def)
  have q: "it_next c \<noteq> 0 \<Longrightarrow> \<exists>d. heap s (it_next c) = Some d"
    using class_free_pop(2) [OF cf hx] cf by (auto simp: class_free_def)
  have "wp (do_slabs_alloc sz cid) (\<lambda>r s'. r = x \<and> s' =
     (set_class cid (\<lambda>p. p\<lparr>slots := it_next c, sl_curr := sl_curr p - 1,
                          requested := requested p + of_nat sz\<rparr>) s)
       \<lparr>heap := pop_heap (heap s) (it_next c)\<rparr>) s"
    using x q hx cid
    by (cases "it_next c = 0") (auto simp: do_slabs_alloc_def wp_rules power_defs pop_heap_def)
  then show ?thesis by (auto simp: wp_iff)
qed

lemma slab_inv_pop:
  assumes inv: "slab_inv fl s" and cid: "1 \<le> cid" "cid \<le> power_largest (slab s)"
    and fl: "fl cid = x # xs"
  shows "\<exists>c s'. heap s x = Some c \<and> free_cell (mem_base (slab s) ! cid) c \<and>
     do_slabs_alloc sz cid s = Some (Inr (x, s')) \<and> slab_inv (fl(cid := xs)) s' \<and>
     s' = (set_class cid (\<lambda>p. p\<lparr>slots := it_next c, sl_curr := sl_curr p - 1,
                          requested := requested p + of_nat sz\<rparr>) s)
       \<lparr>heap := pop_heap (heap s) (it_next c)\<rparr> \<and>
     (it_next c \<noteq> 0 \<longrightarrow> it_next c \<in> set xs) \<and> it_prev c = 0"
proof -
  have len: "length (mem_base (slab s)) = Suc (power_largest (slab s))"
    and pl: "power_largest (slab s) \<le> POWER_LARGEST"
    using inv by (auto simp: slab_inv_def classes_ok_def)
  have cl: "cid < length (mem_base (slab s))" using cid len by simp
  have cf: "class_free (heap s) (mem_base (slab s) ! cid) (x # xs)"
    using inv cl fl by (auto simp: slab_inv_def free_ok_def)
  obtain c where hx: "heap s x = Some c" "free_cell (mem_base (slab s) ! cid) c"
    using cf by (auto simp: class_free_def)
  let ?s = "(set_class cid (\<lambda>p. p\<lparr>slots := it_next c, sl_curr := sl_curr p - 1,
                requested := requested p + of_nat sz\<rparr>) s)\<lparr>heap := pop_heap (heap s) (it_next c)\<rparr>"
  have run: "do_slabs_alloc sz cid s = Some (Inr (x, ?s))"
    using cid pl by (intro do_slabs_alloc_pop [OF cf hx(1) cid(1) _ cl]) simp
  have qin: "it_next c \<noteq> 0 \<Longrightarrow> it_next c \<in> set xs" by (rule class_free_pop(2) [OF cf hx(1)])
  have disj: "set (fl i) \<inter> set (fl j) = {}"
    if "i < length (mem_base (slab s))" "j < length (mem_base (slab s))" "i \<noteq> j" for i j
    using that inv by (simp add: slab_inv_def free_ok_def)
  have "free_ok (fl(cid := xs)) ?s"
    unfolding free_ok_def
  proof (intro conjI allI impI)
    fix i assume "i < length (mem_base (slab ?s))"
    then have i: "i < length (mem_base (slab s))" by simp
    show "class_free (heap ?s) (mem_base (slab ?s) ! i) ((fl(cid := xs)) i)"
    proof (cases "i = cid")
      case True
      with i class_free_pop(1) [OF cf hx(1)] show ?thesis by (simp add: set_class_nth)
    next
      case False
      have cfi: "class_free (heap s) (mem_base (slab s) ! i) (fl i)"
        using inv i by (simp add: slab_inv_def free_ok_def)
      have "pop_heap (heap s) (it_next c) y = heap s y" if "y \<in> set (fl i)" for y
        using that disj [OF i cl False] qin fl by (auto simp: pop_heap_def)
      then have "class_free (pop_heap (heap s) (it_next c)) (mem_base (slab s) ! i) (fl i)"
        using cfi chain_same [of "heap s" it_next _ "fl i" "pop_heap (heap s) (it_next c)"]
        by (simp add: class_free_def)
      with False i show ?thesis by (simp add: set_class_nth)
    qed
  next
    fix i j assume "i < length (mem_base (slab ?s))" "j < length (mem_base (slab ?s))" "i \<noteq> j"
    then show "set ((fl(cid := xs)) i) \<inter> set ((fl(cid := xs)) j) = {}"
      using disj [of i j] fl by auto
  qed
  moreover have "heap_ok ?s"
    using inv keeps_pop_heap [of "heap s" "it_next c"]
    by - (rule heap_ok_keeps [of s "{}"], simp_all add: slab_inv_def)
  moreover have "classes_ok (slab ?s)" "pages_ok (slab ?s)"
    using inv by (auto simp: slab_inv_def classes_ok_def pages_ok_def set_class_nth)
  ultimately have "slab_inv (fl(cid := xs)) ?s" by (simp add: slab_inv_def)
  with run hx qin class_free_pop(3) [OF cf hx(1)] show ?thesis by blast
qed

section \<open>A new page\<close>

text \<open>The chunks of a page, in the order in which the page is cut.\<close>

definition page_chunks :: "addr \<Rightarrow> nat \<Rightarrow> nat \<Rightarrow> addr list" where
  "page_chunks ptr sz n = map (\<lambda>k. ptr + k * sz) [0..<n]"

lemma page_chunks_Suc: "page_chunks ptr sz (Suc n) = ptr # page_chunks (ptr + sz) sz n"
proof -
  have "[0..<Suc n] = 0 # map Suc [0..<n]" by (simp add: upt_conv_Cons map_Suc_upt del: upt_Suc)
  then show ?thesis by (simp add: page_chunks_def add.assoc del: upt_Suc)
qed

lemma page_chunks_0 [simp]: "page_chunks ptr sz 0 = []"
  by (simp add: page_chunks_def)

lemma length_page_chunks [simp]: "length (page_chunks ptr sz n) = n"
  by (simp add: page_chunks_def)

lemma page_chunks_ge: "x \<in> set (page_chunks ptr sz n) \<Longrightarrow> ptr \<le> x"
  by (auto simp: page_chunks_def)

lemma page_chunks_end: "x \<in> set (page_chunks ptr sz n) \<Longrightarrow> x + sz \<le> ptr + sz * n"
proof -
  assume "x \<in> set (page_chunks ptr sz n)"
  then obtain k where k: "k < n" "x = ptr + k * sz" by (auto simp: page_chunks_def)
  then have "Suc k * sz \<le> n * sz" by (intro mult_le_mono1) simp
  with k show ?thesis by (simp add: mult.commute)
qed

lemma zero_page_eq:
  "0 < sz \<Longrightarrow> zero_page ptr sz n h x =
     (if x \<in> set (page_chunks ptr sz n) then Some (zero_item sz) else h x)"
proof (induction n arbitrary: ptr h)
  case 0
  then show ?case by simp
next
  case (Suc n)
  have "ptr \<notin> set (page_chunks (ptr + sz) sz n)"
    using Suc.prems page_chunks_ge by fastforce
  with Suc show ?case by (auto simp: page_chunks_Suc)
qed

lemma zero_item_fields [simp]:
  "it_clsid (zero_item sz) = 0" "length (it_data (zero_item sz)) = sz - offset_data"
  by (simp_all add: zero_item_def)

lemma page_apart:
  assumes "x \<in> set (page_chunks ptr sz n)" and "y \<in> set (page_chunks ptr sz n)" and "x < y"
  shows "x + sz \<le> y"
proof -
  obtain i j where ij: "x = ptr + i * sz" "y = ptr + j * sz"
    using assms(1,2) by (auto simp: page_chunks_def)
  with assms(3) have "i < j" by (metis add_le_mono le_refl linorder_not_le mult_le_mono1)
  then have "Suc i * sz \<le> j * sz" by (intro mult_le_mono1) simp
  with ij show ?thesis by simp
qed

text \<open>Mapping a page of zeroed chunks past the break keeps the heap sound.\<close>

lemma heap_ok_page:
  assumes ok: "heap_ok s" and sz: "sizeof_base_item \<le> sz" and ptr: "brk s \<le> ptr"
    and s': "heap s' = zero_page ptr sz n (heap s)" "brk s' = ptr + sz * n"
  shows "heap_ok s'"
proof -
  have sz0: "0 < sz" using sz by (simp add: layout)
  let ?P = "set (page_chunks ptr sz n)"
  have new: "heap s' x = (if x \<in> ?P then Some (zero_item sz) else heap s x)" for x
    using zero_page_eq [OF sz0] s'(1) by simp
  have ends: "cell_end x (zero_item sz) = x + sz" for x
    using sz by (simp add: cell_end_def layout)
  have old: "cell_end a c \<le> ptr" if "heap s a = Some c" for a c
    using that ok ptr unfolding heap_ok_def by fastforce
  have pos: "0 < ptr" using ok ptr by (simp add: heap_ok_def)
  have "heap s' 0 = None" using new pos ok page_chunks_ge [of 0] by (auto simp: heap_ok_def)
  moreover have "cell_end a c \<le> brk s'" if "heap s' a = Some c" for a c
    using that new [of a] ends old [of a c] page_chunks_end [of a ptr sz n] s'(2)
    by (auto split: if_splits)
  moreover have "cell_end a c \<le> b" if "a < b" "heap s' a = Some c" "heap s' b = Some d" for a b c d
  proof (cases "a \<in> ?P")
    case True
    have "b \<in> ?P"
    proof (rule ccontr)
      assume "b \<notin> ?P"
      then have "heap s b = Some d" using that(3) new by simp
      then have "b + offset_data \<le> ptr" using old [of b d] by (simp add: cell_end_def)
      with page_chunks_ge [OF True] that(1) show False by simp
    qed
    then show ?thesis using page_apart [OF True _ that(1)] that(2) new True ends by auto
  next
    case False
    then have a: "heap s a = Some c" using that(2) new by simp
    show ?thesis
    proof (cases "b \<in> ?P")
      case True
      then show ?thesis using old [OF a] page_chunks_ge by fastforce
    next
      case False
      then show ?thesis using a that(1,3) new ok unfolding heap_ok_def by metis
    qed
  qed
  ultimately show ?thesis using s'(2) pos by (simp add: heap_ok_def)
qed

lemma in_use_below:
  "slab_inv fl s \<Longrightarrow> heap s a = Some c \<Longrightarrow> a < brk s"
  unfolding slab_inv_def heap_ok_def cell_end_def layout by fastforce

lemma slab_inv_page:
  assumes inv: "slab_inv fl s" and sz: "sizeof_base_item \<le> sz" and ptr: "brk s \<le> ptr"
    and s': "heap s' = zero_page ptr sz n (heap s)" "brk s' = ptr + sz * n" "slab s' = slab s"
  shows "slab_inv fl s'"
proof -
  have sz0: "0 < sz" using sz by (simp add: layout)
  have same: "heap s' x = heap s x" if "i < length (mem_base (slab s))" "x \<in> set (fl i)" for i x
  proof -
    have "\<exists>c. heap s x = Some c" using free_in_heap [OF inv] that frees_I by blast
    then have "x < ptr" using in_use_below [OF inv] ptr by fastforce
    then show ?thesis using zero_page_eq [OF sz0] s'(1) page_chunks_ge by fastforce
  qed
  have "class_free (heap s') (mem_base (slab s) ! i) (fl i)" if i: "i < length (mem_base (slab s))" for i
  proof -
    have "class_free (heap s) (mem_base (slab s) ! i) (fl i)"
      using inv i by (simp add: slab_inv_def free_ok_def)
    then show ?thesis
      using same [OF i] chain_same [of "heap s" it_next _ "fl i" "heap s'"] by (simp add: class_free_def)
  qed
  moreover have "heap_ok s'"
    using inv heap_ok_page [OF _ sz ptr s'(1,2)] by (simp add: slab_inv_def)
  ultimately show ?thesis using inv s'(3) by (simp add: slab_inv_def free_ok_def)
qed

text \<open>Cutting the page: every chunk goes to the front of the free list.\<close>

lemma split_loop_spec:
  assumes "slab_inv fl s" and "1 \<le> cid" and "cid \<le> power_largest (slab s)"
    and "sz = cls_size (mem_base (slab s) ! cid)" and "0 < sz"
    and "\<forall>x \<in> set (page_chunks ptr sz n). x \<notin> frees fl (slab s) \<and>
       (\<exists>c. heap s x = Some c \<and> it_clsid c = 0 \<and> length (it_data c) = sz - offset_data)"
  shows "\<exists>s'. split_loop ptr sz cid n s = Some (Inr ((), s')) \<and>
     slab_inv (fl(cid := rev (page_chunks ptr sz n) @ fl cid)) s' \<and> slab_frame s s' \<and>
     brk s' = brk s \<and> alloc_calls s' = alloc_calls s \<and>
     mem_malloced (slab s') = mem_malloced (slab s) \<and>
     (\<forall>i < length (mem_base (slab s)). slabs (mem_base (slab s') ! i) = slabs (mem_base (slab s) ! i) \<and>
        list_size (mem_base (slab s') ! i) = list_size (mem_base (slab s) ! i)) \<and>
     untouched (frees fl (slab s) \<union> set (page_chunks ptr sz n)) (heap s) (heap s') \<and>
     dom (heap s') = dom (heap s)"
  using assms
proof (induction n arbitrary: ptr s fl)
  case 0
  then show ?case by (simp add: ret_def)
next
  case (Suc n)
  let ?P = "page_chunks (ptr + sz) sz n"
  have pages: "page_chunks ptr sz (Suc n) = ptr # ?P" by (rule page_chunks_Suc)
  obtain c where c: "heap s ptr = Some c" "it_clsid c = 0" "length (it_data c) = sz - offset_data"
    and pf: "ptr \<notin> frees fl (slab s)" using Suc.prems(6) pages by auto
  let ?q = "slots (mem_base (slab s) ! cid)"
  let ?f = "\<lambda>p. p\<lparr>slots := ptr, sl_curr := sl_curr p + 1, requested := requested p - of_nat 0\<rparr>"
  obtain s1 where s1: "do_slabs_free ptr 0 cid s = Some (Inr ((), s1))"
      "slab_inv (fl(cid := ptr # fl cid)) s1"
      "s1 = (set_class cid ?f s)\<lparr>heap := push_heap (heap s) ptr ?q\<rparr>"
    using slab_inv_push [OF Suc.prems(1) c(1) pf c(2) _ Suc.prems(2,3), of 0] c(3) Suc.prems(4)
    by blast
  have len: "length (mem_base (slab s)) = Suc (power_largest (slab s))"
    using Suc.prems(1) by (simp add: slab_inv_def classes_ok_def)
  have cl: "cid < length (mem_base (slab s))" using len Suc.prems(3) by simp
  have ptr0: "ptr \<noteq> 0" by (rule inv_heap_nonnull [OF Suc.prems(1) c(1)])
  have q: "?q \<noteq> 0 \<Longrightarrow> ?q \<in> set (fl cid)"
  proof -
    have "class_free (heap s) (mem_base (slab s) ! cid) (fl cid)"
      using Suc.prems(1) cl by (simp add: slab_inv_def free_ok_def)
    then show "?q \<noteq> 0 \<Longrightarrow> ?q \<in> set (fl cid)"
      using chain_head [of "heap s" it_next ?q "fl cid"] by (simp add: class_free_def)
  qed
  have pq: "ptr \<noteq> ?q" using q pf cl frees_I ptr0 by metis
  have fr1: "slab_frame s s1" using s1(3) slab_frame_set_class [of ?f s cid] by simp
  have frees1: "frees (fl(cid := ptr # fl cid)) (slab s1) = insert ptr (frees fl (slab s))"
    using s1(3) cl by (auto simp: frees_def split: if_splits)
  have pdist: "ptr \<notin> set ?P" using page_chunks_ge [of ptr "ptr + sz" sz n] Suc.prems(5) by auto
  have same: "heap s1 x = heap s x" if "x \<noteq> ptr" "x \<notin> frees fl (slab s)" for x
  proof -
    have "?q = 0 \<or> x \<noteq> ?q" using that(2) q cl frees_I by metis
    then show ?thesis using s1(3) push_heap_cases(3) [of "heap s" ptr c ?q x, OF c(1) pq that(1)] by simp
  qed
  have pre: "\<forall>x \<in> set ?P. x \<notin> frees (fl(cid := ptr # fl cid)) (slab s1) \<and>
      (\<exists>c. heap s1 x = Some c \<and> it_clsid c = 0 \<and> length (it_data c) = sz - offset_data)"
  proof
    fix x assume x: "x \<in> set ?P"
    then have "x \<noteq> ptr" using pdist by auto
    with x Suc.prems(6) pages same show "x \<notin> frees (fl(cid := ptr # fl cid)) (slab s1) \<and>
      (\<exists>c. heap s1 x = Some c \<and> it_clsid c = 0 \<and> length (it_data c) = sz - offset_data)"
      by (simp add: frees1)
  qed
  have sz1: "sz = cls_size (mem_base (slab s1) ! cid)" "cid \<le> power_largest (slab s1)"
    using fr1 cl Suc.prems(3,4) by (auto simp: slab_frame_def same_classes_def)
  from Suc.IH [OF s1(2) Suc.prems(2) sz1(2,1) Suc.prems(5) pre] obtain s' where
    s': "split_loop (ptr + sz) sz cid n s1 = Some (Inr ((), s'))"
      "slab_inv ((fl(cid := ptr # fl cid))(cid := rev ?P @ (fl(cid := ptr # fl cid)) cid)) s'"
      "slab_frame s1 s'" "brk s' = brk s1" "alloc_calls s' = alloc_calls s1"
      "mem_malloced (slab s') = mem_malloced (slab s1)"
      "\<forall>i < length (mem_base (slab s1)). slabs (mem_base (slab s') ! i) = slabs (mem_base (slab s1) ! i) \<and>
        list_size (mem_base (slab s') ! i) = list_size (mem_base (slab s1) ! i)"
      "untouched (frees (fl(cid := ptr # fl cid)) (slab s1) \<union> set ?P) (heap s1) (heap s')"
      "dom (heap s') = dom (heap s1)"
    by blast
  have dom1: "dom (heap s1) = dom (heap s)"
    using keeps_push_heap [of "heap s" ptr c ?q, OF c(1) pq] s1(3) by (simp add: keeps_def)
  have "split_loop ptr sz cid (Suc n) s = Some (Inr ((), s'))"
    using s1(1) s'(1) by (simp add: prog_defs)
  moreover have "slab_inv (fl(cid := rev (page_chunks ptr sz (Suc n)) @ fl cid)) s'"
    using s'(2) by (simp add: pages)
  moreover have "slab_frame s s'" using fr1 s'(3) by (rule slab_frame_trans)
  moreover have "untouched (frees fl (slab s) \<union> set (page_chunks ptr sz (Suc n))) (heap s) (heap s')"
    using s'(8) same unfolding untouched_def frees1 pages by auto
  moreover have "brk s1 = brk s" "alloc_calls s1 = alloc_calls s"
      "mem_malloced (slab s1) = mem_malloced (slab s)"
      "length (mem_base (slab s1)) = length (mem_base (slab s))"
    using s1(3) by simp_all
  moreover have "\<forall>i < length (mem_base (slab s)).
      slabs (mem_base (slab s1) ! i) = slabs (mem_base (slab s) ! i) \<and>
      list_size (mem_base (slab s1) ! i) = list_size (mem_base (slab s) ! i)"
    using s1(3) by (auto simp: set_class_nth)
  ultimately show ?case using s'(4-7,9) dom1
    by (intro exI [of _ s'] conjI) (assumption | simp)+
qed

section \<open>The page allocator\<close>

text \<open>The test by which \<open>do_slabs_newslab\<close> refuses a page.\<close>

definition page_refused :: "Slab \<Rightarrow> nat \<Rightarrow> bool" where
  "page_refused sl cid \<longleftrightarrow> mem_limit sl \<noteq> 0 \<and>
     (mem_malloced sl + size_t (page_len (mem_base sl ! cid))) mod 2 ^ 64 > mem_limit sl \<and>
     slabs (mem_base sl ! cid) > 0"

lemma page_len_ok:
  assumes "classes_ok sl" and "1 \<le> cid" "cid \<le> power_largest sl"
  shows "size_t (page_len (mem_base sl ! cid)) = cls_size (mem_base sl ! cid) * perslab (mem_base sl ! cid)"
    and "cls_size (mem_base sl ! cid) * perslab (mem_base sl ! cid) < 2 ^ 31"
proof -
  let ?n = "cls_size (mem_base sl ! cid) * perslab (mem_base sl ! cid)"
  show n: "?n < 2 ^ 31" using assms by (simp add: classes_ok_def)
  then have "int ?n < int (2 ^ 31)" by (simp only: of_nat_less_iff)
  then have i: "0 \<le> int ?n" "int ?n < 2 ^ 31" by (simp_all del: of_nat_mult)
  have "- (2 ^ 31) \<le> int ?n" by (rule order_trans [OF _ i(1)]) simp
  then have "c_int (int ?n) = int ?n" using i(2) by (rule c_int_small)
  moreover have "size_t (int ?n) = ?n"
    using i by (subst size_t_nonneg) (simp_all del: of_nat_mult)
  ultimately show "size_t (page_len (mem_base sl ! cid)) = ?n" by (simp add: page_len_def)
qed

text \<open>Outside the tables \<open>classes_ok\<close> describes the length can be 0 or negative.\<close>

lemma page_len_wraps:
  "page_len (new_class 1048576 4096) = 0" "page_len (new_class 2147483648 1) = - 2147483648"
  by (simp_all add: page_len_def c_int_def new_class_def)

text \<open>Bookkeeping that is not the free lists does not matter to the invariant.\<close>

lemma slab_inv_cong:
  assumes "slab_inv fl s" and "heap s' = heap s" and "brk s \<le> brk s'"
    and "power_largest (slab s') = power_largest (slab s)"
    and "length (mem_base (slab s')) = length (mem_base (slab s))"
    and "\<And>i. i < length (mem_base (slab s)) \<Longrightarrow>
       cls_size (mem_base (slab s') ! i) = cls_size (mem_base (slab s) ! i) \<and>
       perslab (mem_base (slab s') ! i) = perslab (mem_base (slab s) ! i) \<and>
       slots (mem_base (slab s') ! i) = slots (mem_base (slab s) ! i) \<and>
       sl_curr (mem_base (slab s') ! i) = sl_curr (mem_base (slab s) ! i)"
    and "pages_ok (slab s')"
  shows "slab_inv fl s'"
proof -
  have "classes_ok (slab s')"
    using assms(1,4-6) by (simp add: slab_inv_def classes_ok_def)
  moreover have "heap_ok s'"
    using assms(1-3) unfolding slab_inv_def heap_ok_def by (metis le_trans order_less_le_trans)
  moreover have "free_ok fl s'"
    using assms(1,2,5,6) by (simp add: slab_inv_def free_ok_def class_free_def free_cell_def)
  ultimately show ?thesis using assms(7) by (simp add: slab_inv_def)
qed

lemma grow_slab_list_spec:
  assumes inv: "slab_inv fl s" and cl: "cid < length (mem_base (slab s))"
  shows "\<exists>g s'. grow_slab_list cid s = Some (Inr (g, s')) \<and> slab_inv fl s' \<and> slab_frame s s' \<and>
     heap s' = heap s \<and> brk s \<le> brk s' \<and> mem_malloced (slab s') = mem_malloced (slab s) \<and>
     (\<forall>i < length (mem_base (slab s)). slabs (mem_base (slab s') ! i) = slabs (mem_base (slab s) ! i)) \<and>
     (g \<noteq> 0 \<longrightarrow> slabs (mem_base (slab s) ! cid) < list_size (mem_base (slab s') ! cid)) \<and>
     ((\<forall>k. alloc_ok s k) \<longrightarrow> g \<noteq> 0)"
proof -
  let ?p = "mem_base (slab s) ! cid"
  have pg: "slabs ?p \<le> list_size ?p" "length (slab_list ?p) = list_size ?p"
    and brk0: "0 < brk s" and pages: "pages_ok (slab s)"
    using inv cl by (auto simp: slab_inv_def pages_ok_def heap_ok_def)
  show ?thesis
  proof (cases "slabs ?p = list_size ?p")
    case False
    then have "grow_slab_list cid s = Some (Inr (1, s))"
      using cl by (simp add: grow_slab_list_def get_class_def idx_def prog_defs)
    with False pg inv show ?thesis by (intro exI [of _ 1] exI [of _ s]) simp
  next
    case True
    define n where "n = (if list_size ?p \<noteq> 0 then list_size ?p * 2 else 16)"
    have n: "list_size ?p < n" by (simp add: n_def)
    show ?thesis
    proof (cases "alloc_ok s (alloc_calls s)")
      case False
      let ?s = "s\<lparr>alloc_calls := Suc (alloc_calls s)\<rparr>"
      have "grow_slab_list cid s = Some (Inr (0, ?s))"
        using True False cl
        by (simp add: grow_slab_list_def get_class_def idx_def prog_defs sys_alloc_def Let_def)
      moreover have "slab_inv fl ?s" by (rule slab_inv_cong [OF inv]) (simp_all add: pages)
      ultimately show ?thesis
        using False by (intro exI [of _ 0] exI [of _ ?s]) (auto simp: slab_frame_def)
    next
      case ok: True
      let ?f = "\<lambda>p. p\<lparr>list_size := n, slab_list := slab_list p @ replicate (n - length (slab_list p)) 0\<rparr>"
      let ?s1 = "s\<lparr>alloc_calls := Suc (alloc_calls s), brk := brk s + n * 8\<rparr>"
      let ?s = "set_class cid ?f ?s1"
      have "grow_slab_list cid s = Some (Inr (1, ?s))"
        using True ok cl brk0
        by (simp add: grow_slab_list_def get_class_def upd_class_def idx_def prog_defs sys_alloc_def
              Let_def n_def)
      moreover have "pages_ok (slab ?s)"
        using pages n pg cl by (auto simp: pages_ok_def set_class_nth)
      then have "slab_inv fl ?s"
        by (intro slab_inv_cong [OF inv]) (simp_all add: set_class_nth)
      moreover have "slab_frame s ?s1" by (simp add: slab_frame_def)
      then have "slab_frame s ?s" by (rule slab_frame_trans) (rule slab_frame_set_class, simp_all)
      moreover have "slabs ?p < list_size (mem_base (slab ?s) ! cid)"
        using n pg cl by (simp add: set_class_nth)
      ultimately show ?thesis
        by (intro exI [of _ 1] exI [of _ ?s]) (simp add: set_class_nth)
    qed
  qed
qed

lemma do_slabs_newslab_spec:
  assumes inv: "slab_inv fl s" and cid: "1 \<le> cid" "cid \<le> power_largest (slab s)"
  defines "p \<equiv> mem_base (slab s) ! cid"
  shows "\<exists>ok s' fl'. do_slabs_newslab cid s = Some (Inr (ok, s')) \<and> slab_inv fl' s' \<and> slab_frame s s' \<and>
     (ok = 0 \<and> fl' = fl \<and> heap s' = heap s \<and> mem_malloced (slab s') = mem_malloced (slab s) \<or>
      ok = 1 \<and> (\<exists>ptr. brk s \<le> ptr \<and> fl' = fl(cid := rev (page_chunks ptr (cls_size p) (perslab p)) @ fl cid)) \<and>
        mem_malloced (slab s') = (mem_malloced (slab s) + cls_size p * perslab p) mod 2 ^ 64 \<and>
        (\<forall>i < length (mem_base (slab s)). slabs (mem_base (slab s') ! i) =
           (if i = cid then slabs p + 1 else slabs (mem_base (slab s) ! i))) \<and>
        untouched (frees fl (slab s)) (heap s) (heap s') \<and> dom (heap s) \<subseteq> dom (heap s') \<and>
        (\<forall>a \<in> dom (heap s'). a \<notin> frees fl' (slab s') \<longrightarrow> a \<in> dom (heap s) \<and> a \<notin> frees fl (slab s))) \<and>
     (page_refused (slab s) cid \<longrightarrow> ok = 0 \<and> s' = s) \<and>
     (\<not> page_refused (slab s) cid \<and> (\<forall>k. alloc_ok s k) \<longrightarrow> ok = 1)"
proof (cases "page_refused (slab s) cid")
  case True
  have cl: "cid < length (mem_base (slab s))"
    using inv cid by (simp add: slab_inv_def classes_ok_def)
  have "do_slabs_newslab cid s = Some (Inr (0, s))"
    using True cl
    by (simp add: do_slabs_newslab_def page_refused_def get_class_def idx_def prog_defs Let_def)
  with True inv show ?thesis by (intro exI [of _ 0] exI [of _ s] exI [of _ fl]) simp
next
  case False
  let ?sz = "cls_size p" and ?n = "perslab p"
  have cl: "cid < length (mem_base (slab s))"
    and sz: "sizeof_base_item \<le> ?sz" and n: "0 < ?n"
    using inv cid by (auto simp: slab_inv_def classes_ok_def p_def)
  have sz0: "0 < ?sz" using sz by (simp add: layout)
  have len: "size_t (page_len p) = ?sz * ?n"
    using page_len_ok(1) [of "slab s" cid] inv cid by (simp add: slab_inv_def p_def)
  obtain g s1 where g: "grow_slab_list cid s = Some (Inr (g, s1))" "slab_inv fl s1" "slab_frame s s1"
      "heap s1 = heap s" "brk s \<le> brk s1" "mem_malloced (slab s1) = mem_malloced (slab s)"
      "\<forall>i < length (mem_base (slab s)). slabs (mem_base (slab s1) ! i) = slabs (mem_base (slab s) ! i)"
      "g \<noteq> 0 \<longrightarrow> slabs p < list_size (mem_base (slab s1) ! cid)"
      "(\<forall>k. alloc_ok s k) \<longrightarrow> g \<noteq> 0"
    using grow_slab_list_spec [OF inv cl] unfolding p_def by blast
  have same1: "length (mem_base (slab s1)) = length (mem_base (slab s))"
      "cls_size (mem_base (slab s1) ! cid) = ?sz" "perslab (mem_base (slab s1) ! cid) = ?n"
      "power_largest (slab s1) = power_largest (slab s)" "alloc_ok s1 = alloc_ok s"
    using g(3) cl by (auto simp: slab_frame_def same_classes_def p_def)
  have start: "wp (do_slabs_newslab cid) Q s \<longleftrightarrow> (if g = 0 then Q 0 s1 else
     wp (memory_allocate (?sz * ?n)) (\<lambda>ptr.
       wp (if ptr = 0 then ret 0
       else thn (seqs [
         modify (\<lambda>s. s\<lparr>heap := zero_page ptr ?sz ?n (heap s)\<rparr>),
         split_slab_page_into_freelist ptr cid,
         bnd (get_class cid) (\<lambda>p.
           if slabs p < length (slab_list p)
           then upd_class cid (\<lambda>p. p\<lparr>slab_list := (slab_list p)[slabs p := ptr], slabs := slabs p + 1\<rparr>)
           else fail (IndexOutOfRange (slabs p))),
         modify (\<lambda>s. s\<lparr>slab := (slab s)\<lparr>mem_malloced :=
           (mem_malloced (slab s) + ?sz * ?n) mod 2 ^ 64\<rparr>\<rparr>)])
       (ret 1)) Q) s1)" for Q
    using False cl len unfolding do_slabs_newslab_def page_refused_def p_def
    by (simp add: wp_bnd wp_get_class wp_gets wp_if wp_ret Let_def wp_returns [of "grow_slab_list cid" s g s1, OF g(1)] cong: if_cong) auto
  show ?thesis
  proof (cases "g = 0 \<or> \<not> alloc_ok s1 (alloc_calls s1)")
    case True
    let ?s = "if g = 0 then s1 else s1\<lparr>alloc_calls := Suc (alloc_calls s1)\<rparr>"
    have "wp (do_slabs_newslab cid) (\<lambda>ok s'. ok = 0 \<and> s' = ?s) s"
      using True by (auto simp: start memory_allocate_def wp_rules)
    then have "do_slabs_newslab cid s = Some (Inr (0, ?s))" by (auto simp: wp_iff)
    moreover have "slab_inv fl ?s"
      by (rule slab_inv_cong [OF g(2)]) (use g(2) in \<open>simp_all add: slab_inv_def\<close>)
    moreover have "slab_frame s ?s"
      using g(3) by (simp add: slab_frame_def)
    ultimately show ?thesis
      using False True g same1 by (intro exI [of _ 0] exI [of _ ?s] exI [of _ fl]) auto
  next
    case alloc: False
    define ptr where "ptr = brk s1"
    have ptr0: "ptr \<noteq> 0" using g(2) by (simp add: ptr_def slab_inv_def heap_ok_def)
    let ?s2 = "s1\<lparr>alloc_calls := Suc (alloc_calls s1), brk := ptr + ?sz * ?n,
                 heap := zero_page ptr ?sz ?n (heap s1)\<rparr>"
    let ?fl = "fl(cid := rev (page_chunks ptr ?sz ?n) @ fl cid)"
    have inv2: "slab_inv fl ?s2"
      by (rule slab_inv_page [OF g(2) sz, where ptr = ptr and n = ?n]) (simp_all add: ptr_def)
    have fresh: "\<forall>x \<in> set (page_chunks ptr ?sz ?n). x \<notin> frees fl (slab ?s2) \<and>
       (\<exists>c. heap ?s2 x = Some c \<and> it_clsid c = 0 \<and> length (it_data c) = ?sz - offset_data)"
    proof
      fix x assume x: "x \<in> set (page_chunks ptr ?sz ?n)"
      have "heap s1 x = None"
        using in_use_below [OF g(2), of x] page_chunks_ge [OF x] unfolding ptr_def by fastforce
      then have "x \<notin> frees fl (slab s1)" using free_in_heap [OF g(2), of x] by auto
      then show "x \<notin> frees fl (slab ?s2) \<and>
         (\<exists>c. heap ?s2 x = Some c \<and> it_clsid c = 0 \<and> length (it_data c) = ?sz - offset_data)"
        using x zero_page_eq [OF sz0] by simp
    qed
    obtain s3 where s3: "split_loop ptr ?sz cid ?n ?s2 = Some (Inr ((), s3))" "slab_inv ?fl s3"
        "slab_frame ?s2 s3" "brk s3 = brk ?s2" "alloc_calls s3 = alloc_calls ?s2"
        "mem_malloced (slab s3) = mem_malloced (slab ?s2)"
        "\<forall>i < length (mem_base (slab ?s2)). slabs (mem_base (slab s3) ! i) = slabs (mem_base (slab ?s2) ! i) \<and>
          list_size (mem_base (slab s3) ! i) = list_size (mem_base (slab ?s2) ! i)"
        "untouched (frees fl (slab ?s2) \<union> set (page_chunks ptr ?sz ?n)) (heap ?s2) (heap s3)"
        "dom (heap s3) = dom (heap ?s2)"
      using split_loop_spec [OF inv2 cid(1) _ _ sz0 fresh] cid(2) same1 by auto
    have len3: "length (mem_base (slab s3)) = length (mem_base (slab s))"
      using s3(3) same1 by (simp add: slab_frame_def same_classes_def)
    let ?f = "\<lambda>p. p\<lparr>slab_list := (slab_list p)[slabs p := ptr], slabs := slabs p + 1\<rparr>"
    let ?s4 = "set_class cid ?f s3"
    let ?s5 = "?s4\<lparr>slab := (slab ?s4)\<lparr>mem_malloced :=
      (mem_malloced (slab ?s4) + ?sz * ?n) mod 2 ^ 64\<rparr>\<rparr>"
    have room: "slabs (mem_base (slab s3) ! cid) < list_size (mem_base (slab s3) ! cid)"
      using s3(7) g(7,8) alloc cl same1 by (simp add: p_def)
    have pl3: "length (slab_list (mem_base (slab s3) ! cid)) = list_size (mem_base (slab s3) ! cid)"
      using s3(2) cl len3 by (simp add: slab_inv_def pages_ok_def)
    have "wp (do_slabs_newslab cid) (\<lambda>ok s'. ok = 1 \<and> s' = ?s5) s"
      using alloc ptr0 room pl3 cl len3 same1 s3(1)
      by (simp add: start memory_allocate_def wp_rules split_slab_page_into_freelist_def
            ptr_def [symmetric] wp_returns [of "split_loop ptr ?sz cid ?n" ?s2 "()" s3, OF s3(1)])
    then have "do_slabs_newslab cid s = Some (Inr (1, ?s5))" by (auto simp: wp_iff)
    moreover have "pages_ok (slab ?s5)"
      using s3(2) room by (auto simp: slab_inv_def pages_ok_def set_class_nth)
    then have "slab_inv ?fl ?s5"
      by (intro slab_inv_cong [OF s3(2)]) (simp_all add: set_class_nth)
    moreover have "slab_frame s ?s5"
    proof -
      have "slab_frame s ?s2" using g(3) by (simp add: slab_frame_def)
      moreover have "slab_frame s3 ?s4" by (rule slab_frame_set_class) simp_all
      ultimately have "slab_frame s ?s4" using s3(3) slab_frame_trans by blast
      then show ?thesis by (simp add: slab_frame_def same_classes_def)
    qed
    moreover have "untouched (frees fl (slab s)) (heap s) (heap ?s5)"
      unfolding untouched_def
    proof (intro allI impI)
      fix a c assume a: "heap s a = Some c" "a \<notin> frees fl (slab s)"
      have "a < ptr" using in_use_below [OF g(2), of a c] a(1) g(4) by (simp add: ptr_def)
      then have "a \<notin> set (page_chunks ptr ?sz ?n)" using page_chunks_ge by fastforce
      moreover have "a \<notin> frees fl (slab s1)" using a(2) same1 by (simp add: frees_def)
      ultimately show "heap ?s5 a = Some c"
        using a(1) g(4) s3(8) zero_page_eq [OF sz0] by (simp add: untouched_def)
    qed
    moreover have "brk s \<le> ptr" using g(5) by (simp add: ptr_def)
    moreover have dom5: "dom (heap ?s5) = dom (heap s) \<union> set (page_chunks ptr ?sz ?n)"
      using s3(9) zero_page_eq [OF sz0, of ptr ?n "heap s1"] g(4)
      by (auto simp: dom_def split: if_splits)
    moreover have "\<forall>a \<in> dom (heap ?s5). a \<notin> frees ?fl (slab ?s5) \<longrightarrow> a \<in> dom (heap s) \<and> a \<notin> frees fl (slab s)"
    proof (intro ballI impI)
      fix a assume a: "a \<in> dom (heap ?s5)" "a \<notin> frees ?fl (slab ?s5)"
      have "set (page_chunks ptr ?sz ?n) \<union> frees fl (slab s) \<subseteq> frees ?fl (slab ?s5)"
        using cl len3 by (auto simp: frees_def split: if_splits)
      then show "a \<in> dom (heap s) \<and> a \<notin> frees fl (slab s)" using a dom5 by blast
    qed
    ultimately show ?thesis
      using False s3(6,7) g(6,7) same1 cl len3
      by (intro exI [of _ 1] exI [of _ ?s5] exI [of _ ?fl]) (auto simp: set_class_nth p_def)
  qed
qed

section \<open>Allocation\<close>

lemma do_slabs_alloc_after_page:
  assumes "do_slabs_newslab cid s = Some (Inr (ok, s1))" and "ok \<noteq> 0"
    and "1 \<le> cid" and "cid \<le> POWER_LARGEST"
    and "cid < length (mem_base (slab s))" and "cid < length (mem_base (slab s1))"
    and "sl_curr (mem_base (slab s) ! cid) = 0" and "sl_curr (mem_base (slab s1) ! cid) \<noteq> 0"
  shows "do_slabs_alloc sz cid s = do_slabs_alloc sz cid s1"
  using assms by (simp add: do_slabs_alloc_def get_class_def idx_def prog_defs power_defs)

lemma do_slabs_alloc_no_page:
  assumes "do_slabs_newslab cid s = Some (Inr (0, s1))"
    and "1 \<le> cid" and "cid \<le> POWER_LARGEST"
    and "cid < length (mem_base (slab s))" and "sl_curr (mem_base (slab s) ! cid) = 0"
  shows "do_slabs_alloc sz cid s = Some (Inr (0, s1))"
  using assms by (simp add: do_slabs_alloc_def get_class_def idx_def prog_defs power_defs)

lemma frees_upd:
  "cid < length (mem_base sl) \<Longrightarrow> frees (fl(cid := ys)) sl \<subseteq> frees fl sl \<union> set ys"
  by (auto simp: frees_def split: if_splits)

lemma frees_length: "length (mem_base sl') = length (mem_base sl) \<Longrightarrow> frees fl sl' = frees fl sl"
  by (simp add: frees_def)

text \<open>
  What the callers of the allocator rely on: null, and nothing changed for them; or a
  chunk of the capacity of its class that is neither free any more nor in use before.
\<close>

text \<open>Every free list keeps its chunks but for at most one.\<close>

definition spent :: "(nat \<Rightarrow> addr list) \<Rightarrow> (nat \<Rightarrow> addr list) \<Rightarrow> bool" where
  "spent fl fl' \<longleftrightarrow> (\<forall>i. length (fl i) \<le> Suc (length (fl' i)))"

lemma spent_refl [simp]: "spent fl fl"
  by (simp add: spent_def)

lemma spent_upd: "length (fl i) \<le> Suc (length xs) \<Longrightarrow> spent fl (fl(i := xs))"
  by (simp add: spent_def)

definition alloc_result ::
  "(nat \<Rightarrow> addr list) \<Rightarrow> machine \<Rightarrow> nat \<Rightarrow> addr \<Rightarrow> (nat \<Rightarrow> addr list) \<Rightarrow> machine \<Rightarrow> bool" where
  "alloc_result fl s cid r fl' s' \<longleftrightarrow> slab_inv fl' s' \<and> slab_frame s s' \<and> spent fl fl' \<and>
     untouched (frees fl (slab s)) (heap s) (heap s') \<and>
     frees fl' (slab s') \<subseteq> frees fl (slab s) \<union> {a. heap s a = None} \<and>
     dom (heap s) \<subseteq> dom (heap s') \<and>
     (\<forall>a \<in> dom (heap s'). a \<notin> insert r (frees fl' (slab s')) \<longrightarrow>
        a \<in> dom (heap s) \<and> a \<notin> frees fl (slab s)) \<and>
     (if r = 0 then fl' = fl \<and> heap s' = heap s
      else r \<notin> frees fl' (slab s') \<and> (r \<in> frees fl (slab s) \<or> heap s r = None) \<and>
        (\<exists>c. heap s' r = Some c \<and> free_cell (mem_base (slab s) ! cid) c \<and>
           it_prev c = 0 \<and> (it_next c \<noteq> 0 \<longrightarrow> it_next c \<in> dom (heap s'))))"

lemma slab_inv_pop_result:
  assumes inv: "slab_inv fl s" and cid: "1 \<le> cid" "cid \<le> power_largest (slab s)"
    and fl: "fl cid = x # xs"
  shows "\<exists>s'. do_slabs_alloc sz cid s = Some (Inr (x, s')) \<and>
     alloc_result fl s cid x (fl(cid := xs)) s' \<and> x \<noteq> 0 \<and> brk s' = brk s \<and>
     mem_malloced (slab s') = mem_malloced (slab s)"
proof -
  from slab_inv_pop [OF inv cid fl, of sz] obtain c s' where
    c: "heap s x = Some c" "free_cell (mem_base (slab s) ! cid) c"
      "do_slabs_alloc sz cid s = Some (Inr (x, s'))" "slab_inv (fl(cid := xs)) s'"
      "s' = (set_class cid (\<lambda>p. p\<lparr>slots := it_next c, sl_curr := sl_curr p - 1,
               requested := requested p + of_nat sz\<rparr>) s)\<lparr>heap := pop_heap (heap s) (it_next c)\<rparr>"
      "it_next c \<noteq> 0 \<longrightarrow> it_next c \<in> set xs" "it_prev c = 0" by blast
  have cl: "cid < length (mem_base (slab s))"
    using inv cid by (simp add: slab_inv_def classes_ok_def)
  have nd: "it_next c \<noteq> 0 \<longrightarrow> it_next c \<in> dom (heap s')"
    using c(4,6) free_in_heap [OF c(4), of "it_next c"] frees_I [of cid "slab s'" "it_next c" "fl(cid := xs)"] cl c(5)
    by auto
  have "distinct (x # xs)"
    using inv cl fl chain_distinct unfolding slab_inv_def free_ok_def class_free_def by metis
  then have nx: "x \<notin> set xs" and qx: "it_next c \<noteq> 0 \<longrightarrow> it_next c \<noteq> x" using c(6) by auto
  have disj: "x \<notin> set (fl i)" if "i < length (mem_base (slab s))" "i \<noteq> cid" for i
    using that inv cl fl unfolding slab_inv_def free_ok_def by (metis disjoint_iff list.set_intros(1))
  have len: "length (mem_base (slab s')) = length (mem_base (slab s))" using c(5) by simp
  have "x \<notin> frees (fl(cid := xs)) (slab s')"
    using nx disj len by (auto simp: frees_def split: if_splits)
  moreover have "frees (fl(cid := xs)) (slab s') \<subseteq> frees fl (slab s)"
  proof -
    have "set xs \<subseteq> frees fl (slab s)" using cl fl frees_I [of cid "slab s" _ fl] by auto
    then show ?thesis
      using frees_upd [of cid "slab s" fl xs] cl frees_length [OF len, of "fl(cid := xs)"] by auto
  qed
  moreover have "x \<in> frees fl (slab s)" using cl fl frees_I [of cid "slab s" x fl] by simp
  moreover have "untouched (frees fl (slab s)) (heap s) (heap s')"
    using c(5,6) cl fl frees_I [of cid "slab s" "it_next c" fl] by (auto simp: untouched_def pop_heap_def)
  moreover have "slab_frame s s'"
    unfolding c(5) by (simp add: slab_frame_set_class)
  moreover have dom': "dom (heap s') = dom (heap s)"
    using keeps_pop_heap [of "heap s" "it_next c"] c(5) by (simp add: keeps_def)
  moreover have "\<forall>a \<in> dom (heap s'). a \<notin> insert x (frees (fl(cid := xs)) (slab s')) \<longrightarrow>
      a \<in> dom (heap s) \<and> a \<notin> frees fl (slab s)"
  proof (intro ballI impI)
    fix a assume a: "a \<in> dom (heap s')" "a \<notin> insert x (frees (fl(cid := xs)) (slab s'))"
    have "frees fl (slab s) \<subseteq> insert x (frees (fl(cid := xs)) (slab s'))"
    proof
      fix y assume "y \<in> frees fl (slab s)"
      then obtain i where i: "i < length (mem_base (slab s))" "y \<in> set (fl i)" by (auto simp: frees_def)
      show "y \<in> insert x (frees (fl(cid := xs)) (slab s'))"
      proof (cases "i = cid")
        case True
        then show ?thesis using i fl frees_I [of cid "slab s'" y "fl(cid := xs)"] len cl by auto
      next
        case False
        then show ?thesis using i frees_I [of i "slab s'" y "fl(cid := xs)"] len by simp
      qed
    qed
    then show "a \<in> dom (heap s) \<and> a \<notin> frees fl (slab s)" using a dom' by blast
  qed
  moreover have "heap s' x = Some c" using c(1,5) qx by (auto simp: pop_heap_def)
  moreover have "x \<noteq> 0" by (rule inv_heap_nonnull [OF inv c(1)])
  moreover have "spent fl (fl(cid := xs))" using fl by (intro spent_upd) simp
  ultimately show ?thesis
    using c(2,3,4,7) c(5) nd unfolding alloc_result_def by (intro exI [of _ s']) auto
qed

lemma do_slabs_alloc_spec:
  assumes inv: "slab_inv fl s" and cid: "1 \<le> cid" "cid \<le> power_largest (slab s)"
  shows "\<exists>r s' fl'. do_slabs_alloc sz cid s = Some (Inr (r, s')) \<and> alloc_result fl s cid r fl' s' \<and>
     (fl cid = [] \<and> page_refused (slab s) cid \<longrightarrow> r = 0) \<and>
     ((\<forall>k. alloc_ok s k) \<and> \<not> (fl cid = [] \<and> page_refused (slab s) cid) \<longrightarrow> r \<noteq> 0)"
proof (cases "fl cid")
  case (Cons x xs)
  then show ?thesis using slab_inv_pop_result [OF inv cid Cons] by force
next
  case Nil
  have len: "length (mem_base (slab s)) = Suc (power_largest (slab s))"
    and pl: "power_largest (slab s) \<le> POWER_LARGEST"
    and n: "0 < perslab (mem_base (slab s) ! cid)"
    using inv cid by (auto simp: slab_inv_def classes_ok_def)
  have cl: "cid < length (mem_base (slab s))" and cp: "cid \<le> POWER_LARGEST"
    using cid len pl by simp_all
  have zero: "sl_curr (mem_base (slab s) ! cid) = 0"
    using inv cl Nil unfolding slab_inv_def free_ok_def class_free_def by (metis list.size(3))
  let ?p = "mem_base (slab s) ! cid"
  obtain ok s1 fl1 where s1: "do_slabs_newslab cid s = Some (Inr (ok, s1))" "slab_inv fl1 s1" "slab_frame s s1"
     "ok = 0 \<and> fl1 = fl \<and> heap s1 = heap s \<or>
      ok = 1 \<and> (\<exists>ptr. brk s \<le> ptr \<and> fl1 = fl(cid := rev (page_chunks ptr (cls_size ?p) (perslab ?p)) @ fl cid)) \<and>
        untouched (frees fl (slab s)) (heap s) (heap s1) \<and> dom (heap s) \<subseteq> dom (heap s1) \<and>
        (\<forall>a \<in> dom (heap s1). a \<notin> frees fl1 (slab s1) \<longrightarrow> a \<in> dom (heap s) \<and> a \<notin> frees fl (slab s))"
     "page_refused (slab s) cid \<longrightarrow> ok = 0 \<and> s1 = s"
     "\<not> page_refused (slab s) cid \<and> (\<forall>k. alloc_ok s k) \<longrightarrow> ok = 1"
    using do_slabs_newslab_spec [OF inv cid] by blast
  show ?thesis
  proof (cases "ok = 0")
    case True
    then have "do_slabs_alloc sz cid s = Some (Inr (0, s1))"
      using s1(1) by (intro do_slabs_alloc_no_page cid cp cl zero) simp
    moreover have "alloc_result fl s cid 0 fl s1"
      using True s1(2-4) frees_length [of "slab s1" "slab s" fl] slab_frame_fields(13) [OF s1(3)]
      by (auto simp: alloc_result_def)
    ultimately show ?thesis using s1(6) True Nil by (intro exI [of _ 0] exI [of _ s1] exI [of _ fl]) auto
  next
    case False
    then obtain ptr where ptr: "brk s \<le> ptr"
        "fl1 = fl(cid := rev (page_chunks ptr (cls_size ?p) (perslab ?p)))"
        "untouched (frees fl (slab s)) (heap s) (heap s1)" "dom (heap s) \<subseteq> dom (heap s1)"
        "\<forall>a \<in> dom (heap s1). a \<notin> frees fl1 (slab s1) \<longrightarrow> a \<in> dom (heap s) \<and> a \<notin> frees fl (slab s)"
      using s1(4) Nil by auto
    let ?ch = "rev (page_chunks ptr (cls_size ?p) (perslab ?p))"
    have "length ?ch \<noteq> 0" using n by simp
    then obtain x xs where x: "?ch = x # xs" by (metis list.exhaust list.size(3))
    note fr = slab_frame_fields [OF s1(3)]
    have cl1: "cid < length (mem_base (slab s1))" "cid \<le> power_largest (slab s1)"
      using cl cid fr by simp_all
    have nz: "sl_curr (mem_base (slab s1) ! cid) \<noteq> 0"
      using s1(2) cl1 ptr(2) x unfolding slab_inv_def free_ok_def class_free_def by fastforce
    have same: "do_slabs_alloc sz cid s = do_slabs_alloc sz cid s1"
      by (rule do_slabs_alloc_after_page [OF s1(1) False cid(1) cp cl cl1(1) zero nz])
    have fl1: "fl1 cid = x # xs" using ptr(2) x by simp
    from slab_inv_pop_result [OF s1(2) cid(1) cl1(2) fl1, of sz] obtain s' where
      s': "do_slabs_alloc sz cid s1 = Some (Inr (x, s'))" "x \<noteq> 0"
        "alloc_result fl1 s1 cid x (fl1(cid := xs)) s'" by blast
    have fresh: "heap s a = None" if "a \<in> set ?ch" for a
    proof -
      have "brk s \<le> a" using that ptr(1) page_chunks_ge [of a] by fastforce
      then show ?thesis using in_use_below [OF inv, of a] by fastforce
    qed
    have frees1: "frees fl1 (slab s1) \<subseteq> frees fl (slab s) \<union> set ?ch"
      using frees_upd [of cid "slab s" fl ?ch] cl ptr(2) fr(13) by (simp add: frees_def)
    have was: "a \<in> frees fl (slab s) \<union> {a. heap s a = None}"
      if "heap s1 a = None \<or> a \<in> frees fl1 (slab s1)" for a
    proof (cases "heap s a")
      case (Some c)
      have "heap s1 a = None \<Longrightarrow> a \<in> frees fl (slab s)"
        using ptr(3) Some unfolding untouched_def by (metis option.distinct(1))
      moreover have "a \<in> frees fl1 (slab s1) \<Longrightarrow> a \<in> frees fl (slab s)"
        using frees1 fresh [of a] Some by auto
      ultimately have "a \<in> frees fl (slab s)" using that by argo
      then show ?thesis by simp
    qed simp
    have "untouched (frees fl (slab s)) (heap s) (heap s')"
      unfolding untouched_def
    proof (intro allI impI)
      fix a c assume a: "heap s a = Some c" "a \<notin> frees fl (slab s)"
      then have "heap s1 a = Some c" using ptr(3) by (simp add: untouched_def)
      moreover have "a \<notin> frees fl1 (slab s1)" using a frees1 fresh by fastforce
      ultimately show "heap s' a = Some c" using s'(3) by (simp add: alloc_result_def untouched_def)
    qed
    moreover have "cls_size (mem_base (slab s1) ! cid) = cls_size ?p"
      using s1(3) cl by (simp add: slab_frame_def same_classes_def)
    ultimately have out: "untouched (frees fl (slab s)) (heap s) (heap s')"
        "free_cell (mem_base (slab s1) ! cid) = free_cell ?p" by (auto simp: free_cell_def)
    have r: "slab_inv (fl1(cid := xs)) s'" "slab_frame s1 s'"
        "frees (fl1(cid := xs)) (slab s') \<subseteq> frees fl1 (slab s1) \<union> {a. heap s1 a = None}"
        "dom (heap s1) \<subseteq> dom (heap s')"
        "\<forall>a \<in> dom (heap s'). a \<notin> insert x (frees (fl1(cid := xs)) (slab s')) \<longrightarrow>
           a \<in> dom (heap s1) \<and> a \<notin> frees fl1 (slab s1)"
        "x \<notin> frees (fl1(cid := xs)) (slab s')" "x \<in> frees fl1 (slab s1) \<or> heap s1 x = None"
        "\<exists>c. heap s' x = Some c \<and> free_cell (mem_base (slab s1) ! cid) c \<and> it_prev c = 0 \<and>
           (it_next c \<noteq> 0 \<longrightarrow> it_next c \<in> dom (heap s'))"
      using s'(2,3) unfolding alloc_result_def by simp_all
    have "alloc_result fl s cid x (fl1(cid := xs)) s'"
      unfolding alloc_result_def
    proof (intro conjI)
      show "slab_frame s s'" by (rule slab_frame_trans [OF s1(3) r(2)])
      show "spent fl (fl1(cid := xs))" using ptr(2) Nil by (simp add: spent_def)
      show "frees (fl1(cid := xs)) (slab s') \<subseteq> frees fl (slab s) \<union> {a. heap s a = None}"
        using r(3) was by blast
      show "dom (heap s) \<subseteq> dom (heap s')" using ptr(4) r(4) by blast
      show "\<forall>a \<in> dom (heap s'). a \<notin> insert x (frees (fl1(cid := xs)) (slab s')) \<longrightarrow>
          a \<in> dom (heap s) \<and> a \<notin> frees fl (slab s)"
        using r(5) ptr(5) by blast
      have "x \<in> frees fl (slab s) \<or> heap s x = None" using was [of x] r(7) by auto
      then show "if x = 0 then fl1(cid := xs) = fl \<and> heap s' = heap s
        else x \<notin> frees (fl1(cid := xs)) (slab s') \<and> (x \<in> frees fl (slab s) \<or> heap s x = None) \<and>
          (\<exists>c. heap s' x = Some c \<and> free_cell ?p c \<and> it_prev c = 0 \<and>
             (it_next c \<noteq> 0 \<longrightarrow> it_next c \<in> dom (heap s')))"
        using r(6,8) s'(2) out(2) by simp
    qed (rule r(1), rule out(1))
    then show ?thesis
      using same s'(1,2) s1(5) False by (intro exI [of _ x] exI [of _ s'] exI) auto
  qed
qed

section \<open>The slab mutex\<close>

definition set_slabs_lock :: "bool \<Rightarrow> machine \<Rightarrow> machine" where
  "set_slabs_lock b s = s\<lparr>slab := (slab s)\<lparr>slabs_lock := b\<rparr>\<rparr>"

lemma set_slabs_lock_same: "slabs_lock (slab s) = b \<Longrightarrow> set_slabs_lock b (set_slabs_lock c s) = s"
  by (simp add: set_slabs_lock_def)

interpretation slabs_mutex: mutex lock_slabs unlock_slabs "\<lambda>_. True" "\<lambda>s. slabs_lock (slab s)"
    "set_slabs_lock True" "set_slabs_lock False"
  by unfold_locales (auto simp: lock_slabs_def unlock_slabs_def prog_defs set_slabs_lock_def)

lemma set_slabs_lock_frame [simp]:
  "heap (set_slabs_lock b s) = heap s" "brk (set_slabs_lock b s) = brk s"
  "hashtable (set_slabs_lock b s) = hashtable s" "lru_list (set_slabs_lock b s) = lru_list s"
  "cache_lock (set_slabs_lock b s) = cache_lock s" "hashitems (set_slabs_lock b s) = hashitems s"
  "alloc_ok (set_slabs_lock b s) = alloc_ok s" "clock (set_slabs_lock b s) = clock s"
  "clock_reads (set_slabs_lock b s) = clock_reads s"
  "last_cas_id (set_slabs_lock b s) = last_cas_id s"
  "mem_setting (set_slabs_lock b s) = mem_setting s"
  "mem_base (slab (set_slabs_lock b s)) = mem_base (slab s)"
  "power_largest (slab (set_slabs_lock b s)) = power_largest (slab s)"
  "mem_limit (slab (set_slabs_lock b s)) = mem_limit (slab s)"
  "mem_malloced (slab (set_slabs_lock b s)) = mem_malloced (slab s)"
  "slabs_lock (slab (set_slabs_lock b s)) = b"
  by (simp_all add: set_slabs_lock_def)

lemma slab_inv_lock [simp]: "slab_inv fl (set_slabs_lock b s) = slab_inv fl s"
  by (simp add: slab_inv_def classes_ok_def heap_ok_def free_ok_def pages_ok_def)

lemma frees_lock [simp]: "frees fl (slab (set_slabs_lock b s)) = frees fl (slab s)"
  by (simp add: frees_def)

lemma alloc_result_lock:
  assumes "alloc_result fl (set_slabs_lock True s) cid r fl' s'" and "\<not> slabs_lock (slab s)"
  shows "alloc_result fl s cid r fl' (set_slabs_lock False s')" and "slabs_lock (slab s')"
  using assms unfolding alloc_result_def slab_frame_def same_classes_def by auto

text \<open>The locked allocator: it takes the mutex once, always returns and always releases it.\<close>

lemma slabs_alloc_spec:
  assumes inv: "slab_inv fl s" and cid: "1 \<le> cid" "cid \<le> power_largest (slab s)"
    and free: "\<not> slabs_lock (slab s)"
  shows "\<exists>r s' fl'. slabs_alloc sz cid s = Some (Inr (r, s')) \<and> alloc_result fl s cid r fl' s' \<and>
     (fl cid = [] \<and> page_refused (slab s) cid \<longrightarrow> r = 0) \<and>
     ((\<forall>k. alloc_ok s k) \<and> \<not> (fl cid = [] \<and> page_refused (slab s) cid) \<longrightarrow> r \<noteq> 0)"
proof -
  have refused: "page_refused (slab (set_slabs_lock True s)) cid = page_refused (slab s) cid"
    by (simp add: page_refused_def)
  obtain r s1 fl' where r: "do_slabs_alloc sz cid (set_slabs_lock True s) = Some (Inr (r, s1))"
      "alloc_result fl (set_slabs_lock True s) cid r fl' s1"
      "fl cid = [] \<and> page_refused (slab s) cid \<longrightarrow> r = 0"
      "(\<forall>k. alloc_ok s k) \<and> \<not> (fl cid = [] \<and> page_refused (slab s) cid) \<longrightarrow> r \<noteq> 0"
    using do_slabs_alloc_spec [of fl "set_slabs_lock True s" cid sz] inv cid refused by auto
  note l = alloc_result_lock [OF r(2) free]
  have "slabs_alloc sz cid s = Some (Inr (r, set_slabs_lock False s1))"
    unfolding slabs_alloc_def using TrueI free r(1) TrueI l(2)
    by (rule slabs_mutex.critical [where body = "do_slabs_alloc sz cid" and s = s])
  with l(1) r(3,4) show ?thesis by blast
qed

section \<open>Allocation and release are inverse\<close>

lemma alloc_free_round:
  assumes inv: "slab_inv fl s" and cid: "1 \<le> cid" "cid \<le> power_largest (slab s)"
    and fl: "fl cid = x # xs"
  shows "\<exists>s1 s2. do_slabs_alloc sz cid s = Some (Inr (x, s1)) \<and>
     do_slabs_free x sz cid s1 = Some (Inr ((), s2)) \<and> slab_inv fl s2 \<and>
     requested (mem_base (slab s2) ! cid) = requested (mem_base (slab s) ! cid)"
proof -
  have cl: "cid < length (mem_base (slab s))"
    using inv cid by (simp add: slab_inv_def classes_ok_def)
  from slab_inv_pop [OF inv cid fl, of sz] obtain c s1 where
    c: "heap s x = Some c" "free_cell (mem_base (slab s) ! cid) c"
      "do_slabs_alloc sz cid s = Some (Inr (x, s1))" "slab_inv (fl(cid := xs)) s1"
      "s1 = (set_class cid (\<lambda>p. p\<lparr>slots := it_next c, sl_curr := sl_curr p - 1,
               requested := requested p + of_nat sz\<rparr>) s)\<lparr>heap := pop_heap (heap s) (it_next c)\<rparr>"
      "it_next c \<noteq> 0 \<longrightarrow> it_next c \<in> set xs" by blast
  have res: "alloc_result fl s cid x (fl(cid := xs)) s1" and x0: "x \<noteq> 0"
    using slab_inv_pop_result [OF inv cid fl, of sz] c(3) by auto
  then obtain d where d: "heap s1 x = Some d" "free_cell (mem_base (slab s) ! cid) d"
      and nf: "x \<notin> frees (fl(cid := xs)) (slab s1)"
    by (auto simp: alloc_result_def)
  have cid1: "cid \<le> power_largest (slab s1)" "cls_size (mem_base (slab s1) ! cid) = cls_size (mem_base (slab s) ! cid)"
    using c(5) cid cl by (simp_all add: set_class_nth)
  have cell: "it_clsid d = 0" "length (it_data d) = cls_size (mem_base (slab s1) ! cid) - offset_data"
    using d(2) cid1 by (auto simp: free_cell_def)
  from slab_inv_push [OF c(4) d(1) nf cell cid(1) cid1(1), of sz] obtain s2 where
    s2: "do_slabs_free x sz cid s1 = Some (Inr ((), s2))"
      "slab_inv ((fl(cid := xs))(cid := x # (fl(cid := xs)) cid)) s2"
      "s2 = (set_class cid (\<lambda>p. p\<lparr>slots := x, sl_curr := sl_curr p + 1,
               requested := requested p - of_nat sz\<rparr>) s1)
            \<lparr>heap := push_heap (heap s1) x (slots (mem_base (slab s1) ! cid))\<rparr>" by blast
  have "(fl(cid := xs))(cid := x # (fl(cid := xs)) cid) = fl" using fl by auto
  with s2(2) have "slab_inv fl s2" by simp
  moreover have "requested (mem_base (slab s2) ! cid) = requested (mem_base (slab s) ! cid)"
    using s2(3) c(5) cl by (simp add: set_class_nth)
  ultimately show ?thesis using c(3) s2(1) by blast
qed

section \<open>Preallocation\<close>

lemma ideal_classes_prefix:
  "ideal_classes fn fd imax i sz mb = (mb', k) \<Longrightarrow> mb \<noteq> [] \<Longrightarrow> mb' ! 0 = mb ! 0"
proof (induction fn fd imax i sz mb rule: ideal_classes.induct)
  case (1 fn fd imax i sz mb)
  show ?case
  proof (cases "i + 1 < POWER_LARGEST \<and> sz * fn \<le> imax * fd")
    case True
    let ?mb = "mb @ [new_class (align_up sz) (imax div align_up sz)]"
    have "ideal_classes fn fd imax (i + 1) (align_up sz * fn div fd) ?mb = (mb', k)"
      using "1.prems"(1) True by (simp add: ideal_classes.simps [of fn fd imax i sz mb] Let_def)
    then have "mb' ! 0 = ?mb ! 0" using "1.IH" [OF True refl] by simp
    then show ?thesis using "1.prems"(2) by (simp add: nth_append)
  next
    case False
    with "1.prems" show ?thesis by (auto simp: ideal_classes.simps [of fn fd imax i sz mb] nth_append)
  qed
qed

text \<open>No memory is in use: every chunk is on a free list.\<close>

definition all_free :: "(nat \<Rightarrow> addr list) \<Rightarrow> machine \<Rightarrow> bool" where
  "all_free fl s \<longleftrightarrow> dom (heap s) \<subseteq> frees fl (slab s)"

lemma prealloc_loop_spec:
  assumes "slab_inv fl s" and "\<forall>k. alloc_ok s k" and "distinct is"
    and "\<forall>i \<in> set is. 1 \<le> i \<and> i \<le> power_largest (slab s) \<and> slabs (mem_base (slab s) ! i) = 0"
    and "k + length is \<le> maxslabs"
    and "mem_malloced (slab s) +
        sum_list (map (\<lambda>i. cls_size (mem_base (slab s) ! i) * perslab (mem_base (slab s) ! i)) is) < 2 ^ 64"
  shows "\<exists>s' fl'. prealloc_loop is k maxslabs s = Some (Inr ((), s')) \<and> slab_inv fl' s' \<and>
     slab_frame s s' \<and>
     (\<forall>i < length (mem_base (slab s)). slabs (mem_base (slab s') ! i) =
        (if i \<in> set is then 1 else slabs (mem_base (slab s) ! i))) \<and>
     (\<forall>i < length (mem_base (slab s)). length (fl' i) =
        (if i \<in> set is then perslab (mem_base (slab s) ! i) else 0) + length (fl i)) \<and>
     mem_malloced (slab s') = mem_malloced (slab s) +
        sum_list (map (\<lambda>i. cls_size (mem_base (slab s) ! i) * perslab (mem_base (slab s) ! i)) is) \<and>
     (all_free fl s \<longrightarrow> all_free fl' s')"
  using assms
proof (induction "is" arbitrary: s fl k)
  case Nil
  then show ?case by (intro exI [of _ s] exI [of _ fl]) (simp add: ret_def)
next
  case (Cons i js)
  have i: "1 \<le> i" "i \<le> power_largest (slab s)" "slabs (mem_base (slab s) ! i) = 0"
    using Cons.prems(4) by auto
  have len: "length (mem_base (slab s)) = Suc (power_largest (slab s))"
    using Cons.prems(1) by (simp add: slab_inv_def classes_ok_def)
  have "\<not> page_refused (slab s) i" using i(3) by (simp add: page_refused_def)
  with do_slabs_newslab_spec [OF Cons.prems(1) i(1,2)] Cons.prems(2) obtain s1 fl1 ptr where
    s1: "do_slabs_newslab i s = Some (Inr (1, s1))" "slab_inv fl1 s1" "slab_frame s s1"
      "fl1 = fl(i := rev (page_chunks ptr (cls_size (mem_base (slab s) ! i)) (perslab (mem_base (slab s) ! i))) @ fl i)"
      "mem_malloced (slab s1) = (mem_malloced (slab s) +
         cls_size (mem_base (slab s) ! i) * perslab (mem_base (slab s) ! i)) mod 2 ^ 64"
      "\<forall>j < length (mem_base (slab s)). slabs (mem_base (slab s1) ! j) =
         (if j = i then slabs (mem_base (slab s) ! i) + 1 else slabs (mem_base (slab s) ! j))"
      "\<forall>a \<in> dom (heap s1). a \<notin> frees fl1 (slab s1) \<longrightarrow> a \<in> dom (heap s) \<and> a \<notin> frees fl (slab s)"
    by (metis zero_neq_one)
  have free1: "all_free fl s \<longrightarrow> all_free fl1 s1" using s1(7) by (auto simp: all_free_def)
  note fr = slab_frame_fields [OF s1(3)]
  have same: "cls_size (mem_base (slab s1) ! j) = cls_size (mem_base (slab s) ! j)"
      "perslab (mem_base (slab s1) ! j) = perslab (mem_base (slab s) ! j)"
    if "j < length (mem_base (slab s))" for j
    using that s1(3) by (simp_all add: slab_frame_def same_classes_def)
  have js: "\<forall>j \<in> set js. 1 \<le> j \<and> j \<le> power_largest (slab s1) \<and> slabs (mem_base (slab s1) ! j) = 0"
    using Cons.prems(3,4) s1(6) len fr(12) by auto
  have "\<forall>k. alloc_ok s1 k" "distinct js" "Suc k + length js \<le> maxslabs"
    using Cons.prems(2,3,5) fr(9) by auto
  note next_state = this
  have total: "sum_list (map (\<lambda>i. cls_size (mem_base (slab s1) ! i) * perslab (mem_base (slab s1) ! i)) js) =
      sum_list (map (\<lambda>i. cls_size (mem_base (slab s) ! i) * perslab (mem_base (slab s) ! i)) js)"
    using js same len fr(12) by (intro arg_cong [where f = sum_list] map_cong) auto
  have mm1: "mem_malloced (slab s1) = mem_malloced (slab s) +
       cls_size (mem_base (slab s) ! i) * perslab (mem_base (slab s) ! i)"
    using s1(5) Cons.prems(6) by simp
  have "mem_malloced (slab s1) +
      sum_list (map (\<lambda>i. cls_size (mem_base (slab s1) ! i) * perslab (mem_base (slab s1) ! i)) js) < 2 ^ 64"
    using Cons.prems(6) mm1 total by (simp add: add.assoc)
  from Cons.IH [OF s1(2) next_state(1,2) js next_state(3) this] obtain s' fl' where
    s': "prealloc_loop js (Suc k) maxslabs s1 = Some (Inr ((), s'))" "slab_inv fl' s'" "slab_frame s1 s'"
      "\<forall>j < length (mem_base (slab s1)). slabs (mem_base (slab s') ! j) =
        (if j \<in> set js then 1 else slabs (mem_base (slab s1) ! j))"
      "\<forall>j < length (mem_base (slab s1)). length (fl' j) =
        (if j \<in> set js then perslab (mem_base (slab s1) ! j) else 0) + length (fl1 j)"
      "mem_malloced (slab s') = mem_malloced (slab s1) +
        sum_list (map (\<lambda>i. cls_size (mem_base (slab s1) ! i) * perslab (mem_base (slab s1) ! i)) js)"
      "all_free fl1 s1 \<longrightarrow> all_free fl' s'"
    by blast
  have "prealloc_loop (i # js) k maxslabs s = Some (Inr ((), s'))"
    using s1(1) s'(1) Cons.prems(5) by (simp add: prog_defs)
  moreover have "mem_malloced (slab s') = mem_malloced (slab s) + sum_list
      (map (\<lambda>i. cls_size (mem_base (slab s) ! i) * perslab (mem_base (slab s) ! i)) (i # js))"
    using s'(6) mm1 total by simp
  moreover have "\<forall>j < length (mem_base (slab s)). slabs (mem_base (slab s') ! j) =
        (if j \<in> set (i # js) then 1 else slabs (mem_base (slab s) ! j))"
    using s'(4) s1(6) i(3) Cons.prems(3) fr(13) by auto
  moreover have "\<forall>j < length (mem_base (slab s)). length (fl' j) =
        (if j \<in> set (i # js) then perslab (mem_base (slab s) ! j) else 0) + length (fl j)"
    using s'(5) s1(4) Cons.prems(3) fr(13) same by auto
  ultimately show ?case using s'(2,7) free1 slab_frame_trans [OF s1(3) s'(3)] by blast
qed

text \<open>The pages of a table add up to less than \<open>2 ^ 64\<close> bytes.\<close>

lemma pages_total:
  assumes "classes_ok sl"
  shows "sum_list (map (\<lambda>i. cls_size (mem_base sl ! i) * perslab (mem_base sl ! i)) [1..<power_largest sl])
     < 2 ^ 64"
proof -
  have "(\<Sum>i = 1..<power_largest sl. cls_size (mem_base sl ! i) * perslab (mem_base sl ! i)) \<le>
      card {1..<power_largest sl} * 2 ^ 31"
    using sum_bounded_above [of "{1..<power_largest sl}"
        "\<lambda>i. cls_size (mem_base sl ! i) * perslab (mem_base sl ! i)" "2 ^ 31"]
      less_imp_le [OF page_len_ok(2) [OF assms]] by simp
  also have "\<dots> < 2 ^ 64"
  proof -
    have "power_largest sl \<le> POWER_LARGEST" using assms by (simp only: classes_ok_def)
    then have "card {1..<power_largest sl} \<le> 200" by (simp add: POWER_LARGEST_def)
    then show ?thesis by simp
  qed
  finally show ?thesis by (simp add: interv_sum_list_conv_sum_set_nat)
qed

text \<open>The constructor on an empty heap.\<close>

lemma slab_ctor_spec:
  assumes st: "settings_ok (mem_setting s)"
    and boot: "heap s = Map.empty" "0 < brk s" "\<forall>k. alloc_ok s k"
  shows "\<exists>s' fl. slab_ctor limit 6 5 s = Some (Inr ((), s')) \<and> slab_inv fl s' \<and>
     slab_frame (s\<lparr>slab := slab_table limit 6 5 (mem_setting s)\<rparr>) s' \<and>
     (\<forall>i \<in> {1..<power_largest (slab s')}. slabs (mem_base (slab s') ! i) = 1 \<and>
        length (fl i) = perslab (mem_base (slab s') ! i)) \<and>
     fl (power_largest (slab s')) = [] \<and>
     mem_malloced (slab s') = (\<Sum>i = 1..<power_largest (slab s').
        cls_size (mem_base (slab s') ! i) * perslab (mem_base (slab s') ! i)) \<and> all_free fl s'"
proof -
  let ?sl = "slab_table limit 6 5 (mem_setting s)"
  let ?s = "s\<lparr>slab := ?sl\<rparr>"
  let ?is = "[1..<power_largest ?sl]"
  note t = slab_table_facts [OF st, of limit]
  have zero: "mem_base ?sl ! 0 = slabclass_init"
    using ideal_classes_prefix [of 6 5 "unat (item_size_max (mem_setting s))" "POWER_SMALLEST - 1"
        "sizeof_base_item + unat (chunk_size (mem_setting s))" "[slabclass_init]"]
    by (auto simp: slab_table_def split: prod.splits)
  have fresh: "slots (mem_base ?sl ! i) = 0 \<and> sl_curr (mem_base ?sl ! i) = 0 \<and>
      slabs (mem_base ?sl ! i) = 0 \<and> list_size (mem_base ?sl ! i) = 0 \<and> slab_list (mem_base ?sl ! i) = []"
    if "i < length (mem_base ?sl)" for i
    using that t(1) zero by (cases "i = 0") (auto simp: table_ok_def fresh_class_def slabclass_init_def)
  have "slab_inv (\<lambda>_. []) ?s"
    using t(8) boot fresh
    by (auto simp: slab_inv_def heap_ok_def free_ok_def class_free_def pages_ok_def)
  moreover have "\<forall>i \<in> set ?is. 1 \<le> i \<and> i \<le> power_largest (slab ?s) \<and> slabs (mem_base (slab ?s) ! i) = 0"
    using fresh t(1) by (auto simp: table_ok_def)
  moreover have "0 + length ?is \<le> POWER_LARGEST" using t(3) by simp
  moreover have "mem_malloced (slab ?s) + sum_list (map (\<lambda>i. cls_size (mem_base (slab ?s) ! i) *
      perslab (mem_base (slab ?s) ! i)) ?is) < 2 ^ 64"
    using pages_total [OF t(8)] t(6) by simp
  ultimately obtain s' fl where s': "prealloc_loop ?is 0 POWER_LARGEST ?s = Some (Inr ((), s'))"
      "slab_inv fl s'" "slab_frame ?s s'"
      "\<forall>i < length (mem_base ?sl). slabs (mem_base (slab s') ! i) =
        (if i \<in> set ?is then 1 else slabs (mem_base ?sl ! i))"
      "\<forall>i < length (mem_base ?sl). length (fl i) =
        (if i \<in> set ?is then perslab (mem_base ?sl ! i) else 0)"
      "mem_malloced (slab s') = mem_malloced ?sl +
        sum_list (map (\<lambda>i. cls_size (mem_base ?sl ! i) * perslab (mem_base ?sl ! i)) ?is)"
      "all_free fl s'"
    using prealloc_loop_spec [of "\<lambda>_. []" ?s ?is 0 POWER_LARGEST] boot by (fastforce simp: all_free_def)
  have len: "length (mem_base ?sl) = Suc (power_largest ?sl)" using t(1) by (simp add: table_ok_def)
  have same: "power_largest (slab s') = power_largest ?sl"
      "i < length (mem_base ?sl) \<Longrightarrow> cls_size (mem_base (slab s') ! i) = cls_size (mem_base ?sl ! i) \<and>
         perslab (mem_base (slab s') ! i) = perslab (mem_base ?sl ! i)" for i
    using s'(3) by (simp_all add: slab_frame_def same_classes_def)
  have "slab_ctor limit 6 5 s = Some (Inr ((), s'))"
    using s'(1) make_table_ideal [OF st, of limit]
    by (simp add: slab_ctor_def slabs_preallocate_def prog_defs POWER_SMALLEST_def)
  moreover have "fl (power_largest (slab s')) = []"
    using s'(5) [rule_format, of "power_largest ?sl"] len same(1) by simp
  moreover have "mem_malloced (slab s') = (\<Sum>i = 1..<power_largest (slab s').
        cls_size (mem_base (slab s') ! i) * perslab (mem_base (slab s') ! i))"
    using s'(6) t(6) same len by (simp add: interv_sum_list_conv_sum_set_nat)
  ultimately show ?thesis using s'(2-5,7) same len
    by (intro exI [of _ s'] exI [of _ fl]) auto
qed

section \<open>Properties\<close>

text \<open>The server's own configuration, for the closed instances below.\<close>

definition fresh_server :: machine where
  "fresh_server = blank (\<lambda>_. True) (\<lambda>n. 1700000000 + of_nat n) default_settings"

lemma default_size_max: "unat (item_size_max default_settings) = 1048576"
  by (simp add: default_settings_def)

lemma fresh_server_fields [simp]:
  "heap fresh_server = Map.empty" "0 < brk fresh_server" "alloc_ok fresh_server k"
  "mem_setting fresh_server = default_settings"
  by (simp_all add: fresh_server_def blank_def)

lemma fresh_ctor:
  obtains s fl where "slab_ctor 10000000 6 5 fresh_server = Some (Inr ((), s))" "slab_inv fl s"
    "power_largest (slab s) = power_largest (slab_table 10000000 6 5 default_settings)"
    "alloc_ok s = (\<lambda>_. True)" "\<not> slabs_lock (slab s)"
    "all_free fl s" "mem_setting s = default_settings" "\<not> cache_lock s"
    "same_classes (slab_table 10000000 6 5 default_settings) (slab s)"
    "\<And>i. 1 \<le> i \<Longrightarrow> i < power_largest (slab s) \<Longrightarrow> length (fl i) = perslab (mem_base (slab s) ! i)" "last_cas_id s = 0"
proof -
  have st: "settings_ok (mem_setting fresh_server)" by simp
  obtain s fl where s: "slab_ctor 10000000 6 5 fresh_server = Some (Inr ((), s))" "slab_inv fl s"
      "slab_frame (fresh_server\<lparr>slab := slab_table 10000000 6 5 default_settings\<rparr>) s"
      "\<forall>i \<in> {1..<power_largest (slab s)}. slabs (mem_base (slab s) ! i) = 1 \<and>
        length (fl i) = perslab (mem_base (slab s) ! i)" "all_free fl s"
    using slab_ctor_spec [OF st, of 10000000] by auto
  note f = slab_frame_fields [OF s(3)]
  have "\<not> slabs_lock (slab_table 10000000 6 5 default_settings)"
    by (rule slab_table_facts(7)) simp
  then show ?thesis
    using f s by (intro that [of s fl]) (simp_all add: fresh_server_def blank_def slab_frame_def)
qed

text \<open>C16: When the largest item holds a header and is smaller than \<open>2 ^ 31\<close> bytes, and the header
  and the chunk size add up to less than \<open>2 ^ 32\<close>, the 32-bit arithmetic of the constructor
  neither wraps nor divides by zero, and the table it builds is well formed: between 1 and 200
  classes of growing chunk sizes, each at least as large as the header, the last one as large
  as the largest item, and no page larger than the largest item.\<close>
theorem slab_table_wellformed:
  assumes "sizeof_base_item \<le> unat (item_size_max st)" and "unat (item_size_max st) < 2 ^ 31"
    and "sizeof_base_item + unat (chunk_size st) < 2 ^ 32"
  shows "\<exists>sl. make_table limit 6 5 st = Inr sl \<and> classes_ok sl \<and>
    cls_size (mem_base sl ! power_largest sl) = unat (item_size_max st) \<and>
    (\<forall>i \<in> {1..power_largest sl}.
       cls_size (mem_base sl ! i) * perslab (mem_base sl ! i) \<le> unat (item_size_max st))"
proof -
  have st: "settings_ok st" using assms by (simp add: settings_ok_def)
  note t = slab_table_facts [OF st, of limit]
  from t(1) have "\<forall>i \<in> {1..power_largest (slab_table limit 6 5 st)}.
      cls_size (mem_base (slab_table limit 6 5 st) ! i) * perslab (mem_base (slab_table limit 6 5 st) ! i)
        \<le> unat (item_size_max st)"
    by (simp add: table_ok_def fresh_class_def)
  with make_table_ideal [OF st] t(4,8) show ?thesis by blast
qed

lemma slab_table_wellformed_witness:
  "\<exists>sl. make_table 10000000 6 5 default_settings = Inr sl \<and> classes_ok sl \<and>
     cls_size (mem_base sl ! power_largest sl) = 1048576"
  using slab_table_wellformed [of default_settings 10000000]
  by (auto simp: default_settings_def layout)

text \<open>With the server's settings (chunk size 48, items up to 1 MiB, factor 1.2) there are 50
  classes, from 104 bytes to 1 MiB.\<close>
theorem default_table:
  "power_largest (slab_table 10000000 6 5 default_settings) = 50 \<and>
   map cls_size (take 5 (mem_base (slab_table 10000000 6 5 default_settings))) = [0, 104, 128, 160, 192] \<and>
   map perslab (take 5 (mem_base (slab_table 10000000 6 5 default_settings))) = [0, 10082, 8192, 6553, 5461]"
  by (simp add: slab_table_def default_settings_def ideal_classes.simps align_up_def slabclass_init_def
      CHUNK_ALION_BYTES_def power_defs Let_def sizeof_base_item_def new_class_def)

text \<open>\<open>slabs_clsid\<close> never reads past the class table and returns the best fit: 0 exactly for a
  size of 0 or one larger than the largest class, and otherwise the first class whose chunks
  are large enough.\<close>
theorem slabs_clsid_best_fit:
  assumes "classes_ok (slab s)"
  shows "\<exists>r. slabs_clsid sz s = Some (Inr (r, s)) \<and> r \<le> power_largest (slab s) \<and>
    (r = 0 \<longleftrightarrow> sz = 0 \<or> cls_size (mem_base (slab s) ! power_largest (slab s)) < sz) \<and>
    (r \<noteq> 0 \<longrightarrow> sz \<le> cls_size (mem_base (slab s) ! r) \<and>
       (\<forall>j \<in> {1..<r}. cls_size (mem_base (slab s) ! j) < sz))"
proof -
  obtain r where "clsid_of (slab s) sz = Inr r" and *: "r \<le> power_largest (slab s) \<and>
    (r = 0 \<longleftrightarrow> sz = 0 \<or> cls_size (mem_base (slab s) ! power_largest (slab s)) < sz) \<and>
    (r \<noteq> 0 \<longrightarrow> sz \<le> cls_size (mem_base (slab s) ! r) \<and>
       (\<forall>j \<in> {1..<r}. cls_size (mem_base (slab s) ! j) < sz))"
    using clsid_of_spec [OF assms, of sz] by blast
  then have "slabs_clsid sz s = Some (Inr (r, s))" by (simp add: slabs_clsid_def prog_defs)
  with * show ?thesis by blast
qed

lemma slabs_clsid_best_fit_witness:
  "\<exists>r. slabs_clsid 100 (fresh_server\<lparr>slab := slab_table 10000000 6 5 default_settings\<rparr>) =
     Some (Inr (r, fresh_server\<lparr>slab := slab_table 10000000 6 5 default_settings\<rparr>)) \<and> r \<noteq> 0"
proof -
  note t = slab_table_facts [OF default_settings_ok, of 10000000]
  let ?s = "fresh_server\<lparr>slab := slab_table 10000000 6 5 default_settings\<rparr>"
  have "classes_ok (slab ?s)" using t(8) by simp
  from slabs_clsid_best_fit [OF this, of 100] show ?thesis
    using t(4) by (auto simp: default_size_max)
qed

text \<open>The table of the server's settings, spelled out: chunk size and chunks per page.\<close>

lemma default_classes:
  "mem_base (slab_table 10000000 6 5 default_settings) = slabclass_init #
     map (\<lambda>(z, n). new_class z n) [
       (104, 10082), (128, 8192), (160, 6553), (192, 5461), (232, 4519), (280, 3744), (336,
       3120), (408, 2570), (496, 2114), (600, 1747), (720, 1456), (864, 1213), (1040, 1008),
       (1248, 840), (1504, 697), (1808, 579), (2176, 481), (2616, 400), (3144, 333), (3776,
       277), (4536, 231), (5448, 192), (6544, 160), (7856, 133), (9432, 111), (11320, 92),
       (13584, 77), (16304, 64), (19568, 53), (23488, 44), (28192, 37), (33832, 30), (40600,
       25), (48720, 21), (58464, 17), (70160, 14), (84192, 12), (101032, 10), (121240, 8),
       (145488, 7), (174592, 6), (209512, 5), (251416, 4), (301704, 3), (362048, 2), (434464,
       2), (521360, 2), (625632, 1), (750760, 1), (1048576, 1)]"
  by (simp add: slab_table_def default_settings_def ideal_classes.simps align_up_def
      CHUNK_ALION_BYTES_def power_defs Let_def sizeof_base_item_def)

lemma default_largest: "power_largest (slab_table 10000000 6 5 default_settings) = 50"
  by (simp add: slab_table_def default_settings_def ideal_classes.simps align_up_def
      CHUNK_ALION_BYTES_def power_defs Let_def sizeof_base_item_def)

lemma perslab_new_class [simp]: "perslab (new_class z n) = n"
  by (simp add: new_class_def)

lemma default_pages_total:
  "(\<Sum>i = 1..<50. cls_size (mem_base (slab_table 10000000 6 5 default_settings) ! i) *
      perslab (mem_base (slab_table 10000000 6 5 default_settings) ! i)) = 49491928"
proof -
  let ?mb = "mem_base (slab_table 10000000 6 5 default_settings)"
  let ?g = "\<lambda>p. cls_size p * perslab p"
  have len: "length ?mb = 51" unfolding default_classes by simp
  have "(\<Sum>i = 1..<50. ?g (?mb ! i)) = sum_list (map (\<lambda>i. ?g (?mb ! i)) [1..<50])"
    by (simp only: interv_sum_list_conv_sum_set_nat set_upt)
  also have "map (\<lambda>i. ?g (?mb ! i)) [1..<50] = map ?g (drop 1 (take 50 ?mb))"
    by (rule nth_equalityI) (simp_all add: len)
  also have "sum_list \<dots> = 49491928"
    unfolding default_classes by simp
  finally show ?thesis .
qed

text \<open>C15: For settings of the sizes of the previous property, the constructor returns (when the system
  grants memory) in a sound state: every class but the largest has exactly one page, cut into as many free chunks as the page holds, and the
  memory handed out is the sum of those pages.\<close>
theorem slab_ctor_preallocates:
  assumes "sizeof_base_item \<le> unat (item_size_max (mem_setting s))"
    and "unat (item_size_max (mem_setting s)) < 2 ^ 31"
    and "sizeof_base_item + unat (chunk_size (mem_setting s)) < 2 ^ 32"
    and "heap s = Map.empty" and "0 < brk s" and "\<forall>k. alloc_ok s k"
  shows "\<exists>s' fl. slab_ctor limit 6 5 s = Some (Inr ((), s')) \<and> slab_inv fl s' \<and>
     (\<forall>i \<in> {1..<power_largest (slab s')}. slabs (mem_base (slab s') ! i) = 1 \<and>
        length (fl i) = perslab (mem_base (slab s') ! i)) \<and>
     fl (power_largest (slab s')) = [] \<and>
     mem_malloced (slab s') = (\<Sum>i = 1..<power_largest (slab s').
        cls_size (mem_base (slab s') ! i) * perslab (mem_base (slab s') ! i))"
proof -
  have "settings_ok (mem_setting s)" using assms(1-3) by (simp add: settings_ok_def)
  from slab_ctor_spec [OF this assms(4-6), of limit] show ?thesis by blast
qed

lemma slab_ctor_preallocates_witness:
  "\<exists>s' fl. slab_ctor 10000000 6 5 fresh_server = Some (Inr ((), s')) \<and> slab_inv fl s'"
  using slab_ctor_preallocates [of fresh_server 10000000]
  by (auto simp: default_settings_def layout)

text \<open>C34: With the server's settings the pages taken at start add up to 49 MB, five times the
  limit of 10 MB, because the limit does not apply to the first page of a class. In the state
  the constructor leaves, each of the classes 1 to 49, asked for a page, is refused it.\<close>
theorem default_limit_exceeded_at_start:
  "\<exists>s' fl. slab_default_ctor fresh_server = Some (Inr ((), s')) \<and> slab_inv fl s' \<and>
     mem_limit (slab s') = 10000000 \<and> mem_malloced (slab s') = 49491928 \<and>
     list_all (\<lambda>i. page_refused (slab s') i \<and> do_slabs_newslab i s' = Some (Inr (0, s'))) [1..<50]"
proof -
  let ?sl = "slab_table 10000000 6 5 default_settings"
  have st: "settings_ok (mem_setting fresh_server)" by simp
  obtain s fl where s: "slab_ctor 10000000 6 5 fresh_server = Some (Inr ((), s))" "slab_inv fl s"
      "slab_frame (fresh_server\<lparr>slab := ?sl\<rparr>) s"
      "\<forall>i \<in> {1..<power_largest (slab s)}. slabs (mem_base (slab s) ! i) = 1"
      "mem_malloced (slab s) = (\<Sum>i = 1..<power_largest (slab s).
        cls_size (mem_base (slab s) ! i) * perslab (mem_base (slab s) ! i))"
    using slab_ctor_spec [OF st, of 10000000] by auto
  note f = slab_frame_fields [OF s(3), simplified]
  have same: "cls_size (mem_base (slab s) ! i) = cls_size (mem_base ?sl ! i)"
      "perslab (mem_base (slab s) ! i) = perslab (mem_base ?sl ! i)" if "i < 51" for i
    using s(3) that by (simp_all add: slab_frame_def same_classes_def default_classes)
  have pl: "power_largest (slab s) = 50" using f(12) default_largest by simp
  have lim: "mem_limit (slab s) = 10000000" using f(11) by (simp add: slab_table_def split: prod.splits)
  have "(\<Sum>i = 1..<50. cls_size (mem_base (slab s) ! i) * perslab (mem_base (slab s) ! i)) = 49491928"
    unfolding default_pages_total [symmetric] by (rule sum.cong) (simp_all add: same)
  then have mm: "mem_malloced (slab s) = 49491928" using s(5) pl by simp
  have co: "classes_ok (slab s)" using s(2) by (simp add: slab_inv_def)
  have ref: "page_refused (slab s) i" if "i \<in> {1..49}" for i
  proof -
    have i: "1 \<le> i" "i \<le> power_largest (slab s)" using that pl by auto
    show ?thesis
      using that s(4) pl mm lim page_len_ok [OF co i] by (simp add: page_refused_def)
  qed
  have "do_slabs_newslab i s = Some (Inr (0, s))" if i: "i \<in> {1..49}" for i
    using do_slabs_newslab_spec [OF s(2), of i] i pl ref [OF i] by auto
  with ref have "list_all (\<lambda>i. page_refused (slab s) i \<and> do_slabs_newslab i s = Some (Inr (0, s))) [1..<50]"
    unfolding list_all_iff set_upt by auto
  then show ?thesis using s(1,2) lim mm unfolding slab_default_ctor_def by blast
qed

text \<open>C14: The allocator is total and safe. In a sound state (\<open>slab_inv\<close>: the free lists and page tables
  are as they should be and the length of a page of each class is positive and below \<open>2 ^ 31\<close>, which
  is what the constructor makes of sane settings) \<open>slabs_alloc\<close> takes and releases its mutex, never runs into a fault, keeps the state sound, does not write a cell in use, and
  returns null, with nothing changed for the caller, or a chunk that was free or is new, is on
  no free list any more, and has the capacity of its class. It returns null when the free list
  is empty and the limit forbids a page, and only then if the system never refuses memory.\<close>
theorem slabs_alloc_safe:
  assumes "slab_inv fl s" and "1 \<le> cid" "cid \<le> power_largest (slab s)" and "\<not> slabs_lock (slab s)"
  shows "\<exists>r s' fl'. slabs_alloc sz cid s = Some (Inr (r, s')) \<and> slab_inv fl' s' \<and>
     \<not> slabs_lock (slab s') \<and>
     (\<forall>a c. heap s a = Some c \<longrightarrow> a \<notin> frees fl (slab s) \<longrightarrow> heap s' a = Some c) \<and>
     (if r = 0 then fl' = fl \<and> heap s' = heap s
      else r \<notin> frees fl' (slab s') \<and> (r \<in> frees fl (slab s) \<or> heap s r = None) \<and>
        (\<exists>c. heap s' r = Some c \<and> length (it_data c) = cls_size (mem_base (slab s) ! cid) - offset_data)) \<and>
     (fl cid = [] \<and> page_refused (slab s) cid \<longrightarrow> r = 0) \<and>
     ((\<forall>k. alloc_ok s k) \<and> \<not> (fl cid = [] \<and> page_refused (slab s) cid) \<longrightarrow> r \<noteq> 0)"
proof -
  obtain r s' fl' where r: "slabs_alloc sz cid s = Some (Inr (r, s'))" "alloc_result fl s cid r fl' s'"
     "fl cid = [] \<and> page_refused (slab s) cid \<longrightarrow> r = 0"
     "(\<forall>k. alloc_ok s k) \<and> \<not> (fl cid = [] \<and> page_refused (slab s) cid) \<longrightarrow> r \<noteq> 0"
    using slabs_alloc_spec [OF assms, of sz] by blast
  have "\<not> slabs_lock (slab s')"
    using r(2) assms(4) by (simp add: alloc_result_def slab_frame_def same_classes_def)
  with r show ?thesis
    unfolding alloc_result_def untouched_def free_cell_def
    by (intro exI [of _ r] exI [of _ s'] exI [of _ fl']) (auto split: if_splits)
qed

lemma slabs_alloc_safe_witness:
  "\<exists>s r s'. slab_ctor 10000000 6 5 fresh_server = Some (Inr ((), s)) \<and>
     slabs_alloc 100 1 s = Some (Inr (r, s')) \<and> r \<noteq> 0"
proof -
  obtain s fl where s: "slab_ctor 10000000 6 5 fresh_server = Some (Inr ((), s))" "slab_inv fl s"
    "power_largest (slab s) = power_largest (slab_table 10000000 6 5 default_settings)"
    "alloc_ok s = (\<lambda>_. True)" "\<not> slabs_lock (slab s)"
    "length (fl 1) = perslab (mem_base (slab s) ! 1)"
    by (rule fresh_ctor) (simp add: default_largest)
  have pl: "power_largest (slab s) = 50" using s(3) by (simp add: default_largest)
  have "0 < perslab (mem_base (slab s) ! 1)"
    using s(2) pl by (simp add: slab_inv_def classes_ok_def)
  with slabs_alloc_safe [OF s(2), of 1 100] pl s(1,4,5,6) show ?thesis by fastforce
qed

text \<open>C28: Freeing is the inverse of allocating: a chunk taken from a free list and given back for
  the same size leaves the free lists and the bytes requested of its class as they were.\<close>
theorem alloc_then_free_restores:
  assumes "slab_inv fl s" and "1 \<le> cid" "cid \<le> power_largest (slab s)" and "fl cid = x # xs"
  shows "\<exists>s1 s2. do_slabs_alloc sz cid s = Some (Inr (x, s1)) \<and>
     do_slabs_free x sz cid s1 = Some (Inr ((), s2)) \<and> slab_inv fl s2 \<and>
     requested (mem_base (slab s2) ! cid) = requested (mem_base (slab s) ! cid)"
  by (rule alloc_free_round [OF assms])

lemma alloc_then_free_restores_witness:
  "\<exists>s x s1 s2. slab_ctor 10000000 6 5 fresh_server = Some (Inr ((), s)) \<and>
     do_slabs_alloc 100 1 s = Some (Inr (x, s1)) \<and> do_slabs_free x 100 1 s1 = Some (Inr ((), s2))"
proof -
  obtain s fl where s: "slab_ctor 10000000 6 5 fresh_server = Some (Inr ((), s))" "slab_inv fl s"
    "power_largest (slab s) = power_largest (slab_table 10000000 6 5 default_settings)"
    "length (fl 1) = perslab (mem_base (slab s) ! 1)"
    by (rule fresh_ctor) (simp add: default_largest)
  have pl: "power_largest (slab s) = 50" using s(3) by (simp add: default_largest)
  have "0 < perslab (mem_base (slab s) ! 1)"
    using s(2) pl by (simp add: slab_inv_def classes_ok_def)
  then obtain x xs where "fl 1 = x # xs" using s(4) by (cases "fl 1") auto
  from alloc_then_free_restores [OF s(2) _ _ this, of 100] pl s(1) show ?thesis by auto
qed

text \<open>The slab mutex is not reentrant: a thread that holds it and enters the allocator again
  spins for ever.\<close>
theorem slabs_lock_not_reentrant:
  "thn lock_slabs (slabs_alloc sz cid) s = None \<and>
   thn lock_slabs (slabs_free x sz cid) s = None \<and>
   thn lock_slabs (slabs_adjust_mem_requested cid m n) s = None"
  unfolding slabs_alloc_def slabs_free_def slabs_adjust_mem_requested_def seqs.simps
  by (simp add: slabs_mutex.relock_never_returns)

end
