(* ===== verification/Hashing.thy ===== *)
theory Hashing
  imports Machine
begin

text \<open>
  The class \<open>HashTable\<close> of slab.cpp: the hash function, the table of buckets chained
  through \<open>h_next\<close>, its three operations, and the per-region item locks. A table with
  bucket chains \<open>bl\<close> is an association from keys to items; the operations are proved
  against that view.
\<close>

section \<open>The hash function\<close>

text \<open>\<open>key_s[i]\<close> is a signed \<open>char\<close>: it is sign-extended before it is added.\<close>

definition hash_step :: "u32 \<Rightarrow> char \<Rightarrow> u32" where
  "hash_step h c =
     (let h = h + scast (of_char c :: u8);
          h = h + push_bit 10 h
      in h XOR drop_bit 6 h)"

definition hash :: "byte list \<Rightarrow> u32" where
  "hash key =
     (let h = foldl hash_step 0 key;
          h = h + push_bit 3 h;
          h = h XOR drop_bit 11 h
      in h + push_bit 15 h)"

definition hashsize :: "nat \<Rightarrow> u64" where
  "hashsize n = push_bit n 1"

definition hashmask :: "nat \<Rightarrow> u64" where
  "hashmask n = hashsize n - 1"

definition hash_index :: "nat \<Rightarrow> u32 \<Rightarrow> nat" where
  "hash_index hp hv = unat (ucast hv AND hashmask hp)"

section \<open>The table\<close>

text \<open>The constructor; with argument 0 it leaves \<open>hashpower\<close> as it was in memory.\<close>

definition hashtable_ctor :: "nat \<Rightarrow> nat \<Rightarrow> HashTable" where
  "hashtable_ctor hashtable_init uninit =
     (let hp = (if hashtable_init \<noteq> 0 then hashtable_init else uninit);
          n = unat (hashsize hp)
      in \<lparr> primary_hashtable = replicate n 0, item_locks = replicate n False,
           item_lock_count = n, hashpower = hp \<rparr>)"

definition hashtable_default :: HashTable where
  "hashtable_default = hashtable_ctor 16 0"

definition get_bucket :: "u32 \<Rightarrow> (machine, addr) prog" where
  "get_bucket hv = bnd (gets hashtable) (\<lambda>ht.
     idx (primary_hashtable ht) (hash_index (hashpower ht) hv))"

definition set_bucket :: "u32 \<Rightarrow> addr \<Rightarrow> (machine, unit) prog" where
  "set_bucket hv p = thn (get_bucket hv) (modify (\<lambda>s. s\<lparr>hashtable := (hashtable s)
     \<lparr>primary_hashtable := (primary_hashtable (hashtable s))
        [hash_index (hashpower (hashtable s)) hv := p]\<rparr>\<rparr>))"

lemma wp_get_bucket [wp_rules]:
  "wp (get_bucket hv) Q s =
     (hash_index (hashpower (hashtable s)) hv < length (primary_hashtable (hashtable s)) \<and>
      Q (primary_hashtable (hashtable s) ! hash_index (hashpower (hashtable s)) hv) s)"
  by (simp add: get_bucket_def wp_rules)

lemma wp_set_bucket [wp_rules]:
  "wp (set_bucket hv p) Q s =
     (hash_index (hashpower (hashtable s)) hv < length (primary_hashtable (hashtable s)) \<and>
      Q () (s\<lparr>hashtable := (hashtable s)\<lparr>primary_hashtable := (primary_hashtable (hashtable s))
        [hash_index (hashpower (hashtable s)) hv := p]\<rparr>\<rparr>))"
  by (simp add: set_bucket_def wp_rules)

text \<open>\<open>(nkey == it->nkey) && (memcmp(key, it->data, nkey) == 0)\<close>.\<close>

definition key_matches :: "byte list \<Rightarrow> addr \<Rightarrow> (machine, bool) prog" where
  "key_matches key it = bnd (rd it) (\<lambda>c.
     if length key = unat (it_nkey c)
     then bnd (rd_data it 0 (length key)) (\<lambda>d. ret (d = key))
     else ret False)"

partial_function (option) find_loop :: "byte list \<Rightarrow> addr \<Rightarrow> (machine, addr) prog" where
  "find_loop key it s =
     (if it = 0 then ret 0
      else bnd (key_matches key it) (\<lambda>m.
        if m then ret it
        else bnd (rd it) (\<lambda>c. find_loop key (it_h_next c)))) s"

declare find_loop.simps [code]

definition hash_find :: "byte list \<Rightarrow> u32 \<Rightarrow> (machine, addr) prog" where
  "hash_find key hv = bnd (get_bucket hv) (\<lambda>it. find_loop key it)"

definition hash_insert :: "addr \<Rightarrow> u32 \<Rightarrow> (machine, nat) prog" where
  "hash_insert it hv = bnd (get_bucket hv) (\<lambda>b. thn (seqs [
     upd it (\<lambda>c. c\<lparr>it_h_next := b\<rparr>),
     set_bucket hv it,
     modify (\<lambda>s. s\<lparr>hashitems := hashitems s + 1\<rparr>)])
     (ret 1))"

text \<open>
  The scan of \<open>hash_delete\<close>: \<open>pos\<close> points to the \<open>h_next\<close> field of the item \<open>prev\<close>; the
  result is \<open>prev\<close> and the value of \<open>*pos\<close> where the scan stops.
\<close>

partial_function (option) delete_scan :: "byte list \<Rightarrow> addr \<Rightarrow> (machine, addr \<times> addr) prog" where
  "delete_scan key prev s =
     bnd (rd prev) (\<lambda>c.
       if it_h_next c = 0 then ret (prev, 0)
       else bnd (key_matches key (it_h_next c)) (\<lambda>m.
         if m then ret (prev, it_h_next c) else delete_scan key (it_h_next c))) s"

declare delete_scan.simps [code]

definition hash_delete :: "byte list \<Rightarrow> u32 \<Rightarrow> (machine, unit) prog" where
  "hash_delete key hv = bnd (get_bucket hv) (\<lambda>p.
     bnd (if p = 0 then ret False else bnd (key_matches key p) (\<lambda>m. ret (\<not> m))) (\<lambda>skip.
     if skip then bnd (delete_scan key p) (\<lambda>(prev, cur).
       whenP (cur \<noteq> 0) (thn (modify (\<lambda>s. s\<lparr>hashitems := hashitems s - 1\<rparr>))
         (bnd (rd cur) (\<lambda>c. seqs [
            upd cur (\<lambda>c. c\<lparr>it_h_next := 0\<rparr>),
            upd prev (\<lambda>d. d\<lparr>it_h_next := it_h_next c\<rparr>)]))))
     else set_bucket hv 0))"

section \<open>The item locks\<close>

definition lock_index :: "HashTable \<Rightarrow> u32 \<Rightarrow> nat" where
  "lock_index ht hv = hash_index (hashpower ht) hv mod item_lock_count ht"

definition set_item_lock :: "nat \<Rightarrow> bool \<Rightarrow> machine \<Rightarrow> machine" where
  "set_item_lock i b s =
     s\<lparr>hashtable := (hashtable s)\<lparr>item_locks := (item_locks (hashtable s))[i := b]\<rparr>\<rparr>"

definition hash_lock :: "u32 \<Rightarrow> (machine, unit) prog" where
  "hash_lock hv = bnd (gets hashtable) (\<lambda>ht.
     bnd (idx (item_locks ht) (lock_index ht hv)) (\<lambda>held.
     if held then never else modify (set_item_lock (lock_index ht hv) True)))"

definition hash_unlock :: "u32 \<Rightarrow> (machine, unit) prog" where
  "hash_unlock hv = bnd (gets hashtable) (\<lambda>ht.
     bnd (idx (item_locks ht) (lock_index ht hv)) (\<lambda>held.
     if held then modify (set_item_lock (lock_index ht hv) False) else fail UnlockNotHeld))"

text \<open>\<open>item_trylock\<close>: the lock it took, or none.\<close>

definition item_trylock :: "u32 \<Rightarrow> (machine, nat option) prog" where
  "item_trylock hv = bnd (gets hashtable) (\<lambda>ht.
     bnd (idx (item_locks ht) (lock_index ht hv)) (\<lambda>held.
     if held then ret None
     else thn (modify (set_item_lock (lock_index ht hv) True)) (ret (Some (lock_index ht hv)))))"

definition item_trylock_unlock :: "nat \<Rightarrow> (machine, unit) prog" where
  "item_trylock_unlock i = bnd (gets hashtable) (\<lambda>ht.
     bnd (idx (item_locks ht) i) (\<lambda>held.
     if held then modify (set_item_lock i False) else fail UnlockNotHeld))"

section \<open>The hash index\<close>

lemma hash_index_mod: "hash_index hp hv = unat hv mod 2 ^ hp"
proof -
  have "hashmask hp = (mask hp :: u64)"
    by (simp add: hashmask_def hashsize_def mask_eq_exp_minus_1 push_bit_of_1)
  then have "hash_index hp hv = unat (take_bit hp (ucast hv :: u64))"
    by (simp add: hash_index_def take_bit_eq_mask)
  also have "\<dots> = take_bit hp (unat (ucast hv :: u64))" by (simp add: unsigned_take_bit_eq)
  also have "unat (ucast hv :: u64) = unat hv"
  proof -
    have "unat hv < 2 ^ LENGTH(32)" by (rule unsigned_less)
    then show ?thesis by (simp add: unsigned_ucast_eq take_bit_nat_eq_self_iff)
  qed
  finally show ?thesis by (simp add: take_bit_eq_mod)
qed

lemma hash_index_less: "hash_index hp hv < 2 ^ hp"
  by (simp add: hash_index_mod)

lemma unat_hashsize: "n < 64 \<Longrightarrow> unat (hashsize n) = 2 ^ n"
proof -
  assume n: "n < 64"
  have "unat (of_nat (2 ^ n) :: u64) = 2 ^ n"
    using n by (simp only: unsigned_of_nat) (simp add: take_bit_nat_eq_self_iff)
  then show ?thesis by (simp add: hashsize_def push_bit_of_1)
qed

section \<open>Buckets as lists of items\<close>

definition key_at :: "(addr \<rightharpoonup> base_item) \<Rightarrow> addr \<Rightarrow> byte list" where
  "key_at h x = (case h x of None \<Rightarrow> [] | Some c \<Rightarrow> key_of c)"

definition readable :: "(addr \<rightharpoonup> base_item) \<Rightarrow> addr \<Rightarrow> bool" where
  "readable h x \<longleftrightarrow> (\<exists>c. h x = Some c \<and> unat (it_nkey c) \<le> length (it_data c))"

text \<open>
  A bucket \<open>b\<close> is a chain of items with readable keys that hash to \<open>b\<close>, no two with the
  same key.
\<close>

definition bucket_ok :: "(addr \<rightharpoonup> base_item) \<Rightarrow> nat \<Rightarrow> nat \<Rightarrow> addr \<Rightarrow> addr list \<Rightarrow> bool" where
  "bucket_ok h hp b p xs \<longleftrightarrow> chain h it_h_next p xs \<and>
     (\<forall>x \<in> set xs. readable h x \<and> hash_index hp (hash (key_at h x)) = b) \<and>
     distinct (map (key_at h) xs)"

definition hash_inv :: "(nat \<Rightarrow> addr list) \<Rightarrow> machine \<Rightarrow> bool" where
  "hash_inv bl s \<longleftrightarrow> (let ht = hashtable s; n = 2 ^ hashpower ht in
     length (primary_hashtable ht) = n \<and> item_lock_count ht = n \<and> length (item_locks ht) = n \<and>
     (\<forall>b < n. bucket_ok (heap s) (hashpower ht) b (primary_hashtable ht ! b) (bl b)))"

definition in_table :: "(nat \<Rightarrow> addr list) \<Rightarrow> machine \<Rightarrow> addr set" where
  "in_table bl s = (\<Union>b < 2 ^ hashpower (hashtable s). set (bl b))"

text \<open>What the table holds under a key.\<close>

definition entry_in :: "(addr \<rightharpoonup> base_item) \<Rightarrow> addr list \<Rightarrow> byte list \<Rightarrow> addr option" where
  "entry_in h xs key = find (\<lambda>x. key_at h x = key) xs"

definition entry :: "(nat \<Rightarrow> addr list) \<Rightarrow> machine \<Rightarrow> byte list \<Rightarrow> addr option" where
  "entry bl s key = entry_in (heap s) (bl (hash_index (hashpower (hashtable s)) (hash key))) key"

definition ptr_of :: "addr option \<Rightarrow> addr" where
  "ptr_of r = (case r of None \<Rightarrow> 0 | Some x \<Rightarrow> x)"

lemma ptr_of_simps [simp]: "ptr_of None = 0" "ptr_of (Some x) = x"
  by (simp_all add: ptr_of_def)

text \<open>Removing the entry of a key from a bucket, as \<open>hash_delete\<close> does it: a match at the
  head empties the bucket.\<close>

fun remove_key :: "(addr \<Rightarrow> byte list) \<Rightarrow> byte list \<Rightarrow> addr list \<Rightarrow> addr list" where
  "remove_key f k [] = []"
| "remove_key f k (x # xs) = (if f x = k then xs else x # remove_key f k xs)"

fun bucket_delete :: "(addr \<Rightarrow> byte list) \<Rightarrow> byte list \<Rightarrow> addr list \<Rightarrow> addr list" where
  "bucket_delete f k [] = []"
| "bucket_delete f k (x # xs) = (if f x = k then [] else x # remove_key f k xs)"

lemma set_remove_key: "set (remove_key f k xs) \<subseteq> set xs"
  by (induction xs) auto

lemma set_bucket_delete: "set (bucket_delete f k xs) \<subseteq> set xs"
  using set_remove_key [of f k "tl xs"] by (cases xs) auto

lemma remove_key_absent: "k \<notin> f ` set xs \<Longrightarrow> remove_key f k xs = xs"
  by (induction xs) auto

lemma distinct_remove_key: "distinct (map f xs) \<Longrightarrow> distinct (map f (remove_key f k xs))"
  by (induction xs) (auto dest!: subsetD [OF set_remove_key])

lemma distinct_bucket_delete: "distinct (map f xs) \<Longrightarrow> distinct (map f (bucket_delete f k xs))"
  by (cases xs) (auto simp: distinct_remove_key dest!: subsetD [OF set_remove_key])

lemma key_gone_remove: "distinct (map f xs) \<Longrightarrow> k \<notin> f ` set (remove_key f k xs)"
  by (induction xs) auto

lemma key_gone: "distinct (map f xs) \<Longrightarrow> k \<notin> f ` set (bucket_delete f k xs)"
  by (cases xs) (auto simp: key_gone_remove dest: key_gone_remove)

lemma entry_in_None: "entry_in h xs key = None \<longleftrightarrow> key \<notin> key_at h ` set xs"
  by (auto simp: entry_in_def find_None_iff)

lemma entry_in_Some: "entry_in h xs key = Some x \<Longrightarrow> x \<in> set xs \<and> key_at h x = key"
  by (auto simp: entry_in_def find_Some_iff)

section \<open>Reading the table\<close>

lemma key_matches_eq:
  assumes "readable (heap s) x" and "x \<noteq> 0"
  shows "key_matches key x s = Some (Inr (key_at (heap s) x = key, s))"
proof -
  obtain c where c: "heap s x = Some c" "unat (it_nkey c) \<le> length (it_data c)"
    using assms(1) by (auto simp: readable_def)
  have "wp (key_matches key x) (\<lambda>m s'. m = (key_at (heap s) x = key) \<and> s' = s) s"
    using c assms(2) by (auto simp: key_matches_def wp_rules key_at_def key_of_def)
  then show ?thesis by (auto simp: wp_iff)
qed

lemma find_loop_eq:
  assumes "chain (heap s) it_h_next p xs" and "\<forall>x \<in> set xs. readable (heap s) x"
  shows "find_loop key p s = Some (Inr (ptr_of (entry_in (heap s) xs key), s))"
  using assms
proof (induction xs arbitrary: p)
  case Nil
  then show ?case by (subst find_loop.simps) (simp add: prog_defs entry_in_def)
next
  case (Cons x xs)
  then obtain c where c: "heap s x = Some c" "p = x" "x \<noteq> 0" "chain (heap s) it_h_next (it_h_next c) xs"
    by auto
  have m: "key_matches key x s = Some (Inr (key_at (heap s) x = key, s))"
    using Cons.prems(2) c(3) by (intro key_matches_eq) auto
  show ?case
  proof (cases "key_at (heap s) x = key")
    case True
    then show ?thesis
      using m c(2,3) by (subst find_loop.simps) (simp add: bnd_def ret_def entry_in_def)
  next
    case False
    have "find_loop key (it_h_next c) s = Some (Inr (ptr_of (entry_in (heap s) xs key), s))"
      using Cons.prems(2) c(4) by (intro Cons.IH) auto
    then show ?thesis
      using m c False by (subst find_loop.simps) (simp add: bnd_def ret_def rd_def entry_in_def)
  qed
qed

lemma inv_bucket:
  assumes "hash_inv bl s"
  shows "hash_index (hashpower (hashtable s)) hv < length (primary_hashtable (hashtable s))"
    and "bucket_ok (heap s) (hashpower (hashtable s)) (hash_index (hashpower (hashtable s)) hv)
      (primary_hashtable (hashtable s) ! hash_index (hashpower (hashtable s)) hv)
      (bl (hash_index (hashpower (hashtable s)) hv))"
  using assms hash_index_less by (auto simp: hash_inv_def Let_def)

lemma hash_find_eq:
  assumes "hash_inv bl s"
  shows "hash_find key hv s = Some (Inr (ptr_of (entry_in (heap s)
     (bl (hash_index (hashpower (hashtable s)) hv)) key), s))"
  using inv_bucket [OF assms, of hv] find_loop_eq [of s]
  by (simp add: hash_find_def get_bucket_def idx_def prog_defs bucket_ok_def)

lemma hash_find_entry:
  "hash_inv bl s \<Longrightarrow> hash_find key (hash key) s = Some (Inr (ptr_of (entry bl s key), s))"
  by (simp add: hash_find_eq entry_def)

lemma entry_Some:
  assumes "hash_inv bl s" and "entry bl s key = Some x"
  shows "x \<in> in_table bl s" and "x \<noteq> 0" and "\<exists>c. heap s x = Some c \<and> key_of c = key"
proof -
  let ?b = "hash_index (hashpower (hashtable s)) (hash key)"
  have x: "x \<in> set (bl ?b)" "key_at (heap s) x = key"
    using assms(2) entry_in_Some by (auto simp: entry_def)
  then show "x \<in> in_table bl s" using hash_index_less by (auto simp: in_table_def)
  have "chain (heap s) it_h_next (primary_hashtable (hashtable s) ! ?b) (bl ?b)"
    using inv_bucket(2) [OF assms(1)] by (simp add: bucket_ok_def)
  from chain_dom [OF this x(1)] x(2) show "x \<noteq> 0" "\<exists>c. heap s x = Some c \<and> key_of c = key"
    by (auto simp: key_at_def)
qed

lemma in_table_D:
  assumes "hash_inv bl s" and "x \<in> in_table bl s"
  shows "x \<noteq> 0" and "readable (heap s) x" and "entry bl s (key_at (heap s) x) = Some x"
    and "x \<in> set (bl (hash_index (hashpower (hashtable s)) (hash (key_at (heap s) x))))"
proof -
  obtain b where b: "b < 2 ^ hashpower (hashtable s)" "x \<in> set (bl b)"
    using assms(2) by (auto simp: in_table_def)
  have ok: "bucket_ok (heap s) (hashpower (hashtable s)) b (primary_hashtable (hashtable s) ! b) (bl b)"
    using assms(1) b(1) by (simp add: hash_inv_def Let_def)
  have idx: "hash_index (hashpower (hashtable s)) (hash (key_at (heap s) x)) = b"
    using ok b(2) by (simp add: bucket_ok_def)
  show "x \<noteq> 0" "readable (heap s) x" using ok b(2) chain_dom unfolding bucket_ok_def by blast+
  show "x \<in> set (bl (hash_index (hashpower (hashtable s)) (hash (key_at (heap s) x))))"
    using idx b(2) by simp
  have "distinct (map (key_at (heap s)) (bl b))" using ok by (simp add: bucket_ok_def)
  then have "find (\<lambda>y. key_at (heap s) y = key_at (heap s) x) (bl b) = Some x"
    using b(2) by (induction "bl b" arbitrary: b rule: list.induct) (auto simp: find_Some_iff in_set_conv_nth distinct_conv_nth)
  then show "entry bl s (key_at (heap s) x) = Some x" using idx by (simp add: entry_def entry_in_def)
qed

section \<open>Frames of the table\<close>

text \<open>Everything but \<open>h_next\<close> of the cells is the same.\<close>

definition same_but_h_next :: "(addr \<rightharpoonup> base_item) \<Rightarrow> (addr \<rightharpoonup> base_item) \<Rightarrow> bool" where
  "same_but_h_next h h' \<longleftrightarrow>
     (\<forall>x. map_option (\<lambda>c. c\<lparr>it_h_next := 0\<rparr>) (h' x) = map_option (\<lambda>c. c\<lparr>it_h_next := 0\<rparr>) (h x))"

lemma same_but_h_next_refl [simp]: "same_but_h_next h h"
  by (simp add: same_but_h_next_def)

lemma same_but_h_next_trans:
  "same_but_h_next h h' \<Longrightarrow> same_but_h_next h' h'' \<Longrightarrow> same_but_h_next h h''"
  by (simp add: same_but_h_next_def)

lemma same_but_h_next_upd:
  "h x = Some c \<Longrightarrow> same_but_h_next h (h(x \<mapsto> c\<lparr>it_h_next := p\<rparr>))"
  by (simp add: same_but_h_next_def)

lemma same_but_h_next_cell:
  assumes "same_but_h_next h h'" and "h x = Some c"
  obtains c' where "h' x = Some c'" "c' = c\<lparr>it_h_next := it_h_next c'\<rparr>"
proof -
  have e: "map_option (\<lambda>c. c\<lparr>it_h_next := 0\<rparr>) (h' x) = Some (c\<lparr>it_h_next := 0\<rparr>)"
    using assms by (simp add: same_but_h_next_def)
  then obtain c' where "h' x = Some c'" "c'\<lparr>it_h_next := 0\<rparr> = c\<lparr>it_h_next := 0\<rparr>" by auto
  moreover from this(2) have "c' = c\<lparr>it_h_next := it_h_next c'\<rparr>" by (cases c'; cases c) simp
  ultimately show ?thesis using that by blast
qed

lemma same_but_h_next_keys:
  assumes "same_but_h_next h h'"
  shows "key_at h' x = key_at h x" and "readable h' x = readable h x" and "h' x = None \<longleftrightarrow> h x = None"
proof -
  show "h' x = None \<longleftrightarrow> h x = None"
    using assms unfolding same_but_h_next_def by (metis option.map_disc_iff)
  then have "key_at h' x = key_at h x \<and> readable h' x = readable h x"
  proof (cases "h x")
    case (Some c)
    obtain c' where c': "h' x = Some c'" "c' = c\<lparr>it_h_next := it_h_next c'\<rparr>"
      using same_but_h_next_cell [OF assms Some] by blast
    have "it_nkey c' = it_nkey c" "it_data c' = it_data c"
      by (subst c'(2), simp)+
    then show ?thesis using c'(1) Some by (simp add: key_at_def key_of_def readable_def)
  qed (simp add: key_at_def readable_def)
  then show "key_at h' x = key_at h x" "readable h' x = readable h x" by simp_all
qed

text \<open>A change elsewhere that keeps chain fields and keys keeps the table.\<close>

definition keys_kept :: "addr set \<Rightarrow> (addr \<rightharpoonup> base_item) \<Rightarrow> (addr \<rightharpoonup> base_item) \<Rightarrow> bool" where
  "keys_kept T h h' \<longleftrightarrow> (\<forall>x \<in> T. \<forall>c. h x = Some c \<longrightarrow>
     (\<exists>c'. h' x = Some c' \<and> it_h_next c' = it_h_next c \<and> it_nkey c' = it_nkey c \<and> it_data c' = it_data c))"

lemma keys_kept_refl [simp]: "keys_kept T h h"
  by (simp add: keys_kept_def)

lemma keys_kept_trans: "keys_kept T h h' \<Longrightarrow> keys_kept T h' h'' \<Longrightarrow> keys_kept T h h''"
  unfolding keys_kept_def by metis

lemma keys_kept_upd:
  "h x = Some c \<Longrightarrow> it_h_next c' = it_h_next c \<Longrightarrow> it_nkey c' = it_nkey c \<Longrightarrow> it_data c' = it_data c \<Longrightarrow>
   keys_kept T h (h(x \<mapsto> c'))"
  by (auto simp: keys_kept_def)

lemma keys_kept_off: "x \<notin> T \<Longrightarrow> keys_kept T h (h(x := r))"
  by (auto simp: keys_kept_def)

lemma bucket_ok_kept:
  assumes "bucket_ok h hp b p xs" and "keys_kept (set xs) h h'"
  shows "bucket_ok h' hp b p xs" and "x \<in> set xs \<Longrightarrow> key_at h' x = key_at h x"
proof -
  have cell: "\<exists>c c'. h x = Some c \<and> h' x = Some c' \<and> it_h_next c' = it_h_next c \<and>
      it_nkey c' = it_nkey c \<and> it_data c' = it_data c" if "x \<in> set xs" for x
    using assms that unfolding bucket_ok_def readable_def keys_kept_def by metis
  then show key: "x \<in> set xs \<Longrightarrow> key_at h' x = key_at h x" for x
    by (force simp: key_at_def key_of_def)
  have "readable h' x = readable h x" if "x \<in> set xs" for x
    using cell [OF that] by (auto simp: readable_def)
  moreover have "chain h' it_h_next p xs"
  proof (rule chain_cong [of h])
    show "chain h it_h_next p xs" using assms(1) by (simp add: bucket_ok_def)
    show "\<exists>c'. h' x = Some c' \<and> it_h_next c' = it_h_next d" if "x \<in> set xs" "h x = Some d" for x d
      using cell [OF that(1)] that(2) by auto
  qed
  moreover have "distinct (map (key_at h') xs)"
  proof -
    have "map (key_at h') xs = map (key_at h) xs" using key by simp
    then show ?thesis using assms(1) unfolding bucket_ok_def by metis
  qed
  ultimately show "bucket_ok h' hp b p xs" using assms(1) key by (simp add: bucket_ok_def)
qed

lemma hash_inv_kept:
  assumes "hash_inv bl s" and "keys_kept (in_table bl s) (heap s) (heap s')"
    and "hashtable s' = hashtable s"
  shows "hash_inv bl s'" and "entry bl s' key = entry bl s key"
proof -
  have sub: "keys_kept (set (bl b)) (heap s) (heap s')" if "b < 2 ^ hashpower (hashtable s)" for b
    using assms(2) that unfolding keys_kept_def in_table_def by blast
  show "hash_inv bl s'"
    using assms(1,3) sub bucket_ok_kept(1) unfolding hash_inv_def Let_def by fastforce
  let ?b = "hash_index (hashpower (hashtable s)) (hash key)"
  have "key_at (heap s') x = key_at (heap s) x" if "x \<in> set (bl ?b)" for x
    using bucket_ok_kept(2) [OF inv_bucket(2) [OF assms(1)] sub [OF hash_index_less] that] .
  then show "entry bl s' key = entry bl s key"
    using assms(3) by (simp add: entry_def entry_in_def cong: find_cong)
qed

section \<open>Inserting\<close>

lemma hash_insert_spec:
  assumes inv: "hash_inv bl s" and it: "heap s it = Some c" "it \<noteq> 0" "it \<notin> in_table bl s"
    and rd: "unat (it_nkey c) \<le> length (it_data c)"
    and new: "entry bl s (key_of c) = None"
  defines "b \<equiv> hash_index (hashpower (hashtable s)) (hash (key_of c))"
  shows "\<exists>s'. hash_insert it (hash (key_of c)) s = Some (Inr (1, s')) \<and>
     hash_inv (bl(b := it # bl b)) s' \<and>
     s' = s\<lparr>heap := (heap s)(it \<mapsto> c\<lparr>it_h_next := primary_hashtable (hashtable s) ! b\<rparr>),
            hashtable := (hashtable s)\<lparr>primary_hashtable := (primary_hashtable (hashtable s))[b := it]\<rparr>,
            hashitems := hashitems s + 1\<rparr>"
proof -
  let ?ht = "hashtable s"
  let ?s = "s\<lparr>heap := (heap s)(it \<mapsto> c\<lparr>it_h_next := primary_hashtable ?ht ! b\<rparr>),
            hashtable := ?ht\<lparr>primary_hashtable := (primary_hashtable ?ht)[b := it]\<rparr>,
            hashitems := hashitems s + 1\<rparr>"
  note bk = inv_bucket [OF inv, of "hash (key_of c)", folded b_def]
  have "wp (hash_insert it (hash (key_of c))) (\<lambda>r s'. r = 1 \<and> s' = ?s) s"
    using it(1,2) bk(1) by (simp add: hash_insert_def wp_rules b_def)
  then have run: "hash_insert it (hash (key_of c)) s = Some (Inr (1, ?s))" by (auto simp: wp_iff)
  have nin: "it \<notin> set (bl i)" if "i < 2 ^ hashpower ?ht" for i
    using it(3) that by (auto simp: in_table_def)
  have b: "b < 2 ^ hashpower ?ht" by (simp add: b_def hash_index_less)
  have keys: "key_at (heap ?s) x = (if x = it then key_of c else key_at (heap s) x)" for x
    by (simp add: key_at_def key_of_def)
  have rds: "readable (heap ?s) x = (if x = it then True else readable (heap s) x)" for x
    using rd by (simp add: readable_def)
  have "bucket_ok (heap ?s) (hashpower ?ht) i (primary_hashtable (hashtable ?s) ! i) ((bl(b := it # bl b)) i)"
    if i: "i < 2 ^ hashpower ?ht" for i
  proof -
    have old: "bucket_ok (heap s) (hashpower ?ht) i (primary_hashtable ?ht ! i) (bl i)"
      using inv i by (simp add: hash_inv_def Let_def)
    have moved: "bucket_ok (heap ?s) (hashpower ?ht) i (primary_hashtable ?ht ! i) (bl i)"
      by (rule bucket_ok_kept(1) [OF old]) (use nin [OF i] in \<open>simp add: keys_kept_off\<close>)
    show ?thesis
    proof (cases "i = b")
      case True
      have "key_of c \<notin> key_at (heap ?s) ` set (bl b)"
      proof -
        have "key_of c \<notin> key_at (heap s) ` set (bl b)"
          using new by (simp add: entry_def b_def [symmetric] entry_in_None)
        moreover have "key_at (heap ?s) ` set (bl b) = key_at (heap s) ` set (bl b)"
          
        proof (rule image_cong [OF refl])
          show "key_at (heap ?s) x = key_at (heap s) x" if "x \<in> set (bl b)" for x
          proof -
            have "x \<noteq> it" using that nin [OF b] by blast
            then show ?thesis using keys [of x] by (simp only: if_False)
          qed
        qed
        ultimately show ?thesis by simp
      qed
      moreover have "length (primary_hashtable ?ht) = 2 ^ hashpower ?ht"
        using inv by (simp add: hash_inv_def Let_def)
      moreover have "key_at (heap ?s) it = key_of c" "readable (heap ?s) it" using keys rds by auto
      ultimately show ?thesis
        using moved True b it(2) nin [OF b] unfolding bucket_ok_def
        by (simp add: b_def [symmetric])
    next
      case False
      then show ?thesis using moved by simp
    qed
  qed
  then have "hash_inv (bl(b := it # bl b)) ?s"
    using inv by (simp add: hash_inv_def Let_def)
  with run show ?thesis by blast
qed

lemma in_table_insert:
  "b < 2 ^ hashpower (hashtable s) \<Longrightarrow> hashpower (hashtable s') = hashpower (hashtable s) \<Longrightarrow>
   in_table (bl(b := it # bl b)) s' = insert it (in_table bl s)"
  by (auto simp: in_table_def split: if_splits)

section \<open>Deleting\<close>

lemma chain_unlink:
  assumes "chain h f p (us @ x # y # vs)" and "h y = Some c" and "h' x = Some d" and "f d = f c"
    and "\<And>z. z \<in> set us \<union> set vs \<Longrightarrow> h' z = h z"
  shows "chain h' f p (us @ x # vs)"
  using assms
proof (induction us arbitrary: p)
  case Nil
  then have "chain h f (f c) vs" by auto
  then have "chain h' f (f c) vs" by (rule chain_same [of h]) (simp add: Nil.prems(5))
  then show ?case using Nil by auto
next
  case (Cons u us)
  then obtain e where e: "h u = Some e" "p = u" "u \<noteq> 0" "chain h f (f e) (us @ x # y # vs)" by auto
  have "chain h' f (f e) (us @ x # vs)" using Cons e(4) by (intro Cons.IH) auto
  then show ?case using e Cons.prems(5) by auto
qed

lemma delete_scan_miss:
  assumes "chain (heap s) it_h_next x (x # xs)" and "\<forall>y \<in> set xs. readable (heap s) y"
    and "key \<notin> key_at (heap s) ` set xs"
  shows "\<exists>y. delete_scan key x s = Some (Inr ((y, 0), s))"
  using assms
proof (induction xs arbitrary: x)
  case Nil
  then show ?case by (subst delete_scan.simps) (auto simp: rd_def prog_defs)
next
  case (Cons y ys)
  then obtain c d where c: "heap s x = Some c" "x \<noteq> 0" "it_h_next c = y" "y \<noteq> 0"
      "chain (heap s) it_h_next y (y # ys)" by auto
  have "key_matches key y s = Some (Inr (key_at (heap s) y = key, s))"
    using Cons.prems(2) c(4) by (intro key_matches_eq) auto
  moreover have "\<exists>z. delete_scan key y s = Some (Inr ((z, 0), s))"
    using Cons.prems(2,3) c(5) by (intro Cons.IH) auto
  moreover have "key_at (heap s) y \<noteq> key" using Cons.prems(3) by auto
  ultimately show ?case using c by (subst delete_scan.simps) (auto simp: rd_def bnd_def)
qed

lemma delete_scan_hit:
  assumes "chain (heap s) it_h_next x (x # us @ y # vs)"
    and "\<forall>z \<in> set (us @ y # vs). readable (heap s) z"
    and "key \<notin> key_at (heap s) ` set us" and "key_at (heap s) y = key"
  shows "delete_scan key x s = Some (Inr ((last (x # us), y), s))"
  using assms
proof (induction us arbitrary: x)
  case Nil
  then obtain c where c: "heap s x = Some c" "x \<noteq> 0" "it_h_next c = y" "y \<noteq> 0" by auto
  have "key_matches key y s = Some (Inr (key_at (heap s) y = key, s))"
    using Nil.prems(2) c(4) by (intro key_matches_eq) auto
  then show ?case using c Nil.prems(4)
    by (subst delete_scan.simps) (simp add: rd_def bnd_def ret_def)
next
  case (Cons u us)
  then obtain c where c: "heap s x = Some c" "x \<noteq> 0" "it_h_next c = u" "u \<noteq> 0"
      "chain (heap s) it_h_next u (u # us @ y # vs)" by auto
  have "key_matches key u s = Some (Inr (key_at (heap s) u = key, s))"
    using Cons.prems(2) c(4) by (intro key_matches_eq) auto
  moreover have "delete_scan key u s = Some (Inr ((last (u # us), y), s))"
    using Cons.prems(2-4) c(5) by (intro Cons.IH) auto
  moreover have "key_at (heap s) u \<noteq> key" using Cons.prems(3) by auto
  ultimately show ?case using c by (subst delete_scan.simps) (simp add: rd_def bnd_def)
qed

lemma remove_key_hit:
  "k \<notin> f ` set us \<Longrightarrow> f y = k \<Longrightarrow> remove_key f k (us @ y # vs) = us @ vs"
  by (induction us) auto

text \<open>The states \<open>hash_delete\<close> can leave: same cells up to \<open>h_next\<close>, another table.\<close>

definition table_changed :: "(nat \<Rightarrow> addr list) \<Rightarrow> machine \<Rightarrow> machine \<Rightarrow> bool" where
  "table_changed bl s s' \<longleftrightarrow> same_but_h_next (heap s) (heap s') \<and>
     (\<forall>x. x \<notin> in_table bl s \<longrightarrow> heap s' x = heap s x) \<and>
     s' = s\<lparr>heap := heap s', hashtable := (hashtable s)
       \<lparr>primary_hashtable := primary_hashtable (hashtable s')\<rparr>, hashitems := hashitems s'\<rparr>"

lemma bucket_update_inv:
  assumes inv: "hash_inv bl s" and b: "b < 2 ^ hashpower (hashtable s)"
    and fields: "hashpower (hashtable s') = hashpower (hashtable s)"
      "item_lock_count (hashtable s') = item_lock_count (hashtable s)"
      "length (item_locks (hashtable s')) = length (item_locks (hashtable s))"
      "primary_hashtable (hashtable s') = (primary_hashtable (hashtable s))[b := q]"
    and same: "same_but_h_next (heap s) (heap s')"
    and off: "\<And>x. x \<notin> set (bl b) \<Longrightarrow> heap s' x = heap s x"
    and sub: "set xs \<subseteq> set (bl b)" "distinct (map (key_at (heap s)) xs)"
    and ch: "chain (heap s') it_h_next q xs"
  shows "hash_inv (bl(b := xs)) s'"
proof -
  note old = inv [unfolded hash_inv_def Let_def]
  note keys = same_but_h_next_keys [OF same]
  have kf: "key_at (heap s') = key_at (heap s)" using keys(1) by blast
  have "bucket_ok (heap s') (hashpower (hashtable s)) i
      ((primary_hashtable (hashtable s))[b := q] ! i) ((bl(b := xs)) i)"
    if i: "i < 2 ^ hashpower (hashtable s)" for i
  proof -
    have oi: "bucket_ok (heap s) (hashpower (hashtable s)) i (primary_hashtable (hashtable s) ! i) (bl i)"
      using old i by blast
    show ?thesis
    proof (cases "i = b")
      case True
      have "length (primary_hashtable (hashtable s)) = 2 ^ hashpower (hashtable s)" using old by blast
      then show ?thesis
        using True b sub ch oi unfolding bucket_ok_def kf keys(2) by auto
    next
      case False
      have disj: "x \<notin> set (bl b)" if "x \<in> set (bl i)" for x
      proof
        assume "x \<in> set (bl b)"
        then have "hash_index (hashpower (hashtable s)) (hash (key_at (heap s) x)) = b"
          using old b unfolding bucket_ok_def by blast
        then show False using oi that False unfolding bucket_ok_def by simp
      qed
      have "chain (heap s') it_h_next (primary_hashtable (hashtable s) ! i) (bl i)"
        by (rule chain_same [of "heap s"]) (use oi disj off in \<open>auto simp: bucket_ok_def\<close>)
      then show ?thesis using False oi unfolding bucket_ok_def kf keys(2) by simp
    qed
  qed
  then show ?thesis using old fields by (simp add: hash_inv_def)
qed

lemma hash_delete_spec:
  assumes inv: "hash_inv bl s" and b_def: "b = hash_index (hashpower (hashtable s)) hv"
  shows "\<exists>s'. hash_delete key hv s = Some (Inr ((), s')) \<and> table_changed bl s s' \<and>
     hash_inv (bl(b := bucket_delete (key_at (heap s)) key (bl b))) s'"
proof -
  let ?ht = "hashtable s" and ?h = "heap s"
  let ?p = "primary_hashtable ?ht ! b"
  note bk = inv_bucket [OF inv, of hv, folded b_def]
  have b: "b < 2 ^ hashpower ?ht" by (simp add: b_def hash_index_less)
  have inT: "set (bl b) \<subseteq> in_table bl s" using b by (auto simp: in_table_def)
  note B = bk(2) [unfolded bucket_ok_def]
  show ?thesis
  proof (cases "bl b")
    case Nil
    then have p: "?p = 0" using B by simp
    let ?s = "s\<lparr>hashtable := ?ht\<lparr>primary_hashtable := (primary_hashtable ?ht)[b := 0]\<rparr>\<rparr>"
    have "wp (hash_delete key hv) (\<lambda>_ s'. s' = ?s) s"
      using bk(1) p by (simp add: hash_delete_def wp_rules b_def)
    then have run: "hash_delete key hv s = Some (Inr ((), ?s))" by (auto simp: wp_iff)
    have "hash_inv (bl(b := [])) ?s"
      by (rule bucket_update_inv [OF inv b]) (simp_all add: Nil)
    moreover have "table_changed bl s ?s" by (simp add: table_changed_def)
    ultimately show ?thesis using run Nil by auto
  next
    case (Cons x xs)
    then have x: "?p = x" "x \<noteq> 0" using B by auto
    have km: "key_matches key x s = Some (Inr (key_at ?h x = key, s))"
      using B Cons x(2) by (intro key_matches_eq) auto
    show ?thesis
    proof (cases "key_at ?h x = key")
      case True
      let ?s = "s\<lparr>hashtable := ?ht\<lparr>primary_hashtable := (primary_hashtable ?ht)[b := 0]\<rparr>\<rparr>"
      have "wp (hash_delete key hv) (\<lambda>_ s'. s' = ?s) s"
        using bk(1) x True by (simp add: hash_delete_def wp_rules wp_returns [of "key_matches key x" s, OF km] b_def)
      then have run: "hash_delete key hv s = Some (Inr ((), ?s))" by (auto simp: wp_iff)
      have "hash_inv (bl(b := [])) ?s"
        by (rule bucket_update_inv [OF inv b]) simp_all
      moreover have "table_changed bl s ?s" by (simp add: table_changed_def)
      ultimately show ?thesis using run Cons True by auto
    next
      case False
      have ch: "chain ?h it_h_next x (x # xs)" using B Cons x by simp
      have rdb: "\<forall>y \<in> set xs. readable ?h y" using B Cons by simp
      show ?thesis
      proof (cases "key \<in> key_at ?h ` set xs")
        case miss: False
        obtain y where y: "delete_scan key x s = Some (Inr ((y, 0), s))"
          using delete_scan_miss [OF ch rdb miss] by blast
        have "wp (hash_delete key hv) (\<lambda>_ s'. s' = s) s"
          using bk(1) x False
          by (simp add: hash_delete_def wp_rules wp_returns [of "key_matches key x" s, OF km] wp_returns [of "delete_scan key x" s, OF y] b_def)
        then have run: "hash_delete key hv s = Some (Inr ((), s))" by (auto simp: wp_iff)
        have "bucket_delete (key_at ?h) key (bl b) = bl b"
          using Cons False remove_key_absent [OF miss] by simp
        moreover have "table_changed bl s s" by (simp add: table_changed_def)
        ultimately show ?thesis using run inv by (auto simp: fun_upd_idem)
      next
        case True
        then obtain us y vs where xs: "xs = us @ y # vs" "key_at ?h y = key" "key \<notin> key_at ?h ` set us"
          using split_list_first_prop [of xs "\<lambda>y. key_at ?h y = key"] by (metis (no_types, lifting) imageE)
        have scan': "delete_scan key x s = Some (Inr ((last (x # us), y), s))"
          using delete_scan_hit [of s x us y vs key] ch rdb xs by simp
        obtain ws w where ws: "x # us = ws @ [w]" "last (x # us) = w"
          by (metis append_butlast_last_id list.distinct(1))
        note scan = scan' [unfolded ws(2)]
        have full: "bl b = ws @ w # y # vs" using Cons xs(1) ws(1) by simp
        have dist: "distinct (bl b)" using chain_distinct B by blast
        have wy: "w \<noteq> y" using dist full by simp
        have chb: "chain ?h it_h_next ?p (ws @ w # y # vs)" using B full by simp
        obtain cy where cy: "?h y = Some cy" "y \<noteq> 0" using chain_dom [OF chb, of y] by auto
        obtain cw where cw: "?h w = Some cw" "w \<noteq> 0" using chain_dom [OF chb, of w] by auto
        let ?h' = "?h(y \<mapsto> cy\<lparr>it_h_next := 0\<rparr>, w \<mapsto> cw\<lparr>it_h_next := it_h_next cy\<rparr>)"
        let ?s = "s\<lparr>heap := ?h', hashitems := hashitems s - 1\<rparr>"
        have "wp (hash_delete key hv) (\<lambda>_ s'. s' = ?s) s"
          using bk(1) x False cy cw wy
          by (simp add: hash_delete_def wp_rules wp_returns [of "key_matches key x" s, OF km] wp_returns [of "delete_scan key x" s, OF scan] b_def)
        then have run: "hash_delete key hv s = Some (Inr ((), ?s))" by (auto simp: wp_iff)
        have same: "same_but_h_next ?h ?h'"
          using cy(1) cw(1) wy by (simp add: same_but_h_next_def)
        have bd: "bucket_delete (key_at ?h) key (bl b) = ws @ w # vs"
          using Cons False xs ws(1) remove_key_hit [OF xs(3,2)] by simp
        have "hash_inv (bl(b := ws @ w # vs)) ?s"
        proof (rule bucket_update_inv [OF inv b, where q = ?p])
          show "chain (heap ?s) it_h_next ?p (ws @ w # vs)"
            by (rule chain_unlink [OF chb cy(1), where d = "cw\<lparr>it_h_next := it_h_next cy\<rparr>"])
              (use dist full in auto)
          show "distinct (map (key_at ?h) (ws @ w # vs))"
            using distinct_bucket_delete [of "key_at ?h" "bl b" key] B bd by simp
          show "heap ?s z = ?h z" if "z \<notin> set (bl b)" for z using that full by simp
          show "set (ws @ w # vs) \<subseteq> set (bl b)" using full by auto
          show "same_but_h_next ?h (heap ?s)" using same by simp
        qed simp_all
        moreover have "table_changed bl s ?s"
        proof -
          have "y \<in> in_table bl s" "w \<in> in_table bl s" using full inT by auto
          then show ?thesis unfolding table_changed_def using same by auto
        qed
        ultimately show ?thesis using run bd by auto
      qed
    qed
  qed
qed

section \<open>The table as an association\<close>

lemma find_key_map:
  assumes "distinct (map f xs)" "set ys \<subseteq> set xs" "find (\<lambda>x. f x = k) ys = Some y"
  shows "find (\<lambda>x. f x = k) xs = Some y"
proof -
  have y: "y \<in> set xs" "f y = k" using assms(2,3) by (auto simp: find_Some_iff)
  have "find (\<lambda>x. f x = k) xs \<noteq> None" using y by (auto simp: find_None_iff)
  then obtain z where z: "find (\<lambda>x. f x = k) xs = Some z" by auto
  then have "z \<in> set xs" "f z = k" by (auto simp: find_Some_iff)
  with y assms(1) have "z = y" by (auto simp: distinct_map inj_on_def)
  with z show ?thesis by simp
qed

lemma entry_insert:
  assumes "hash_inv bl s" and "heap s it = Some c" and "it \<notin> in_table bl s"
    and b: "b = hash_index (hashpower (hashtable s)) (hash (key_of c))"
    and s': "same_but_h_next (heap s) (heap s')" "hashpower (hashtable s') = hashpower (hashtable s)"
  shows "entry (bl(b := it # bl b)) s' = (entry bl s)(key_of c \<mapsto> it)"
proof
  fix k
  have keys: "key_at (heap s') = key_at (heap s)" using same_but_h_next_keys [OF s'(1)] by blast
  have "key_at (heap s) it = key_of c" using assms(2) by (simp add: key_at_def)
  then show "entry (bl(b := it # bl b)) s' k = ((entry bl s)(key_of c \<mapsto> it)) k"
    using b by (auto simp: entry_def entry_in_def keys s'(2))
qed

lemma table_changed_fields:
  assumes "table_changed bl s s'"
  shows "hashpower (hashtable s') = hashpower (hashtable s)"
    "item_locks (hashtable s') = item_locks (hashtable s)"
    "item_lock_count (hashtable s') = item_lock_count (hashtable s)"
    "brk s' = brk s" "alloc_ok s' = alloc_ok s" "alloc_calls s' = alloc_calls s"
    "clock s' = clock s" "clock_reads s' = clock_reads s" "slab s' = slab s"
    "lru_list s' = lru_list s" "cache_lock s' = cache_lock s" "last_cas_id s' = last_cas_id s"
    "mem_setting s' = mem_setting s"
proof -
  have e: "s' = s\<lparr>heap := heap s', hashtable := (hashtable s)
       \<lparr>primary_hashtable := primary_hashtable (hashtable s')\<rparr>, hashitems := hashitems s'\<rparr>"
    using assms by (simp add: table_changed_def)
  show "hashpower (hashtable s') = hashpower (hashtable s)"
    "item_locks (hashtable s') = item_locks (hashtable s)"
    "item_lock_count (hashtable s') = item_lock_count (hashtable s)"
    "brk s' = brk s" "alloc_ok s' = alloc_ok s" "alloc_calls s' = alloc_calls s"
    "clock s' = clock s" "clock_reads s' = clock_reads s" "slab s' = slab s"
    "lru_list s' = lru_list s" "cache_lock s' = cache_lock s" "last_cas_id s' = last_cas_id s"
    "mem_setting s' = mem_setting s"
    by (subst e, simp)+
qed

lemma entry_delete:
  assumes inv: "hash_inv bl s" and tc: "table_changed bl s s'"
    and b: "b = hash_index (hashpower (hashtable s)) (hash key)"
  defines "bl' \<equiv> bl(b := bucket_delete (key_at (heap s)) key (bl b))"
  shows "entry bl' s' key = None" and "entry bl' s' \<subseteq>\<^sub>m entry bl s"
    and "in_table bl' s' \<subseteq> in_table bl s"
    and "x \<in> in_table bl s \<Longrightarrow> key_at (heap s) x = key \<Longrightarrow> x \<notin> in_table bl' s'"
proof -
  have keys: "key_at (heap s') = key_at (heap s)"
    using tc same_but_h_next_keys unfolding table_changed_def by blast
  note hp = table_changed_fields(1) [OF tc]
  have dist: "distinct (map (key_at (heap s)) (bl b))"
    using inv_bucket(2) [OF inv, of "hash key"] b by (simp add: bucket_ok_def)
  have gone: "key \<notin> key_at (heap s) ` set (bl' b)" using key_gone [OF dist] by (simp add: bl'_def)
  show "entry bl' s' key = None"
    using gone b by (simp add: entry_def entry_in_None keys hp)
  have sub: "set (bl' i) \<subseteq> set (bl i)" for i
    using set_bucket_delete by (simp add: bl'_def)
  then show "in_table bl' s' \<subseteq> in_table bl s" unfolding in_table_def hp by blast
  show "entry bl' s' \<subseteq>\<^sub>m entry bl s"
  proof (unfold map_le_def, rule ballI)
    fix k assume "k \<in> dom (entry bl' s')"
    then obtain y where y: "entry bl' s' k = Some y" by auto
    let ?i = "hash_index (hashpower (hashtable s)) (hash k)"
    have "distinct (map (key_at (heap s)) (bl ?i))"
      using inv_bucket(2) [OF inv, of "hash k"] by (simp add: bucket_ok_def)
    then have "entry bl s k = Some y"
      using find_key_map [where f = "key_at (heap s)", OF _ sub [of ?i]] y
      unfolding entry_def entry_in_def keys hp by simp
    then show "entry bl' s' k = entry bl s k" using y by simp
  qed
  show "x \<notin> in_table bl' s'" if x: "x \<in> in_table bl s" "key_at (heap s) x = key"
  proof
    assume "x \<in> in_table bl' s'"
    then obtain i where i: "i < 2 ^ hashpower (hashtable s)" "x \<in> set (bl' i)"
      by (auto simp: in_table_def hp)
    then have xi: "x \<in> set (bl i)" using sub by blast
    have "bucket_ok (heap s) (hashpower (hashtable s)) i (primary_hashtable (hashtable s) ! i) (bl i)"
      using inv i(1) by (simp add: hash_inv_def Let_def)
    then have "i = b" using xi b x(2) unfolding bucket_ok_def by metis
    then show False using gone i(2) x(2) by blast
  qed
qed

text \<open>Keys of other buckets keep their entry.\<close>

definition apart :: "machine \<Rightarrow> byte list \<Rightarrow> byte list \<Rightarrow> bool" where
  "apart s k k' \<longleftrightarrow> hash_index (hashpower (hashtable s)) (hash k) \<noteq>
     hash_index (hashpower (hashtable s)) (hash k')"

lemma apart_frame [simp]:
  "apart (s\<lparr>heap := h\<rparr>) = apart s" "apart (s\<lparr>cache_lock := b\<rparr>) = apart s"
  "apart (s\<lparr>clock_reads := n\<rparr>) = apart s"
  by (simp_all add: apart_def fun_eq_iff)

lemma apart_neq: "apart s k k' \<Longrightarrow> k' \<noteq> k"
  by (auto simp: apart_def)

lemma entry_delete_apart:
  assumes "table_changed bl s s'" and "apart s key k"
  shows "entry (bl(hash_index (hashpower (hashtable s)) (hash key) := xs)) s' k = entry bl s k"
proof -
  have "key_at (heap s') = key_at (heap s)"
    using assms(1) same_but_h_next_keys unfolding table_changed_def by blast
  then show ?thesis
    using assms(2) table_changed_fields(1) [OF assms(1)]
    by (simp add: entry_def entry_in_def apart_def)
qed

section \<open>The contract of the index\<close>

text \<open>
  What the item operations rely on: a table that represents a partial map from keys to
  items (\<open>ent\<close>, for a ghost description \<open>g\<close> of the chains), and how its three operations
  act on that map. Deletion promises only that the key is gone and that nothing appears:
  other keys of the bucket may go with it.
\<close>

locale item_index =
  fixes inv :: "'g \<Rightarrow> machine \<Rightarrow> bool"
    and ent :: "'g \<Rightarrow> machine \<Rightarrow> byte list \<rightharpoonup> addr"
    and fresh :: "'g \<Rightarrow> machine \<Rightarrow> addr \<Rightarrow> byte list \<Rightarrow> bool"
    and lookup :: "byte list \<Rightarrow> (machine, addr) prog"
    and insert :: "addr \<Rightarrow> byte list \<Rightarrow> (machine, nat) prog"
    and delete :: "byte list \<Rightarrow> (machine, unit) prog"
  assumes lookup_law: "inv g s \<Longrightarrow> lookup k s = Some (Inr (ptr_of (ent g s k), s))"
    and nonnull: "inv g s \<Longrightarrow> ent g s k = Some x \<Longrightarrow> x \<noteq> 0"
    and insert_law: "inv g s \<Longrightarrow> fresh g s x k \<Longrightarrow>
      \<exists>g' s'. insert x k s = Some (Inr (1, s')) \<and> inv g' s' \<and> ent g' s' = (ent g s)(k \<mapsto> x)"
    and delete_law: "inv g s \<Longrightarrow>
      \<exists>g' s'. delete k s = Some (Inr ((), s')) \<and> inv g' s' \<and> ent g' s' k = None \<and> ent g' s' \<subseteq>\<^sub>m ent g s"
begin

lemma lookup_after_insert:
  "inv g s \<Longrightarrow> fresh g s x k \<Longrightarrow>
   \<exists>s'. thn (insert x k) (lookup k) s = Some (Inr (x, s'))"
  using insert_law [of g s x k] lookup_law by (fastforce simp: thn_def bnd_def)

lemma lookup_other_after_insert:
  "inv g s \<Longrightarrow> fresh g s x k \<Longrightarrow> k' \<noteq> k \<Longrightarrow>
   \<exists>s'. thn (insert x k) (lookup k') s = Some (Inr (ptr_of (ent g s k'), s'))"
  using insert_law [of g s x k] lookup_law by (fastforce simp: thn_def bnd_def)

lemma lookup_after_delete:
  "inv g s \<Longrightarrow> \<exists>s'. thn (delete k) (lookup k) s = Some (Inr (0, s'))"
  using delete_law [of g s k] lookup_law by (fastforce simp: thn_def bnd_def)

text \<open>A key found after the deletion of another is found where it was.\<close>

lemma lookup_other_after_delete:
  assumes "inv g s" and "thn (delete k) (lookup k') s = Some (Inr (x, s'))" and "x \<noteq> 0"
  shows "ent g s k' = Some x"
proof -
  obtain g1 s1 where 1: "delete k s = Some (Inr ((), s1))" "inv g1 s1" "ent g1 s1 \<subseteq>\<^sub>m ent g s"
    using delete_law [OF assms(1)] by blast
  then have "x = ptr_of (ent g1 s1 k')"
    using assms(2) lookup_law [OF 1(2), of k'] by (auto simp: thn_def bnd_def)
  with assms(3) have "ent g1 s1 k' = Some x" by (cases "ent g1 s1 k'") auto
  with 1(3) show ?thesis by (metis domI map_le_def)
qed

end

definition insertable :: "(nat \<Rightarrow> addr list) \<Rightarrow> machine \<Rightarrow> addr \<Rightarrow> byte list \<Rightarrow> bool" where
  "insertable bl s x k \<longleftrightarrow> x \<noteq> 0 \<and> x \<notin> in_table bl s \<and> entry bl s k = None \<and>
     (\<exists>c. heap s x = Some c \<and> unat (it_nkey c) \<le> length (it_data c) \<and> key_of c = k)"

lemma insert_entry:
  assumes inv: "hash_inv bl s" and new: "insertable bl s x k"
  shows "\<exists>bl' s'. hash_insert x (hash k) s = Some (Inr (1, s')) \<and> hash_inv bl' s' \<and>
     entry bl' s' = (entry bl s)(k \<mapsto> x)"
proof -
  obtain c where c: "x \<noteq> 0" "x \<notin> in_table bl s" "entry bl s k = None" "heap s x = Some c"
      "unat (it_nkey c) \<le> length (it_data c)" "key_of c = k"
    using new by (auto simp: insertable_def)
  let ?b = "hash_index (hashpower (hashtable s)) (hash k)"
  obtain s' where s': "hash_insert x (hash k) s = Some (Inr (1, s'))" "hash_inv (bl(?b := x # bl ?b)) s'"
     "s' = s\<lparr>heap := (heap s)(x \<mapsto> c\<lparr>it_h_next := primary_hashtable (hashtable s) ! ?b\<rparr>),
            hashtable := (hashtable s)\<lparr>primary_hashtable := (primary_hashtable (hashtable s))[?b := x]\<rparr>,
            hashitems := hashitems s + 1\<rparr>"
    using hash_insert_spec [OF inv c(4,1,2,5)] c(3,6) by auto
  have "entry (bl(?b := x # bl ?b)) s' = (entry bl s)(key_of c \<mapsto> x)"
    by (rule entry_insert [OF inv c(4,2)]) (simp_all add: c(6) s'(3) same_but_h_next_upd c(4))
  with s' c(6) show ?thesis by blast
qed

lemma delete_entry:
  assumes inv: "hash_inv bl s"
  shows "\<exists>bl' s'. hash_delete k (hash k) s = Some (Inr ((), s')) \<and> hash_inv bl' s' \<and>
     entry bl' s' k = None \<and> entry bl' s' \<subseteq>\<^sub>m entry bl s"
  using hash_delete_spec [OF inv refl, of k "hash k"] entry_delete [OF inv _ refl] by blast

interpretation table: item_index hash_inv entry insertable
    "\<lambda>k. hash_find k (hash k)" "\<lambda>x k. hash_insert x (hash k)" "\<lambda>k. hash_delete k (hash k)"
proof unfold_locales
  show "x \<noteq> 0" if "hash_inv bl s" "entry bl s k = Some x" for bl s k x
    using entry_Some(2) [OF that] .
qed (use hash_find_entry insert_entry delete_entry in blast)+

section \<open>The region locks\<close>

definition region_valid :: "u32 \<Rightarrow> machine \<Rightarrow> bool" where
  "region_valid hv s \<longleftrightarrow> lock_index (hashtable s) hv < length (item_locks (hashtable s))"

definition region_held :: "u32 \<Rightarrow> machine \<Rightarrow> bool" where
  "region_held hv s = item_locks (hashtable s) ! lock_index (hashtable s) hv"

definition set_region :: "u32 \<Rightarrow> bool \<Rightarrow> machine \<Rightarrow> machine" where
  "set_region hv b s = set_item_lock (lock_index (hashtable s) hv) b s"

interpretation region: mutex "hash_lock hv" "hash_unlock hv" "region_valid hv" "region_held hv"
    "set_region hv True" "set_region hv False" for hv
proof unfold_locales
  show "set_region hv False (set_region hv True s) = s"
    if "region_valid hv s" "\<not> region_held hv s" for s
    using that list_update_id [of "item_locks (hashtable s)" "lock_index (hashtable s) hv"]
    by (simp add: set_region_def set_item_lock_def lock_index_def region_valid_def region_held_def)
qed (simp_all add: hash_lock_def hash_unlock_def idx_def prog_defs region_valid_def region_held_def
      set_region_def set_item_lock_def lock_index_def)

section \<open>Properties\<close>

text \<open>A table of two buckets over a given heap, for the closed instances below, and an item with a
  one-byte key.\<close>

definition small_table :: "(addr \<rightharpoonup> base_item) \<Rightarrow> machine" where
  "small_table h = (blank (\<lambda>_. True) (\<lambda>_. 0) default_settings)
     \<lparr>heap := h, hashtable := hashtable_ctor 1 0\<rparr>"

definition demo_item :: "byte \<Rightarrow> base_item" where
  "demo_item k = (zero_item 104)\<lparr>it_nkey := 1, it_data := k # replicate 52 (CHR 0x00)\<rparr>"

lemma demo_item_simps [simp]:
  "key_of (demo_item k) = [k]" "it_nkey (demo_item k) = 1" "length (it_data (demo_item k)) = 53"
  by (simp_all add: key_of_def demo_item_def)

lemma small_table_inv: "hash_inv (\<lambda>_. []) (small_table h)"
  by (simp add: hash_inv_def small_table_def blank_def hashtable_ctor_def Let_def unat_hashsize
      bucket_ok_def less_2_cases_iff)

lemma small_table_insertable:
  "h x = Some (demo_item k) \<Longrightarrow> x \<noteq> 0 \<Longrightarrow> insertable (\<lambda>_. []) (small_table h) x [k]"
  by (simp add: insertable_def in_table_def entry_def entry_in_def small_table_def)

text \<open>The bucket and the lock of a hash value are always in range: \<open>hv & hashmask(hashpower)\<close>
  is the hash value modulo \<open>2^hashpower\<close>, which is below the lengths of the table and of the
  lock vector the constructor makes, so no operation on them is out of bounds.\<close>
theorem hash_index_in_range:
  assumes "0 < hp" and "hp < 64"
  shows "hash_index hp hv = unat hv mod 2 ^ hp \<and>
    hash_index hp hv < length (primary_hashtable (hashtable_ctor hp u)) \<and>
    lock_index (hashtable_ctor hp u) hv < length (item_locks (hashtable_ctor hp u))"
  using assms hash_index_less [of hp hv]
  by (simp add: hash_index_mod hashtable_ctor_def unat_hashsize Let_def lock_index_def)

lemma hash_index_in_range_witness:
  "hash_index 16 65537 = 1 \<and> 1 < length (primary_hashtable hashtable_default)"
  using hash_index_in_range [of 16 65537 0] by (simp add: hashtable_default_def)

text \<open>C19: Looking a key up always returns, changes nothing, and returns the item of the table that
  has this key: null when no item has it, and otherwise an item that is in the bucket of the
  key and whose stored key it is.\<close>
theorem hash_find_correct:
  assumes "hash_inv bl s"
  shows "\<exists>p. hash_find key (hash key) s = Some (Inr (p, s)) \<and>
    (p = 0 \<longrightarrow> (\<forall>x \<in> in_table bl s. key_at (heap s) x \<noteq> key)) \<and>
    (p \<noteq> 0 \<longrightarrow> p \<in> in_table bl s \<and> key_at (heap s) p = key)"
proof -
  have miss: "key_at (heap s) x \<noteq> key" if "entry bl s key = None" "x \<in> in_table bl s" for x
    using in_table_D(3) [OF assms that(2)] that(1) by auto
  have "p \<in> in_table bl s \<and> key_at (heap s) p = key \<and> p \<noteq> 0" if "entry bl s key = Some p" for p
    using entry_Some [OF assms that] by (auto simp: key_at_def)
  with miss hash_find_entry [OF assms, of key] show ?thesis
    by (cases "entry bl s key") auto
qed

lemma hash_find_correct_witness:
  "hash_find ''k'' (hash ''k'') (small_table Map.empty) = Some (Inr (0, small_table Map.empty))"
  using hash_find_correct [OF small_table_inv, of "''k''" Map.empty] by (auto simp: in_table_def)

text \<open>C17: After an item is inserted under its key, a lookup of the key returns it, and a lookup of
  any other key returns what it returned before.\<close>
theorem insert_then_find:
  assumes "hash_inv bl s" and "insertable bl s x k"
  shows "(\<exists>s'. thn (hash_insert x (hash k)) (hash_find k (hash k)) s = Some (Inr (x, s'))) \<and>
    (\<forall>k'. k' = k \<or> (\<exists>s' p. hash_find k' (hash k') s = Some (Inr (p, s)) \<and>
       thn (hash_insert x (hash k)) (hash_find k' (hash k')) s = Some (Inr (p, s'))))"
  using table.lookup_after_insert [OF assms] table.lookup_other_after_insert [OF assms]
    table.lookup_law [OF assms(1)] by blast

lemma insert_then_find_witness:
  "\<exists>s'. thn (hash_insert 4096 (hash ''k'')) (hash_find ''k'' (hash ''k''))
     (small_table [4096 \<mapsto> demo_item CHR ''k'']) = Some (Inr (4096, s'))"
  using insert_then_find [OF small_table_inv small_table_insertable, of "[4096 \<mapsto> demo_item CHR ''k'']" 4096 "CHR ''k''"]
  by simp

text \<open>C18: After a key is deleted it is not found any more, and deletion makes nothing appear: an
  item found under another key after it was found under that key before.\<close>
theorem delete_then_find:
  assumes "hash_inv bl s"
  shows "(\<exists>s'. thn (hash_delete k (hash k)) (hash_find k (hash k)) s = Some (Inr (0, s'))) \<and>
    (\<forall>k' x s'. thn (hash_delete k (hash k)) (hash_find k' (hash k')) s = Some (Inr (x, s')) \<longrightarrow>
       x = 0 \<or> hash_find k' (hash k') s = Some (Inr (x, s)))"
proof -
  have "x = 0 \<or> hash_find k' (hash k') s = Some (Inr (x, s))"
    if "thn (hash_delete k (hash k)) (hash_find k' (hash k')) s = Some (Inr (x, s'))" for k' x s'
    using table.lookup_other_after_delete [OF assms that] table.lookup_law [OF assms, of k'] by (cases "x = 0") auto
  with table.lookup_after_delete [OF assms] show ?thesis by blast
qed

lemma delete_then_find_witness:
  "\<exists>s'. thn (hash_delete ''k'' (hash ''k'')) (hash_find ''k'' (hash ''k'')) (small_table Map.empty) =
     Some (Inr (0, s'))"
  using delete_then_find [OF small_table_inv] by blast

text \<open>C33: Deleting a key that is the first of its bucket empties the whole bucket: every other item
  of the bucket is lost with it, and the item counter is not decremented. (When the key is
  further down, exactly its item goes.)\<close>
theorem delete_head_drops_bucket:
  assumes inv: "hash_inv bl s" and b: "bl (hash_index (hashpower (hashtable s)) (hash k)) = x # xs"
    and x: "key_at (heap s) x = k"
  shows "\<exists>s'. hash_delete k (hash k) s = Some (Inr ((), s')) \<and> hashitems s' = hashitems s \<and>
    (\<forall>y \<in> set (x # xs). hash_find (key_at (heap s) y) (hash (key_at (heap s) y)) s = Some (Inr (y, s)) \<and>
       hash_find (key_at (heap s) y) (hash (key_at (heap s) y)) s' = Some (Inr (0, s')))"
proof -
  let ?b = "hash_index (hashpower (hashtable s)) (hash k)"
  note B = inv_bucket [OF inv, of "hash k"]
  note ok = B(2) [unfolded b bucket_ok_def]
  have head: "primary_hashtable (hashtable s) ! ?b = x" "x \<noteq> 0" using ok by auto
  have km: "key_matches k x s = Some (Inr (key_at (heap s) x = k, s))"
    using ok head(2) by (intro key_matches_eq) auto
  let ?s = "s\<lparr>hashtable := (hashtable s)\<lparr>primary_hashtable := (primary_hashtable (hashtable s))[?b := 0]\<rparr>\<rparr>"
  have "wp (hash_delete k (hash k)) (\<lambda>_ s'. s' = ?s) s"
    using B(1) head x by (simp add: hash_delete_def wp_rules wp_returns [of "key_matches k x" s, OF km])
  then have run: "hash_delete k (hash k) s = Some (Inr ((), ?s))" by (auto simp: wp_iff)
  obtain s1 where s1: "hash_delete k (hash k) s = Some (Inr ((), s1))"
      "hash_inv (bl(?b := bucket_delete (key_at (heap s)) k (bl ?b))) s1"
    using hash_delete_spec [OF inv refl, of k "hash k"] by blast
  then have inv': "hash_inv (bl(?b := [])) ?s" using run b x by simp
  have "hash_find (key_at (heap s) y) (hash (key_at (heap s) y)) s = Some (Inr (y, s)) \<and>
      hash_find (key_at (heap s) y) (hash (key_at (heap s) y)) ?s = Some (Inr (0, ?s))"
    if y: "y \<in> set (x # xs)" for y
  proof -
    have yb: "hash_index (hashpower (hashtable s)) (hash (key_at (heap s) y)) = ?b" using ok y by auto
    have "y \<in> set (bl ?b)" using y b by simp
    then have "y \<in> in_table bl s" using hash_index_less unfolding in_table_def by blast
    then have "entry bl s (key_at (heap s) y) = Some y" by (rule in_table_D(3) [OF inv])
    moreover have "entry (bl(?b := [])) ?s (key_at (heap s) y) = None"
      using yb by (simp add: entry_def entry_in_def)
    ultimately show ?thesis
      using hash_find_entry [OF inv, of "key_at (heap s) y"] hash_find_entry [OF inv', of "key_at (heap s) y"]
      by simp
  qed
  with run show ?thesis by auto
qed


text \<open>Two keys of the same bucket: \<open>a\<close> and the key below hash to even values.\<close>

definition two_in_bucket :: machine where
  "two_in_bucket = (small_table [4096 \<mapsto> (demo_item CHR ''a'')\<lparr>it_h_next := 8192\<rparr>,
      8192 \<mapsto> demo_item CHR ''e''])\<lparr>hashtable := (hashtable_ctor 1 0)\<lparr>primary_hashtable := [4096, 0]\<rparr>\<rparr>"

lemma demo_hashes: "hash ''a'' = 0xCA2E9442" "hash ''e'' = 0x11162210"
  by (simp_all add: hash_def hash_step_def Let_def of_char_def)

lemma two_in_bucket_inv: "hash_inv (\<lambda>b. if b = 0 then [4096, 8192] else []) two_in_bucket"
  using demo_hashes
  by (auto simp: hash_inv_def two_in_bucket_def small_table_def blank_def hashtable_ctor_def Let_def
      unat_hashsize bucket_ok_def less_2_cases_iff readable_def key_at_def hash_index_mod demo_item_def key_of_def
      zero_item_def)

lemma delete_head_drops_bucket_witness:
  "\<exists>s'. hash_delete ''a'' (hash ''a'') two_in_bucket = Some (Inr ((), s')) \<and>
     hash_find ''e'' (hash ''e'') two_in_bucket = Some (Inr (8192, two_in_bucket)) \<and>
     hash_find ''e'' (hash ''e'') s' = Some (Inr (0, s'))"
proof -
  have "key_at (heap two_in_bucket) 4096 = ''a''" "key_at (heap two_in_bucket) 8192 = ''e''"
    by (simp_all add: two_in_bucket_def small_table_def key_at_def key_of_def demo_item_def)
  moreover have "hash_index (hashpower (hashtable two_in_bucket)) (hash ''a'') = 0"
    using demo_hashes by (simp add: hash_index_mod two_in_bucket_def hashtable_ctor_def Let_def)
  ultimately show ?thesis
    using delete_head_drops_bucket [OF two_in_bucket_inv, of "''a''" 4096 "[8192]"] by auto
qed


text \<open>The item locks serialise the keys of a region: a thread that holds the lock of one key
  spins for ever on the lock of any key of the same region, and \<open>item_trylock\<close> on it fails; the
  lock of a key of another region is still free for it.\<close>
theorem region_locks_exclude:
  assumes "region_valid hv s" and "region_valid hv' s" and "\<not> region_held hv s"
  shows "if lock_index (hashtable s) hv' = lock_index (hashtable s) hv
    then thn (hash_lock hv) (hash_lock hv') s = None \<and>
      (\<exists>s'. thn (hash_lock hv) (item_trylock hv') s = Some (Inr (None, s')))
    else region_held hv' s \<or> (\<exists>s'. thn (hash_lock hv) (hash_lock hv') s = Some (Inr ((), s')))"
  using assms
  by (auto simp: region_valid_def region_held_def hash_lock_def item_trylock_def idx_def prog_defs
      set_item_lock_def lock_index_def)

lemma region_locks_exclude_witness:
  "thn (hash_lock 3) (hash_lock 1) (small_table Map.empty) = None \<and>
   (\<exists>s'. thn (hash_lock 3) (hash_lock 2) (small_table Map.empty) = Some (Inr ((), s')))"
proof -
  have v: "region_valid hv (small_table Map.empty)" for hv
    by (simp add: region_valid_def small_table_def hashtable_ctor_def Let_def unat_hashsize lock_index_def)
  have "\<not> region_held hv (small_table Map.empty)" for hv
    by (simp add: region_held_def small_table_def hashtable_ctor_def Let_def unat_hashsize lock_index_def)
  moreover have "lock_index (hashtable (small_table Map.empty)) 3 = 1"
    "lock_index (hashtable (small_table Map.empty)) 2 = 0"
    "lock_index (hashtable (small_table Map.empty)) 1 = 1"
    by (simp_all add: small_table_def hashtable_ctor_def Let_def unat_hashsize lock_index_def hash_index_mod)
  ultimately show ?thesis
    using region_locks_exclude [OF v v, of 3 1] region_locks_exclude [OF v v, of 3 2] by simp
qed

end
