(* ===== verification/Lru.thy ===== *)
theory Lru
  imports Slabs Hashing
begin

text \<open>
  The class \<open>LRU_list\<close> of slab.cpp, except its storage commands (theory Store): the queues
  of items per slab class and the life of an item, from its allocation over linking, lookup,
  touching and unlinking to the release of a reference. What the code prints to the standard
  streams is left out.
\<close>

section \<open>The queues\<close>

definition lru_ctor :: LRU_list where
  "lru_ctor = \<lparr> heads = replicate POWER_LARGEST 0, tails = replicate POWER_LARGEST 0,
     sizes = replicate POWER_LARGEST 0 \<rparr>"

definition set_head :: "nat \<Rightarrow> addr \<Rightarrow> (machine, unit) prog" where
  "set_head i p = modify (\<lambda>s. s\<lparr>lru_list := (lru_list s)\<lparr>heads := (heads (lru_list s))[i := p]\<rparr>\<rparr>)"

definition set_tail :: "nat \<Rightarrow> addr \<Rightarrow> (machine, unit) prog" where
  "set_tail i p = modify (\<lambda>s. s\<lparr>lru_list := (lru_list s)\<lparr>tails := (tails (lru_list s))[i := p]\<rparr>\<rparr>)"

definition add_size :: "nat \<Rightarrow> u32 \<Rightarrow> (machine, unit) prog" where
  "add_size i d = bnd (gets (\<lambda>s. sizes (lru_list s))) (\<lambda>zs. thn (idx zs i)
     (modify (\<lambda>s. s\<lparr>lru_list := (lru_list s)\<lparr>sizes := (sizes (lru_list s))[i := zs ! i + d]\<rparr>\<rparr>)))"

text \<open>The guard both queue operations share.\<close>

definition queue_guard :: "base_item \<Rightarrow> bool" where
  "queue_guard c \<longleftrightarrow> unat (it_clsid c) > POWER_LARGEST \<or> it_flag c AND ITEM_SLABBED \<noteq> 0"

definition item_link_q :: "addr \<Rightarrow> (machine, unit) prog" where
  "item_link_q it = bnd (rd it) (\<lambda>c.
     if queue_guard c then ret ()
     else let i = unat (it_clsid c) in
       bnd (gets lru_list) (\<lambda>l.
       bnd (idx (heads l) i) (\<lambda>hd. bnd (idx (tails l) i) (\<lambda>tl.
       if it = hd \<or> \<not> ((hd \<noteq> 0 \<and> tl \<noteq> 0) \<or> (hd = 0 \<and> tl = 0)) then ret ()
       else seqs [
         upd it (\<lambda>c. c\<lparr>it_prev := 0\<rparr>),
         upd it (\<lambda>c. c\<lparr>it_next := hd\<rparr>),
         whenP (hd \<noteq> 0) (upd hd (\<lambda>c. c\<lparr>it_prev := it\<rparr>)),
         set_head i it,
         whenP (tl = 0) (set_tail i it),
         add_size i 1]))))"

definition item_unlink_q :: "addr \<Rightarrow> (machine, unit) prog" where
  "item_unlink_q it = bnd (rd it) (\<lambda>c.
     if queue_guard c then ret ()
     else let i = unat (it_clsid c) in
       bnd (gets lru_list) (\<lambda>l.
       bnd (idx (heads l) i) (\<lambda>hd. bnd (idx (tails l) i) (\<lambda>tl.
       seqs [
         whenP (hd = it \<and> it_prev c \<noteq> 0) (set_head i (it_next c)),
         whenP (tl = it \<and> it_next c \<noteq> 0) (set_tail i (it_prev c)),
         whenP (it_next c \<noteq> 0) (upd (it_next c) (\<lambda>d. d\<lparr>it_prev := it_prev c\<rparr>)),
         bnd (rd it) (\<lambda>c.
           whenP (it_prev c \<noteq> 0) (upd (it_prev c) (\<lambda>d. d\<lparr>it_next := it_next c\<rparr>))),
         add_size i (- 1)]))))"

section \<open>Releasing\<close>

text \<open>\<open>slabs_free\<close> under the class number the item had; the item is first taken out of it.\<close>

definition item_free :: "addr \<Rightarrow> (machine, unit) prog" where
  "item_free it = bnd (rd it) (\<lambda>c.
     bnd (gets lru_list) (\<lambda>l.
     bnd (if it_flag c AND ITEM_LINKED = 0
          then bnd (idx (heads l) (unat (it_clsid c))) (\<lambda>hd.
            if it \<noteq> hd
            then bnd (idx (tails l) (unat (it_clsid c))) (\<lambda>tl. ret (it \<noteq> tl \<and> it_refcount c = 0))
            else ret False)
          else ret False) (\<lambda>ok.
     if \<not> ok then ret ()
     else seqs [
       upd it (\<lambda>c. c\<lparr>it_clsid := 0\<rparr>),
       slabs_free it (item_total c) (unat (it_clsid c))])))"

definition do_item_remove :: "addr \<Rightarrow> (machine, unit) prog" where
  "do_item_remove it = bnd (rd it) (\<lambda>c.
     if it_flag c AND ITEM_SLABBED \<noteq> 0 then ret ()
     else thn (upd it (\<lambda>c. c\<lparr>it_refcount := it_refcount c - 1\<rparr>))
       (whenP (it_refcount c = 0) (item_free it)))"

section \<open>Linking and unlinking\<close>

text \<open>Reading the key of an item for an operation on the table.\<close>

definition item_key :: "addr \<Rightarrow> (machine, byte list) prog" where
  "item_key it = bnd (rd it) (\<lambda>c. rd_data it 0 (unat (it_nkey c)))"

definition clear_linked :: "u8 \<Rightarrow> u8" where
  "clear_linked f = f AND NOT ITEM_LINKED"

definition do_item_unlink_nolock :: "addr \<Rightarrow> u32 \<Rightarrow> (machine, unit) prog" where
  "do_item_unlink_nolock it hv = bnd (rd it) (\<lambda>c.
     whenP (it_flag c AND ITEM_LINKED \<noteq> 0) (seqs [
       upd it (\<lambda>c. c\<lparr>it_flag := clear_linked (it_flag c)\<rparr>),
       bnd (item_key it) (\<lambda>key. hash_delete key hv),
       item_unlink_q it,
       do_item_remove it]))"

definition do_item_unlink :: "addr \<Rightarrow> u32 \<Rightarrow> (machine, unit) prog" where
  "do_item_unlink it hv = seqs [
     lock_cache,
     bnd (rd it) (\<lambda>c. whenP (it_flag c AND ITEM_LINKED \<noteq> 0) (seqs [
       upd it (\<lambda>c. c\<lparr>it_flag := clear_linked (it_flag c)\<rparr>),
       bnd (item_key it) (\<lambda>key. hash_delete key hv),
       item_unlink_q it,
       do_item_remove it])),
     unlock_cache]"

definition do_item_link :: "addr \<Rightarrow> u32 \<Rightarrow> (machine, nat) prog" where
  "do_item_link it hv = bnd (rd it) (\<lambda>c.
     if it_flag c AND (ITEM_LINKED OR ITEM_SLABBED) \<noteq> 0 then ret 0
     else thn (seqs [
       lock_cache,
       upd it (\<lambda>c. c\<lparr>it_flag := it_flag c OR ITEM_LINKED\<rparr>),
       bnd current_time (\<lambda>t. upd it (\<lambda>c. c\<lparr>it_realtime := t\<rparr>)),
       bnd get_cas_id (\<lambda>v. set_cas it v),
       thn (hash_insert it hv) (ret ()),
       item_link_q it,
       upd it (\<lambda>c. c\<lparr>it_refcount := it_refcount c + 1\<rparr>),
       unlock_cache])
     (ret 1))"

text \<open>The interval is subtracted from an unsigned reading of the clock.\<close>

definition ITEM_UPDATE_INTERVAL :: u32 where "ITEM_UPDATE_INTERVAL = 60"
definition TAIL_REPAIR_TIME :: u32 where "TAIL_REPAIR_TIME = 3 * 3600"

definition do_item_update :: "addr \<Rightarrow> (machine, unit) prog" where
  "do_item_update it = bnd (rd it) (\<lambda>c. bnd current_time (\<lambda>t.
     if it_realtime c < t - ITEM_UPDATE_INTERVAL then
       if it_flag c AND ITEM_SLABBED \<noteq> 0 then ret ()
       else seqs [
         lock_cache,
         bnd (rd it) (\<lambda>c. whenP (it_flag c AND ITEM_LINKED \<noteq> 0) (seqs [
           item_unlink_q it,
           bnd current_time (\<lambda>t. upd it (\<lambda>c. c\<lparr>it_realtime := t\<rparr>)),
           item_link_q it])),
         unlock_cache]
     else ret ()))"

definition do_item_replace :: "addr \<Rightarrow> addr \<Rightarrow> u32 \<Rightarrow> (machine, nat) prog" where
  "do_item_replace it new_it hv = bnd (rd it) (\<lambda>c.
     if it_flag c AND ITEM_SLABBED \<noteq> 0 then ret 0
     else thn (do_item_unlink it hv) (do_item_link new_it hv))"

definition item_replace :: "addr \<Rightarrow> addr \<Rightarrow> u32 \<Rightarrow> (machine, nat) prog" where
  "item_replace old_it new_it hv = do_item_replace old_it new_it hv"

section \<open>Looking up\<close>

definition do_item_get :: "byte list \<Rightarrow> u32 \<Rightarrow> (machine, addr) prog" where
  "do_item_get key hv = bnd (hash_find key hv) (\<lambda>it.
     thn (whenP (it \<noteq> 0) (upd it (\<lambda>c. c\<lparr>it_refcount := it_refcount c + 1\<rparr>)))
     (if it \<noteq> 0 then
        bnd (rd it) (\<lambda>c.
        bnd (if it_exptime c \<noteq> 0 then bnd current_time (\<lambda>t. ret (it_exptime c \<le> t))
             else ret False) (\<lambda>expired.
        if expired then thn (do_item_unlink it hv) (thn (do_item_remove it) (ret 0))
        else thn (upd it (\<lambda>c. c\<lparr>it_flag := it_flag c OR ITEM_FETCHED\<rparr>)) (ret it)))
      else ret 0))"

definition do_item_touch :: "byte list \<Rightarrow> u32 \<Rightarrow> u32 \<Rightarrow> (machine, addr) prog" where
  "do_item_touch key exptime hv = bnd (do_item_get key hv) (\<lambda>it.
     thn (whenP (it \<noteq> 0) (upd it (\<lambda>c. c\<lparr>it_exptime := exptime\<rparr>))) (ret it))"

section \<open>Allocating\<close>

text \<open>
  The search of \<open>do_item_alloc\<close> from the tail of a queue for an item to take over. The
  result is \<open>it\<close>, \<open>tried_alloc\<close>, \<open>tries\<close> and \<open>search\<close> at the end of the loop. The \<open>if\<close> on
  \<open>exptime\<close> in the eviction branch governs only the assignment of \<open>it\<close>, as it does in the
  code.
\<close>

definition take_over :: "addr \<Rightarrow> nat \<Rightarrow> u32 \<Rightarrow> (machine, unit) prog" where
  "take_over it ntotal hv = seqs [
     bnd (rd it) (\<lambda>c. slabs_adjust_mem_requested (unat (it_clsid c)) (item_total c) ntotal),
     do_item_unlink_nolock it hv,
     upd it (\<lambda>c. c\<lparr>it_clsid := 0\<rparr>)]"

definition evict_or_alloc :: "addr \<Rightarrow> nat \<Rightarrow> nat \<Rightarrow> u32 \<Rightarrow> (machine, addr \<times> bool) prog" where
  "evict_or_alloc search ntotal cid hv = bnd (rd search) (\<lambda>c.
     bnd (if it_exptime c \<noteq> 0 then bnd current_time (\<lambda>t. ret (it_exptime c < t)) else ret False)
     (\<lambda>expired.
     if expired then thn (take_over search ntotal hv) (ret (search, False))
     else bnd (slabs_alloc ntotal cid) (\<lambda>r.
       if r = 0 then bnd (gets (\<lambda>s. evict_to_free (mem_setting s))) (\<lambda>ev.
         if ev = 0 then ret (0, True)
         else let it = (if it_exptime c \<noteq> 0 then search else 0) in
           thn (take_over it ntotal hv) (ret (it, True)))
       else ret (r, False))))"

partial_function (option) alloc_loop ::
  "nat \<Rightarrow> nat \<Rightarrow> int \<Rightarrow> addr \<Rightarrow> (machine, addr \<times> bool \<times> int \<times> addr) prog" where
  "alloc_loop ntotal cid tries search s =
     (if \<not> (tries > 0 \<and> search \<noteq> 0) then ret (0, False, tries, search)
      else bnd (rd search) (\<lambda>c.
        if it_nbytes c = 0 \<and> it_nkey c = 0 \<and> it_flag c = 1
        then alloc_loop ntotal cid tries (it_prev c)
        else bnd (item_key search) (\<lambda>key.
          bnd (item_trylock (hash key)) (\<lambda>lk.
          case lk of None \<Rightarrow> alloc_loop ntotal cid (tries - 1) (it_prev c)
          | Some i \<Rightarrow>
            thn (upd search (\<lambda>c. c\<lparr>it_refcount := it_refcount c + 1\<rparr>))
            (if it_refcount c \<noteq> 2 then
               thn (seqs [
                 upd search (\<lambda>c. c\<lparr>it_refcount := it_refcount c - 1\<rparr>),
                 bnd current_time (\<lambda>t. whenP (it_realtime c + TAIL_REPAIR_TIME < t) (seqs [
                   upd search (\<lambda>c. c\<lparr>it_refcount := 1\<rparr>),
                   do_item_unlink_nolock search (hash key)])),
                 item_trylock_unlock i])
               (alloc_loop ntotal cid (tries - 1) (it_prev c))
             else bnd (evict_or_alloc search ntotal cid (hash key)) (\<lambda>(it, tried).
               thn (seqs [
                 upd search (\<lambda>c. c\<lparr>it_refcount := it_refcount c - 1\<rparr>),
                 item_trylock_unlock i])
               (ret (it, tried, tries, search)))))))) s"

declare alloc_loop.simps [code]

text \<open>The parameters \<open>key\<close>, \<open>flags\<close>, \<open>exptime\<close> and \<open>cur_hv\<close> are not used by the code.\<close>

definition do_item_alloc :: "nat \<Rightarrow> int \<Rightarrow> (machine, addr) prog" where
  "do_item_alloc nkey nbytes =
     (let ntotal = size_t (c_int (int sizeof_base_item + int nkey + 1 + nbytes)) in
      bnd (slabs_clsid ntotal) (\<lambda>cid.
      if cid = 0 then ret 0
      else thn lock_cache
        (bnd (gets (\<lambda>s. tails (lru_list s))) (\<lambda>ts. bnd (idx ts cid) (\<lambda>search0.
         bnd (alloc_loop ntotal cid 5 search0) (\<lambda>(it, tried, tries, search).
         bnd (if \<not> tried \<and> (tries = 0 \<or> search = 0) then slabs_alloc ntotal cid else ret it)
         (\<lambda>it. thn unlock_cache (ret it))))))))"

section \<open>The entry points, under the region lock of the key\<close>

definition under_region :: "addr \<Rightarrow> (u32 \<Rightarrow> (machine, 'a) prog) \<Rightarrow> (machine, 'a) prog" where
  "under_region it body = bnd (item_key it) (\<lambda>key.
     thn (hash_lock (hash key)) (bnd (body (hash key)) (\<lambda>r. thn (hash_unlock (hash key)) (ret r))))"

definition item_link :: "addr \<Rightarrow> (machine, nat) prog" where
  "item_link it = under_region it (\<lambda>hv. do_item_link it hv)"

definition item_unlink :: "addr \<Rightarrow> (machine, unit) prog" where
  "item_unlink it = under_region it (\<lambda>hv. do_item_unlink it hv)"

definition item_update :: "addr \<Rightarrow> (machine, unit) prog" where
  "item_update it = under_region it (\<lambda>hv. do_item_update it)"

definition item_remove :: "addr \<Rightarrow> (machine, unit) prog" where
  "item_remove it = under_region it (\<lambda>hv. do_item_remove it)"

definition item_alloc :: "nat \<Rightarrow> int \<Rightarrow> (machine, addr) prog" where
  "item_alloc nkey nbytes = do_item_alloc nkey nbytes"

definition item_get :: "byte list \<Rightarrow> (machine, addr) prog" where
  "item_get key = thn (hash_lock (hash key)) (bnd (do_item_get key (hash key))
     (\<lambda>it. thn (hash_unlock (hash key)) (ret it)))"

definition item_touch :: "byte list \<Rightarrow> u32 \<Rightarrow> (machine, addr) prog" where
  "item_touch key exptime = thn (hash_lock (hash key)) (bnd (do_item_touch key exptime (hash key))
     (\<lambda>it. thn (hash_unlock (hash key)) (ret it)))"

section \<open>The invariant of the item store\<close>

text \<open>
  \<open>K\<close> is the set of items that entered the queue at some time. Their queue pointers, and
  the heads and tails, stay inside \<open>K\<close>: the queue may contain stale entries, but no dangling
  pointer. An item in use that never entered it (\<open>item_link_q\<close> refuses when only one of head
  and tail is null) keeps the pointers it had as a chunk of a free list: no predecessor, and
  some chunk as its successor. Since no code sets a class number, every item is in queue 0.
\<close>

definition lru_ok :: "addr set \<Rightarrow> machine \<Rightarrow> bool" where
  "lru_ok K s \<longleftrightarrow>
     (\<forall>x \<in> K. \<exists>c. heap s x = Some c \<and> it_next c \<in> insert 0 K \<and> it_prev c \<in> insert 0 K) \<and>
     length (heads (lru_list s)) = POWER_LARGEST \<and> length (tails (lru_list s)) = POWER_LARGEST \<and>
     length (sizes (lru_list s)) = POWER_LARGEST \<and>
     heads (lru_list s) ! 0 \<in> insert 0 K \<and> tails (lru_list s) ! 0 \<in> insert 0 K \<and>
     (\<forall>i < POWER_LARGEST. 0 < i \<longrightarrow> tails (lru_list s) ! i = 0)"

definition stray_ok :: "addr set \<Rightarrow> (addr \<rightharpoonup> base_item) \<Rightarrow> bool" where
  "stray_ok FK h \<longleftrightarrow> (\<forall>a c. h a = Some c \<longrightarrow> a \<notin> FK \<longrightarrow>
     it_prev c = 0 \<and> it_next c \<in> insert 0 (dom h))"

definition all_class0 :: "(addr \<rightharpoonup> base_item) \<Rightarrow> bool" where
  "all_class0 h \<longleftrightarrow> (\<forall>a c. h a = Some c \<longrightarrow> it_clsid c = 0)"

definition base_inv ::
  "(nat \<Rightarrow> addr list) \<Rightarrow> (nat \<Rightarrow> addr list) \<Rightarrow> addr set \<Rightarrow> machine \<Rightarrow> bool" where
  "base_inv fl bl K s \<longleftrightarrow> slab_inv fl s \<and> hash_inv bl s \<and> lru_ok K s \<and>
     in_table bl s \<inter> frees fl (slab s) = {} \<and> K \<inter> frees fl (slab s) = {} \<and>
     stray_ok (frees fl (slab s) \<union> K) (heap s) \<and>
     all_class0 (heap s) \<and> power_largest (slab s) < POWER_LARGEST"

text \<open>
  What the operations do to the items: \<open>core\<close> is what is left of an item without its
  pointers, its reference count and its time stamp.
\<close>

definition core :: "base_item \<Rightarrow> base_item" where
  "core c = c\<lparr>it_next := 0, it_prev := 0, it_h_next := 0, it_refcount := 0, it_realtime := 0\<rparr>"

definition same_under :: "(base_item \<Rightarrow> 'b) \<Rightarrow> (addr \<rightharpoonup> base_item) \<Rightarrow> (addr \<rightharpoonup> base_item) \<Rightarrow> bool" where
  "same_under f h h' \<longleftrightarrow> (\<forall>x. map_option f (h' x) = map_option f (h x))"

definition no_links :: "base_item \<Rightarrow> base_item" where
  "no_links c = c\<lparr>it_next := 0, it_prev := 0\<rparr>"

lemma same_under_refl [simp]: "same_under f h h"
  by (simp add: same_under_def)

lemma same_under_trans: "same_under f h h' \<Longrightarrow> same_under f h' h'' \<Longrightarrow> same_under f h h''"
  by (simp add: same_under_def)

lemma same_under_upd: "h x = Some c \<Longrightarrow> f c' = f c \<Longrightarrow> same_under f h (h(x \<mapsto> c'))"
  by (simp add: same_under_def)

lemma same_under_cell:
  assumes "same_under f h h'" and "h x = Some c"
  shows "\<exists>c'. h' x = Some c' \<and> f c' = f c"
proof -
  have "map_option f (h' x) = Some (f c)" using assms by (simp add: same_under_def)
  then show ?thesis by auto
qed

lemma same_under_back:
  assumes "same_under f h h'" and "h' x = Some c'"
  shows "\<exists>c. h x = Some c \<and> f c' = f c"
proof -
  have "map_option f (h' x) = map_option f (h x)" using assms(1) by (simp add: same_under_def)
  then show ?thesis using assms(2) by (cases "h x") auto
qed

lemma same_under_weaken:
  assumes "same_under f h h'" and "\<And>c c'. f c' = f c \<Longrightarrow> g c' = g c"
  shows "same_under g h h'"
  unfolding same_under_def
proof
  fix x
  have "map_option f (h' x) = map_option f (h x)" using assms(1) by (simp add: same_under_def)
  then show "map_option g (h' x) = map_option g (h x)"
    by (cases "h x"; cases "h' x") (simp_all, metis assms(2))
qed

lemma no_links_eq:
  assumes "no_links c' = no_links c"
  shows "core c' = core c" "it_h_next c' = it_h_next c" "it_flag c' = it_flag c"
    "it_nkey c' = it_nkey c" "it_data c' = it_data c" "it_clsid c' = it_clsid c"
    "it_refcount c' = it_refcount c"
  using assms by (cases c; cases c'; simp add: no_links_def core_def)+

lemma core_eq:
  assumes "core c' = core c"
  shows "it_nkey c' = it_nkey c" "it_data c' = it_data c" "it_flag c' = it_flag c"
    "it_clsid c' = it_clsid c" "it_nbytes c' = it_nbytes c" "it_exptime c' = it_exptime c"
    "it_cas c' = it_cas c"
  using assms by (cases c; cases c'; simp add: core_def)+

section \<open>Preservation\<close>

lemma base_inv_change:
  assumes inv: "base_inv fl bl K s"
    and eq: "slab s' = slab s" "brk s' = brk s" "hashtable s' = hashtable s"
    and k: "keeps (frees fl (slab s)) (heap s) (heap s')"
      "keys_kept (in_table bl s) (heap s) (heap s')"
    and K: "lru_ok K' s'" "K' \<inter> frees fl (slab s) = {}"
      "stray_ok (frees fl (slab s) \<union> K') (heap s')" and c0: "all_class0 (heap s')"
  shows "base_inv fl bl K' s'"
proof -
  have "slab_inv fl s'" by (rule slab_inv_keeps [of fl s]) (use inv eq k in \<open>simp_all add: base_inv_def\<close>)
  moreover have "hash_inv bl s'"
    by (rule hash_inv_kept(1) [of bl s]) (use inv eq k in \<open>simp_all add: base_inv_def\<close>)
  moreover have "in_table bl s' = in_table bl s" using eq by (simp add: in_table_def)
  ultimately show ?thesis using inv eq K c0 by (simp add: base_inv_def)
qed

lemma lru_ok_cell:
  assumes "lru_ok K s" and "a \<in> K \<Longrightarrow> it_next c' \<in> insert 0 K \<and> it_prev c' \<in> insert 0 K"
  shows "lru_ok K (s\<lparr>heap := (heap s)(a \<mapsto> c')\<rparr>)"
  using assms unfolding lru_ok_def by auto

lemma all_class0_upd: "all_class0 h \<Longrightarrow> it_clsid c' = 0 \<Longrightarrow> all_class0 (h(a \<mapsto> c'))"
  by (simp add: all_class0_def)

lemma base_inv_class0: "base_inv fl bl K s \<Longrightarrow> heap s a = Some c \<Longrightarrow> it_clsid c = 0"
  by (simp add: base_inv_def all_class0_def)

text \<open>Writing one cell: an item that is not free may change all that is not its extent, if it
  keeps what the table and the queues follow.\<close>

lemma base_inv_upd:
  assumes inv: "base_inv fl bl K s" and a: "heap s a = Some c"
    and F: "a \<notin> frees fl (slab s) \<or> c' = c\<lparr>it_prev := 0\<rparr>"
    and c': "length (it_data c') = length (it_data c)" "it_clsid c' = 0"
    and t: "a \<in> in_table bl s \<Longrightarrow> it_h_next c' = it_h_next c \<and> it_nkey c' = it_nkey c \<and> it_data c' = it_data c"
    and K: "a \<in> K \<Longrightarrow> it_next c' \<in> insert 0 K \<and> it_prev c' \<in> insert 0 K"
    and N: "a \<notin> K \<Longrightarrow> it_next c' = it_next c \<and> (it_prev c' = it_prev c \<or> it_prev c' = 0)"
  shows "base_inv fl bl K (s\<lparr>heap := (heap s)(a \<mapsto> c')\<rparr>)"
proof (rule base_inv_change [OF inv])
  show "keeps (frees fl (slab s)) (heap s) (heap (s\<lparr>heap := (heap s)(a \<mapsto> c')\<rparr>))"
    using keeps_upd [of "heap s" a c, OF a F c'(1)] by simp
  show "keys_kept (in_table bl s) (heap s) (heap (s\<lparr>heap := (heap s)(a \<mapsto> c')\<rparr>))"
    using t a(1) by (cases "a \<in> in_table bl s") (auto simp: keys_kept_upd keys_kept_off)
  show "lru_ok K (s\<lparr>heap := (heap s)(a \<mapsto> c')\<rparr>)"
    by (rule lru_ok_cell) (use inv K in \<open>auto simp: base_inv_def\<close>)
  show "stray_ok (frees fl (slab s) \<union> K) (heap (s\<lparr>heap := (heap s)(a \<mapsto> c')\<rparr>))"
    using inv N a unfolding base_inv_def stray_ok_def by (auto simp: dom_def)
  show "all_class0 (heap (s\<lparr>heap := (heap s)(a \<mapsto> c')\<rparr>))"
    using inv c'(2) by (simp add: base_inv_def all_class0_upd)
qed (use inv in \<open>simp_all add: base_inv_def\<close>)

lemma base_inv_cell:
  assumes "base_inv fl bl K s" and "x \<in> K"
  shows "x \<noteq> 0" "x \<notin> frees fl (slab s)"
    "\<exists>c. heap s x = Some c \<and> it_next c \<in> insert 0 K \<and> it_prev c \<in> insert 0 K"
proof -
  show *: "\<exists>c. heap s x = Some c \<and> it_next c \<in> insert 0 K \<and> it_prev c \<in> insert 0 K"
    using assms by (auto simp: base_inv_def lru_ok_def)
  then show "x \<noteq> 0" using assms(1) inv_heap_nonnull unfolding base_inv_def by blast
  show "x \<notin> frees fl (slab s)" using assms by (auto simp: base_inv_def)
qed

lemma base_inv_in_heap:
  assumes "base_inv fl bl K s" and "heap s a = Some c"
  shows "a \<noteq> 0"
  using assms inv_heap_nonnull unfolding base_inv_def by blast

lemma base_inv_irrelevant [simp]:
  "base_inv fl bl K (s\<lparr>cache_lock := b\<rparr>) = base_inv fl bl K s"
  "base_inv fl bl K (s\<lparr>clock_reads := n\<rparr>) = base_inv fl bl K s"
  "base_inv fl bl K (s\<lparr>last_cas_id := v\<rparr>) = base_inv fl bl K s"
  by (simp_all add: base_inv_def slab_inv_def heap_ok_def free_ok_def hash_inv_def lru_ok_def
        in_table_def)

section \<open>The queue operations\<close>

lemma wp_seqs_step:
  "wp m P s \<Longrightarrow> (\<And>x t. P x t \<Longrightarrow> wp (seqs ms) Q t) \<Longrightarrow> wp (seqs (m # ms)) Q s"
  unfolding wp_seqs_Cons by (rule wp_mono)

text \<open>A step of the queues: only \<open>next\<close>, \<open>prev\<close> and the queue vectors change.\<close>

definition lru_step :: "machine \<Rightarrow> machine \<Rightarrow> bool" where
  "lru_step s s' \<longleftrightarrow> same_under no_links (heap s) (heap s') \<and>
     (\<exists>h l. s' = s\<lparr>heap := h, lru_list := l\<rparr>)"

lemma lru_step_refl [simp]: "lru_step s s"
  by (auto simp: lru_step_def intro!: exI [of _ "heap s"] exI [of _ "lru_list s"])

lemma lru_step_trans:
  assumes "lru_step a b" and "lru_step b c"
  shows "lru_step a c"
proof -
  obtain h l h' l' where "b = a\<lparr>heap := h, lru_list := l\<rparr>" "c = b\<lparr>heap := h', lru_list := l'\<rparr>"
    using assms unfolding lru_step_def by blast
  then have "c = a\<lparr>heap := h', lru_list := l'\<rparr>" by simp
  then show ?thesis using assms same_under_trans unfolding lru_step_def by blast
qed

lemma lru_step_heap: "heap t a = Some d \<Longrightarrow> no_links d' = no_links d \<Longrightarrow>
    lru_step t (t\<lparr>heap := (heap t)(a \<mapsto> d')\<rparr>)"
  unfolding lru_step_def
  by (intro conjI exI [of _ "(heap t)(a \<mapsto> d')"] exI [of _ "lru_list t"])
    (simp_all add: same_under_upd)

lemma lru_step_list: "lru_step t (t\<lparr>lru_list := l\<rparr>)"
  unfolding lru_step_def by (intro conjI exI [of _ "heap t"] exI [of _ l]) simp_all

definition queue_state where
  "queue_state fl bl K s t \<longleftrightarrow> base_inv fl bl K t \<and> lru_step s t"

lemma queue_state_links:
  assumes q: "queue_state fl bl K s t" and a: "heap t a = Some d" and nl: "no_links d' = no_links d"
    and K: "a \<in> K \<Longrightarrow> it_next d' \<in> insert 0 K \<and> it_prev d' \<in> insert 0 K"
    and N: "a \<notin> K \<Longrightarrow> d' = d\<lparr>it_prev := 0\<rparr>"
  shows "queue_state fl bl K s (t\<lparr>heap := (heap t)(a \<mapsto> d')\<rparr>)"
proof -
  have b: "base_inv fl bl K t" using q by (simp add: queue_state_def)
  have "base_inv fl bl K (t\<lparr>heap := (heap t)(a \<mapsto> d')\<rparr>)"
  proof (rule base_inv_upd [OF b a])
    show "a \<notin> frees fl (slab t) \<or> d' = d\<lparr>it_prev := 0\<rparr>"
      using N base_inv_cell(2) [OF b, of a] by blast
    show "it_next d' = it_next d \<and> (it_prev d' = it_prev d \<or> it_prev d' = 0)" if "a \<notin> K"
      using N [OF that] by simp
  qed (use K no_links_eq [OF nl] base_inv_class0 [OF b a] in simp_all)
  moreover have "lru_step t (t\<lparr>heap := (heap t)(a \<mapsto> d')\<rparr>)" by (rule lru_step_heap [OF a nl])
  ultimately show ?thesis using q lru_step_trans unfolding queue_state_def by blast
qed

lemma queue_state_vectors:
  assumes "queue_state fl bl K s t" and "length (heads l) = POWER_LARGEST"
    and "length (tails l) = POWER_LARGEST" and "length (sizes l) = POWER_LARGEST"
    and "heads l ! 0 \<in> insert 0 K" and "tails l ! 0 \<in> insert 0 K"
    and "\<forall>i < POWER_LARGEST. 0 < i \<longrightarrow> tails l ! i = 0"
  shows "queue_state fl bl K s (t\<lparr>lru_list := l\<rparr>)"
proof -
  have "base_inv fl bl K (t\<lparr>lru_list := l\<rparr>)"
    using assms by (simp add: queue_state_def base_inv_def slab_inv_def heap_ok_def free_ok_def
      hash_inv_def lru_ok_def in_table_def)
  moreover have "lru_step t (t\<lparr>lru_list := l\<rparr>)" by (rule lru_step_list)
  ultimately show ?thesis using assms(1) lru_step_trans unfolding queue_state_def by blast
qed

lemma and_or_bits: "(f OR g) AND h = (f AND h) OR (g AND h)" for f g h :: u8
  by (simp add: bit.conj_disj_distrib2)

lemma item_bits [simp]:
  "(f OR ITEM_LINKED) AND ITEM_SLABBED = f AND ITEM_SLABBED"
  "(f OR ITEM_FETCHED) AND ITEM_SLABBED = f AND ITEM_SLABBED"
  "(f OR ITEM_FETCHED) AND ITEM_LINKED = f AND ITEM_LINKED"
  "(f OR ITEM_LINKED) AND ITEM_LINKED = ITEM_LINKED"
  "clear_linked f AND ITEM_SLABBED = f AND ITEM_SLABBED"
  "clear_linked f AND ITEM_LINKED = 0"
  for f :: u8
proof -
  show "(f OR ITEM_LINKED) AND ITEM_LINKED = ITEM_LINKED"
    by (rule bit_eqI) (auto simp: bit_simps)
qed (simp_all add: and_or_bits and.assoc clear_linked_def)

lemma queue_lists:
  assumes "base_inv fl bl K s"
  shows "length (heads (lru_list s)) = POWER_LARGEST" "length (tails (lru_list s)) = POWER_LARGEST"
    "length (sizes (lru_list s)) = POWER_LARGEST"
    "heads (lru_list s) ! 0 \<in> insert 0 K" "tails (lru_list s) ! 0 \<in> insert 0 K"
    "\<And>i. i < POWER_LARGEST \<Longrightarrow> 0 < i \<Longrightarrow> tails (lru_list s) ! i = 0"
  using assms unfolding base_inv_def lru_ok_def by blast+

lemma queue_state_inv: "queue_state fl bl K s t \<Longrightarrow> base_inv fl bl K t"
  by (simp add: queue_state_def)

lemma queue_state_refl: "base_inv fl bl K s \<Longrightarrow> queue_state fl bl K s s"
  by (simp add: queue_state_def)

lemma queue_state_dom: "queue_state fl bl K s t \<Longrightarrow> heap s a = Some c \<Longrightarrow>
    \<exists>d. heap t a = Some d \<and> no_links d = no_links c"
  unfolding queue_state_def lru_step_def using same_under_cell by blast

lemma stray_cell:
  assumes "base_inv fl bl K s" and "heap s a = Some c" and "a \<notin> frees fl (slab s)" and "a \<notin> K"
  shows "it_prev c = 0" "it_next c \<noteq> 0 \<Longrightarrow> \<exists>d. heap s (it_next c) = Some d"
proof -
  have "stray_ok (frees fl (slab s) \<union> K) (heap s)" using assms(1) by (simp add: base_inv_def)
  then have "it_prev c = 0 \<and> it_next c \<in> insert 0 (dom (heap s))"
    using assms(2-4) by (simp add: stray_ok_def)
  then show "it_prev c = 0" "it_next c \<noteq> 0 \<Longrightarrow> \<exists>d. heap s (it_next c) = Some d" by auto
qed

lemma queue_state_frees: "queue_state fl bl K s t \<Longrightarrow> frees fl (slab t) = frees fl (slab s)"
  by (auto simp: queue_state_def lru_step_def)

lemma wp_add_size0:
  assumes "queue_state fl bl K s t"
  shows "wp (add_size 0 d) (\<lambda>_. queue_state fl bl K s) t"
proof -
  note ql = queue_lists [OF queue_state_inv [OF assms]]
  have "queue_state fl bl K s (t\<lparr>lru_list := (lru_list t)\<lparr>sizes := (sizes (lru_list t))[0 := z]\<rparr>\<rparr>)" for z
    by (rule queue_state_vectors [OF assms]) (use ql in simp_all)
  then show ?thesis using ql(3) by (simp add: add_size_def wp_rules power_defs)
qed

lemma wp_set_head0:
  assumes "queue_state fl bl K s t" and "p \<in> insert 0 K"
  shows "wp (set_head 0 p) (\<lambda>_. queue_state fl bl K s) t"
proof -
  note ql = queue_lists [OF queue_state_inv [OF assms(1)]]
  have "queue_state fl bl K s (t\<lparr>lru_list := (lru_list t)\<lparr>heads := (heads (lru_list t))[0 := p]\<rparr>\<rparr>)"
    by (rule queue_state_vectors [OF assms(1)])
      (use ql(1-3,5,6) assms(2) in \<open>simp_all add: power_defs\<close>)
  then show ?thesis by (simp add: set_head_def wp_rules)
qed

lemma wp_set_tail0:
  assumes "queue_state fl bl K s t" and "p \<in> insert 0 K"
  shows "wp (set_tail 0 p) (\<lambda>_. queue_state fl bl K s) t"
proof -
  note ql = queue_lists [OF queue_state_inv [OF assms(1)]]
  have "queue_state fl bl K s (t\<lparr>lru_list := (lru_list t)\<lparr>tails := (tails (lru_list t))[0 := p]\<rparr>\<rparr>)"
    by (rule queue_state_vectors [OF assms(1)])
      (use ql(1-4,6) assms(2) in \<open>simp_all add: power_defs\<close>)
  then show ?thesis by (simp add: set_tail_def wp_rules)
qed

lemma wp_whenP_inv: "P () s \<Longrightarrow> (b \<Longrightarrow> wp m P s) \<Longrightarrow> wp (whenP b m) P s"
  by (simp add: wp_whenP)

text \<open>Unlinking is safe for every item in use, whatever the queue holds.\<close>

lemma item_unlink_q_spec:
  assumes inv: "base_inv fl bl K s" and it: "heap s it = Some c" "it \<notin> frees fl (slab s)"
    and sl: "it_flag c AND ITEM_SLABBED = 0"
  shows "\<exists>s'. item_unlink_q it s = Some (Inr ((), s')) \<and> queue_state fl bl K s s'"
proof -
  define P where "P = (\<lambda>_ :: unit. queue_state fl bl K s)"
  have cl: "it_clsid c = 0" by (rule base_inv_class0 [OF inv it(1)])
  have it0: "it \<noteq> 0" by (rule base_inv_in_heap [OF inv it(1)])
  have g: "\<not> queue_guard c" using cl sl by (simp add: queue_guard_def)
  note ql = queue_lists [OF inv]
  let ?n = "it_next c" and ?p = "it_prev c"
  have np: "it \<in> K \<Longrightarrow> ?n \<in> insert 0 K \<and> ?p \<in> insert 0 K"
    using base_inv_cell(3) [OF inv, of it] it(1) by auto
  have ndom: "\<exists>d. heap s ?n = Some d" if "?n \<noteq> 0"
  proof (cases "it \<in> K")
    case True
    then show ?thesis using np that base_inv_cell(3) [OF inv, of ?n] by auto
  next
    case False
    then show ?thesis using stray_cell(2) [OF inv it] that by blast
  qed
  have head: "wp (whenP (heads (lru_list s) ! 0 = it \<and> ?p \<noteq> 0) (set_head 0 ?n)) P t" if t: "P x t" for x t
    unfolding P_def
  proof (rule wp_whenP_inv)
    show "queue_state fl bl K s t" using t by (simp add: P_def)
    show "wp (set_head 0 ?n) (\<lambda>_. queue_state fl bl K s) t" if "heads (lru_list s) ! 0 = it \<and> ?p \<noteq> 0"
      using t that ql(4) it0 np by (intro wp_set_head0) (auto simp: P_def)
  qed
  have tail: "wp (whenP (tails (lru_list s) ! 0 = it \<and> ?n \<noteq> 0) (set_tail 0 ?p)) P t" if t: "P x t" for x t
    unfolding P_def
  proof (rule wp_whenP_inv)
    show "queue_state fl bl K s t" using t by (simp add: P_def)
    show "wp (set_tail 0 ?p) (\<lambda>_. queue_state fl bl K s) t" if "tails (lru_list s) ! 0 = it \<and> ?n \<noteq> 0"
      using t that ql(5) it0 np by (intro wp_set_tail0) (auto simp: P_def)
  qed
  have nextw: "wp (whenP (?n \<noteq> 0) (upd ?n (\<lambda>d. d\<lparr>it_prev := ?p\<rparr>))) P t" if t: "P x t" for x t
    unfolding P_def
  proof (rule wp_whenP_inv)
    show q: "queue_state fl bl K s t" using t by (simp add: P_def)
    show "wp (upd ?n (\<lambda>d. d\<lparr>it_prev := ?p\<rparr>)) (\<lambda>_. queue_state fl bl K s) t" if n: "?n \<noteq> 0"
    proof -
      obtain d where d: "heap t ?n = Some d" using ndom [OF n] queue_state_dom [OF q] by blast
      have "queue_state fl bl K s (t\<lparr>heap := (heap t)(?n \<mapsto> d\<lparr>it_prev := ?p\<rparr>)\<rparr>)"
      proof (rule queue_state_links [OF q d])
        show "?n \<in> K \<Longrightarrow> it_next (d\<lparr>it_prev := ?p\<rparr>) \<in> insert 0 K \<and> it_prev (d\<lparr>it_prev := ?p\<rparr>) \<in> insert 0 K"
          using base_inv_cell(3) [OF queue_state_inv [OF q], of ?n] d np stray_cell(1) [OF inv it]
          by (cases "it \<in> K") auto
        show "?n \<notin> K \<Longrightarrow> d\<lparr>it_prev := ?p\<rparr> = d\<lparr>it_prev := 0\<rparr>"
          using np n stray_cell(1) [OF inv it] by (cases "it \<in> K") auto
      qed (simp add: no_links_def)
      then show ?thesis using d n by (simp add: wp_upd)
    qed
  qed
  have prevw: "wp (bnd (rd it) (\<lambda>c. whenP (it_prev c \<noteq> 0)
      (upd (it_prev c) (\<lambda>d. d\<lparr>it_next := it_next c\<rparr>)))) P t" if t: "P x t" for x t
  proof -
    have q: "queue_state fl bl K s t" using t by (simp add: P_def)
    note b = queue_state_inv [OF q]
    obtain e where e: "heap t it = Some e" using queue_state_dom [OF q it(1)] by blast
    have "wp (upd (it_prev e) (\<lambda>d. d\<lparr>it_next := it_next e\<rparr>)) P t" if p: "it_prev e \<noteq> 0"
    proof -
      have K: "it \<in> K"
        using stray_cell(1) [OF b e] p it(2) queue_state_frees [OF q] by auto
      then have ek: "it_prev e \<in> K" "it_next e \<in> insert 0 K"
        using base_inv_cell(3) [OF b K] e p by auto
      obtain d where d: "heap t (it_prev e) = Some d" "it_prev d \<in> insert 0 K"
        using base_inv_cell(3) [OF b ek(1)] by auto
      have "queue_state fl bl K s (t\<lparr>heap := (heap t)(it_prev e \<mapsto> d\<lparr>it_next := it_next e\<rparr>)\<rparr>)"
        by (rule queue_state_links [OF q d(1)]) (use ek d(2) in \<open>simp_all add: no_links_def\<close>)
      then show ?thesis using d p by (simp add: wp_upd P_def)
    qed
    then show ?thesis using e it0 t by (simp add: wp_bnd wp_rd wp_whenP P_def)
  qed
  have "wp (item_unlink_q it) P s \<longleftrightarrow> wp (seqs [
         whenP (heads (lru_list s) ! 0 = it \<and> ?p \<noteq> 0) (set_head 0 ?n),
         whenP (tails (lru_list s) ! 0 = it \<and> ?n \<noteq> 0) (set_tail 0 ?p),
         whenP (?n \<noteq> 0) (upd ?n (\<lambda>d. d\<lparr>it_prev := ?p\<rparr>)),
         bnd (rd it) (\<lambda>c.
           whenP (it_prev c \<noteq> 0) (upd (it_prev c) (\<lambda>d. d\<lparr>it_next := it_next c\<rparr>))),
         add_size 0 (- 1)]) P s"
    using it(1) it0 g cl ql(1,2)
    by (simp add: item_unlink_q_def wp_bnd wp_rd wp_gets wp_idx wp_if Let_def power_defs)
  moreover have "wp (seqs [
         whenP (heads (lru_list s) ! 0 = it \<and> ?p \<noteq> 0) (set_head 0 ?n),
         whenP (tails (lru_list s) ! 0 = it \<and> ?n \<noteq> 0) (set_tail 0 ?p),
         whenP (?n \<noteq> 0) (upd ?n (\<lambda>d. d\<lparr>it_prev := ?p\<rparr>)),
         bnd (rd it) (\<lambda>c.
           whenP (it_prev c \<noteq> 0) (upd (it_prev c) (\<lambda>d. d\<lparr>it_next := it_next c\<rparr>))),
         add_size 0 (- 1)]) P s"
  proof -
    have "P () s" using queue_state_refl [OF inv] by (simp add: P_def)
    then show ?thesis
      by (intro wp_seqs_step [where P = P] head tail nextw prevw wp_add_size0 [folded P_def])
        (assumption | simp add: P_def wp_seqs_Nil wp_add_size0)+
  qed
  ultimately show ?thesis by (auto simp: wp_iff P_def)
qed

lemma lru_step_trans_queue: "lru_step s t \<Longrightarrow> queue_state fl bl K t u \<Longrightarrow> queue_state fl bl K s u"
  unfolding queue_state_def using lru_step_trans by blast

lemma base_inv_enter:
  assumes inv: "base_inv fl bl K s" and it: "heap s it = Some c" "it \<notin> frees fl (slab s)"
    and q: "q \<in> insert 0 K"
  shows "base_inv fl bl (insert it K) (s\<lparr>heap := (heap s)(it \<mapsto> c\<lparr>it_prev := 0, it_next := q\<rparr>)\<rparr>)"
proof (rule base_inv_change [OF inv])
  let ?c = "c\<lparr>it_prev := 0, it_next := q\<rparr>"
  let ?s = "s\<lparr>heap := (heap s)(it \<mapsto> ?c)\<rparr>"
  show "keeps (frees fl (slab s)) (heap s) (heap ?s)"
    using keeps_upd [of "heap s" it c "frees fl (slab s)" ?c] it by simp
  show "keys_kept (in_table bl s) (heap s) (heap ?s)" using it(1) by (simp add: keys_kept_upd)
  show "lru_ok (insert it K) ?s"
    using inv q unfolding base_inv_def lru_ok_def by auto
  show "insert it K \<inter> frees fl (slab s) = {}" using inv it(2) by (auto simp: base_inv_def)
  show "stray_ok (frees fl (slab s) \<union> insert it K) (heap ?s)"
    using inv unfolding base_inv_def stray_ok_def by (auto simp: dom_def)
  show "all_class0 (heap ?s)"
    using inv base_inv_class0 [OF inv it(1)] by (simp add: base_inv_def all_class0_upd)
qed simp_all

lemma item_link_q_spec:
  assumes inv: "base_inv fl bl K s" and it: "heap s it = Some c" "it \<notin> frees fl (slab s)"
    and sl: "it_flag c AND ITEM_SLABBED = 0"
  shows "\<exists>s' K'. item_link_q it s = Some (Inr ((), s')) \<and> queue_state fl bl K' s s'"
proof -
  have cl: "it_clsid c = 0" by (rule base_inv_class0 [OF inv it(1)])
  have it0: "it \<noteq> 0" by (rule base_inv_in_heap [OF inv it(1)])
  have g: "\<not> queue_guard c" using cl sl by (simp add: queue_guard_def)
  note ql = queue_lists [OF inv]
  let ?hd = "heads (lru_list s) ! 0" and ?tl = "tails (lru_list s) ! 0"
  show ?thesis
  proof (cases "it = ?hd \<or> \<not> ((?hd \<noteq> 0 \<and> ?tl \<noteq> 0) \<or> (?hd = 0 \<and> ?tl = 0))")
    case True
    have "wp (item_link_q it) (\<lambda>_ s'. s' = s) s"
      using True it(1) it0 g cl ql(1,2)
      by (simp add: item_link_q_def wp_bnd wp_rd wp_gets wp_idx wp_if wp_ret Let_def power_defs)
    then show ?thesis using queue_state_refl [OF inv] by (auto simp: wp_iff)
  next
    case False
    let ?c = "c\<lparr>it_prev := 0, it_next := ?hd\<rparr>"
    let ?s = "s\<lparr>heap := (heap s)(it \<mapsto> ?c)\<rparr>" and ?K = "insert it K"
    have step: "lru_step s ?s" by (rule lru_step_heap [OF it(1)]) (simp add: no_links_def)
    have inv1: "base_inv fl bl ?K ?s" by (rule base_inv_enter [OF inv it ql(4)])
    define P where "P = (\<lambda>_ :: unit. queue_state fl bl ?K ?s)"
    have hdw: "wp (whenP (?hd \<noteq> 0) (upd ?hd (\<lambda>c. c\<lparr>it_prev := it\<rparr>))) P t" if t: "P x t" for x t
      unfolding P_def
    proof (rule wp_whenP_inv)
      show q: "queue_state fl bl ?K ?s t" using t by (simp add: P_def)
      show "wp (upd ?hd (\<lambda>c. c\<lparr>it_prev := it\<rparr>)) (\<lambda>_. queue_state fl bl ?K ?s) t" if n: "?hd \<noteq> 0"
      proof -
        have hK: "?hd \<in> ?K" using ql(4) n by simp
        obtain d where d: "heap t ?hd = Some d" "it_next d \<in> insert 0 ?K"
          using base_inv_cell(3) [OF queue_state_inv [OF q] hK] by auto
        have "queue_state fl bl ?K ?s (t\<lparr>heap := (heap t)(?hd \<mapsto> d\<lparr>it_prev := it\<rparr>)\<rparr>)"
          by (rule queue_state_links [OF q d(1)]) (use hK d(2) in \<open>simp_all add: no_links_def\<close>)
        then show ?thesis using d n by (simp add: wp_upd)
      qed
    qed
    have tlw: "wp (whenP (?tl = 0) (set_tail 0 it)) P t" if t: "P x t" for x t
      unfolding P_def
    proof (rule wp_whenP_inv)
      show "queue_state fl bl ?K ?s t" using t by (simp add: P_def)
      then show "wp (set_tail 0 it) (\<lambda>_. queue_state fl bl ?K ?s) t" by (rule wp_set_tail0) simp
    qed
    have headw: "wp (set_head 0 it) P t" if t: "P x t" for x t
      unfolding P_def by (rule wp_set_head0) (use t in \<open>simp_all add: P_def\<close>)
    have "wp (item_link_q it) P s \<longleftrightarrow> wp (seqs [
         whenP (?hd \<noteq> 0) (upd ?hd (\<lambda>c. c\<lparr>it_prev := it\<rparr>)),
         set_head 0 it,
         whenP (?tl = 0) (set_tail 0 it),
         add_size 0 1]) P ?s"
      using False it(1) it0 g cl ql(1,2)
      by (simp add: item_link_q_def wp_bnd wp_rd wp_upd wp_gets wp_idx wp_if Let_def power_defs
            wp_seqs_Cons [of "upd it f" for f]) auto
    moreover have "wp (seqs [
         whenP (?hd \<noteq> 0) (upd ?hd (\<lambda>c. c\<lparr>it_prev := it\<rparr>)),
         set_head 0 it,
         whenP (?tl = 0) (set_tail 0 it),
         add_size 0 1]) P ?s"
    proof -
      have "P () ?s" using queue_state_refl [OF inv1] by (simp add: P_def)
      then show ?thesis
        by (intro wp_seqs_step [where P = P] hdw headw tlw)
          (assumption | simp add: P_def wp_seqs_Nil wp_add_size0)+
    qed
    ultimately show ?thesis
      using lru_step_trans_queue [OF step] by (fastforce simp: wp_iff P_def)
  qed
qed

section \<open>The effect of an operation on the items\<close>

text \<open>
  \<open>items_frame X h h'\<close>: outside \<open>X\<close> the core of every item is as it was, and the items in
  \<open>X\<close> are still there, with the extent they had.
\<close>

definition items_frame :: "addr set \<Rightarrow> (addr \<rightharpoonup> base_item) \<Rightarrow> (addr \<rightharpoonup> base_item) \<Rightarrow> bool" where
  "items_frame X h h' \<longleftrightarrow> (\<forall>a c. h a = Some c \<longrightarrow> (\<exists>c'. h' a = Some c' \<and>
     length (it_data c') = length (it_data c) \<and> (a \<notin> X \<longrightarrow> core c' = core c)))"

lemma items_frame_refl [simp]: "items_frame X h h"
  by (simp add: items_frame_def)

lemma items_frame_trans: "items_frame X h h' \<Longrightarrow> items_frame X h' h'' \<Longrightarrow> items_frame X h h''"
  unfolding items_frame_def by metis

lemma items_frame_mono: "items_frame X h h' \<Longrightarrow> X \<subseteq> Y \<Longrightarrow> items_frame Y h h'"
  unfolding items_frame_def by blast

lemma items_frame_upd:
  "h a = Some c \<Longrightarrow> length (it_data c') = length (it_data c) \<Longrightarrow> a \<in> X \<or> core c' = core c \<Longrightarrow>
   items_frame X h (h(a \<mapsto> c'))"
  by (auto simp: items_frame_def)

lemma items_frame_same_under:
  assumes "same_under f h h'" and "\<And>c c'. f c' = f c \<Longrightarrow> core c' = core c"
  shows "items_frame X h h'"
  unfolding items_frame_def
proof (intro allI impI)
  fix a c assume "h a = Some c"
  then obtain c' where c': "h' a = Some c'" "f c' = f c" using same_under_cell [OF assms(1)] by blast
  have "core c' = core c" by (rule assms(2) [OF c'(2)])
  then show "\<exists>c'. h' a = Some c' \<and>
     length (it_data c') = length (it_data c) \<and> (a \<notin> X \<longrightarrow> core c' = core c)"
    using c'(1) core_eq(2) [of c' c] by auto
qed

lemma items_frame_lru: "lru_step s s' \<Longrightarrow> items_frame X (heap s) (heap s')"
  unfolding lru_step_def by (elim conjE, erule items_frame_same_under) (rule no_links_eq(1))

lemma items_frame_table:
  assumes "table_changed bl s s'"
  shows "items_frame X (heap s) (heap s')"
proof -
  have "same_under (\<lambda>c. c\<lparr>it_h_next := 0\<rparr>) (heap s) (heap s')"
    using assms by (simp add: table_changed_def same_but_h_next_def same_under_def)
  moreover have "core c' = core c" if "c'\<lparr>it_h_next := 0\<rparr> = c\<lparr>it_h_next := 0\<rparr>" for c c'
    using that by (cases c; cases c') (simp add: core_def)
  ultimately show ?thesis by (rule items_frame_same_under)
qed

text \<open>What an operation of the store leaves alone besides the items.\<close>

definition quiet :: "machine \<Rightarrow> machine \<Rightarrow> bool" where
  "quiet s s' \<longleftrightarrow> slab s' = slab s \<and> brk s' = brk s \<and> alloc_ok s' = alloc_ok s \<and>
     alloc_calls s' = alloc_calls s \<and> clock s' = clock s \<and> mem_setting s' = mem_setting s \<and>
     cache_lock s' = cache_lock s \<and> hashpower (hashtable s') = hashpower (hashtable s) \<and>
     item_locks (hashtable s') = item_locks (hashtable s) \<and>
     item_lock_count (hashtable s') = item_lock_count (hashtable s)"

definition still :: "machine \<Rightarrow> machine \<Rightarrow> bool" where
  "still s s' \<longleftrightarrow> quiet s s' \<and> clock_reads s' = clock_reads s \<and> last_cas_id s' = last_cas_id s"

lemma quiet_refl [simp]: "quiet s s"
  by (simp add: quiet_def)

lemma quiet_trans: "quiet a b \<Longrightarrow> quiet b c \<Longrightarrow> quiet a c"
  by (simp add: quiet_def)

lemma still_refl [simp]: "still s s"
  by (simp add: still_def)

lemma still_trans: "still a b \<Longrightarrow> still b c \<Longrightarrow> still a c"
  by (simp add: still_def quiet_def)

lemma still_heap [simp]: "still s (s\<lparr>heap := h\<rparr>)"
  by (simp add: still_def quiet_def)

lemma still_lru: "lru_step s s' \<Longrightarrow> still s s' \<and> hashtable s' = hashtable s \<and> hashitems s' = hashitems s"
  by (auto simp: lru_step_def still_def quiet_def)

lemma still_table: "table_changed bl s s' \<Longrightarrow> still s s'"
  by (simp add: still_def quiet_def table_changed_fields)

lemma key_at_upd:
  "h a = Some c \<Longrightarrow> it_nkey c' = it_nkey c \<Longrightarrow> it_data c' = it_data c \<Longrightarrow>
   key_at (h(a \<mapsto> c')) = key_at h"
  by (rule ext) (simp add: key_at_def key_of_def)

lemma key_at_lru:
  assumes "lru_step s s'"
  shows "key_at (heap s') = key_at (heap s)"
proof
  fix x
  have e: "map_option no_links (heap s' x) = map_option no_links (heap s x)"
    using assms by (simp add: lru_step_def same_under_def)
  show "key_at (heap s') x = key_at (heap s) x"
  proof (cases "heap s x")
    case None
    with e show ?thesis by (simp add: key_at_def)
  next
    case (Some c)
    with e obtain c' where c': "heap s' x = Some c'" "no_links c' = no_links c" by auto
    with Some no_links_eq(4,5) [OF c'(2)] show ?thesis by (simp add: key_at_def key_of_def)
  qed
qed

section \<open>Releasing a reference\<close>

text \<open>
  The old count is compared with 0, so \<open>item_free\<close> is entered only when the count has just
  wrapped around, and then refuses: releasing a reference never frees an item.
\<close>

lemma do_item_remove_run:
  assumes inv: "base_inv fl bl K s" and it: "heap s it = Some c"
  shows "do_item_remove it s = Some (Inr ((), if it_flag c AND ITEM_SLABBED \<noteq> 0 then s
     else s\<lparr>heap := (heap s)(it \<mapsto> c\<lparr>it_refcount := it_refcount c - 1\<rparr>)\<rparr>))"
proof -
  have it0: "it \<noteq> 0" by (rule base_inv_in_heap [OF inv it])
  have cl: "it_clsid c = 0" by (rule base_inv_class0 [OF inv it])
  note ql = queue_lists [OF inv]
  have "wp (do_item_remove it) (\<lambda>_ s'. s' = (if it_flag c AND ITEM_SLABBED \<noteq> 0 then s
     else s\<lparr>heap := (heap s)(it \<mapsto> c\<lparr>it_refcount := it_refcount c - 1\<rparr>)\<rparr>)) s"
    using it it0 cl ql(1,2)
    by (simp add: do_item_remove_def item_free_def wp_rules power_defs)
  then show ?thesis by (auto simp: wp_iff)
qed

lemma base_inv_meta:
  assumes inv: "base_inv fl bl K s" and it: "heap s it = Some c" "it \<notin> frees fl (slab s)"
    and c': "it_next c' = it_next c" "it_prev c' = it_prev c" "it_h_next c' = it_h_next c"
      "it_nkey c' = it_nkey c" "it_data c' = it_data c" "it_clsid c' = it_clsid c"
  shows "base_inv fl bl K (s\<lparr>heap := (heap s)(it \<mapsto> c')\<rparr>)"
proof (rule base_inv_upd [OF inv it(1)])
  show "it_clsid c' = 0" using base_inv_class0 [OF inv it(1)] c'(6) by simp
  show "it_next c' \<in> insert 0 K \<and> it_prev c' \<in> insert 0 K" if "it \<in> K"
    using base_inv_cell(3) [OF inv that] it(1) c' by auto
qed (use it c' in simp_all)

section \<open>Unlinking\<close>

lemma entry_cong:
  assumes "key_at (heap s') = key_at (heap s)" and "hashpower (hashtable s') = hashpower (hashtable s)"
  shows "entry bl s' = entry bl s"
  by (rule ext) (simp only: entry_def entry_in_def assms)

lemma base_inv_table:
  assumes inv: "base_inv fl bl K s" and tc: "table_changed bl s s'" and h: "hash_inv bl' s'"
    and sub: "in_table bl' s' \<subseteq> in_table bl s"
  shows "base_inv fl bl' K s'"
proof -
  have same: "same_under (\<lambda>c. c\<lparr>it_h_next := 0\<rparr>) (heap s) (heap s')"
    using tc by (simp add: table_changed_def same_but_h_next_def same_under_def)
  have fields: "it_next c' = it_next c \<and> it_prev c' = it_prev c \<and> it_clsid c' = it_clsid c \<and>
      it_data c' = it_data c" if "c'\<lparr>it_h_next := 0\<rparr> = c\<lparr>it_h_next := 0\<rparr>" for c c'
    using that by (cases c; cases c') simp
  have fwd: "\<exists>c'. heap s' a = Some c' \<and> it_next c' = it_next c \<and> it_prev c' = it_prev c \<and>
      it_clsid c' = it_clsid c \<and> it_data c' = it_data c" if "heap s a = Some c" for a c
    using same_under_cell [OF same that] fields by blast
  have bwd: "\<exists>c. heap s a = Some c \<and> it_next c' = it_next c \<and> it_prev c' = it_prev c \<and>
      it_clsid c' = it_clsid c \<and> it_data c' = it_data c" if "heap s' a = Some c'" for a c'
    using same_under_back [OF same that] fields by blast
  have dom: "dom (heap s') = dom (heap s)" using fwd bwd by (force simp: dom_def)
  note f = table_changed_fields [OF tc]
  have k: "keeps (frees fl (slab s)) (heap s) (heap s')"
    unfolding keeps_def
  proof (intro conjI allI impI dom)
    fix a c c' assume a: "heap s a = Some c" "heap s' a = Some c'"
    show "length (it_data c') = length (it_data c)" using fwd [OF a(1)] a(2) by auto
    assume "a \<in> frees fl (slab s)"
    then have "a \<notin> in_table bl s" using inv by (auto simp: base_inv_def)
    then show "c' = c \<or> c' = c\<lparr>it_prev := 0\<rparr>" using tc a by (simp add: table_changed_def)
  qed
  have "slab_inv fl s'"
    by (rule slab_inv_keeps [of fl s]) (use inv k f in \<open>simp_all add: base_inv_def\<close>)
  moreover have "lru_ok K s'"
    using inv fwd f(10) unfolding base_inv_def lru_ok_def by metis
  moreover have "stray_ok (frees fl (slab s') \<union> K) (heap s')"
    using inv bwd dom unfolding base_inv_def stray_ok_def f(9) by metis
  moreover have "all_class0 (heap s')"
    using inv bwd unfolding base_inv_def all_class0_def by metis
  ultimately show ?thesis using inv h sub f(9) unfolding base_inv_def by auto
qed

text \<open>What unlinking an item of the table promises.\<close>

definition unlinked where
  "unlinked fl bl K s it c bl' s' \<longleftrightarrow> base_inv fl bl' K s' \<and> still s s' \<and>
     entry bl' s' (key_of c) = None \<and> entry bl' s' \<subseteq>\<^sub>m entry bl s \<and>
     (\<forall>k. apart s (key_of c) k \<longrightarrow> entry bl' s' k = entry bl s k) \<and>
     in_table bl' s' \<subseteq> in_table bl s - {it} \<and> items_frame {it} (heap s) (heap s') \<and>
     (\<exists>c'. heap s' it = Some c' \<and> core c' = core (c\<lparr>it_flag := clear_linked (it_flag c)\<rparr>))"

lemma do_item_unlink_nolock_spec:
  assumes inv: "base_inv fl bl K s" and it: "it \<in> in_table bl s" "heap s it = Some c"
    and fl: "it_flag c AND ITEM_LINKED \<noteq> 0" "it_flag c AND ITEM_SLABBED = 0"
  shows "\<exists>bl' s'. do_item_unlink_nolock it (hash (key_of c)) s = Some (Inr ((), s')) \<and>
     unlinked fl bl K s it c bl' s'"
proof -
  have h: "hash_inv bl s" using inv by (simp add: base_inv_def)
  have itf: "it \<notin> frees fl (slab s)" using inv it(1) by (auto simp: base_inv_def)
  have it0: "it \<noteq> 0" by (rule base_inv_in_heap [OF inv it(2)])
  have rdb: "unat (it_nkey c) \<le> length (it_data c)"
    using in_table_D(2) [OF h it(1)] it(2) by (simp add: readable_def)
  let ?c1 = "c\<lparr>it_flag := clear_linked (it_flag c)\<rparr>"
  let ?s1 = "s\<lparr>heap := (heap s)(it \<mapsto> ?c1)\<rparr>"
  let ?k = "key_of c" and ?b = "hash_index (hashpower (hashtable s)) (hash (key_of c))"
  have inv1: "base_inv fl bl K ?s1" by (rule base_inv_meta [OF inv it(2) itf]) simp_all
  have k1: "key_at (heap ?s1) = key_at (heap s)"
    using it(2) by (auto simp: key_at_def key_of_def fun_eq_iff)
  have e1: "entry bl ?s1 = entry bl s" by (rule entry_cong [OF k1]) simp
  have T1: "in_table bl ?s1 = in_table bl s" by (simp add: in_table_def)
  let ?bl = "bl(?b := bucket_delete (key_at (heap ?s1)) ?k (bl ?b))"
  have h1: "hash_inv bl ?s1" using inv1 by (simp add: base_inv_def)
  obtain s2 where s2: "hash_delete ?k (hash ?k) ?s1 = Some (Inr ((), s2))" "table_changed bl ?s1 s2"
      "hash_inv ?bl s2"
    using hash_delete_spec [OF h1, of ?b "hash ?k" ?k] by auto
  note d = entry_delete [OF h1 s2(2), of ?b ?k, simplified]
  have inv2: "base_inv fl ?bl K s2"
    by (rule base_inv_table [OF inv1 s2(2,3)]) (use d(3) in simp)
  obtain c2 where c2: "heap s2 it = Some c2" "c2 = ?c1\<lparr>it_h_next := it_h_next c2\<rparr>"
    using same_but_h_next_cell [of "heap ?s1" "heap s2" it ?c1] s2(2) by (auto simp: table_changed_def)
  have f2: "it_flag c2 = clear_linked (it_flag c)" "core c2 = core ?c1"
    by (subst c2(2), simp add: core_def)+
  have itf2: "it \<notin> frees fl (slab s2)" using itf table_changed_fields(9) [OF s2(2)] by simp
  have sl2: "it_flag c2 AND ITEM_SLABBED = 0" using f2(1) fl(2) by simp
  obtain s3 where s3: "item_unlink_q it s2 = Some (Inr ((), s3))" "queue_state fl ?bl K s2 s3"
    using item_unlink_q_spec [OF inv2 c2(1) itf2 sl2] by blast
  note inv3 = queue_state_inv [OF s3(2)]
  have st3: "lru_step s2 s3" using s3(2) by (simp add: queue_state_def)
  obtain c3 where c3: "heap s3 it = Some c3" "no_links c3 = no_links c2"
    using queue_state_dom [OF s3(2) c2(1)] by blast
  note n3 = no_links_eq [OF c3(2)]
  let ?c4 = "c3\<lparr>it_refcount := it_refcount c3 - 1\<rparr>"
  let ?s4 = "s3\<lparr>heap := (heap s3)(it \<mapsto> ?c4)\<rparr>"
  have r4: "do_item_remove it s3 = Some (Inr ((), ?s4))"
    using do_item_remove_run [OF inv3 c3(1)] sl2 n3(3) by simp
  have itf3: "it \<notin> frees fl (slab s3)" using itf2 queue_state_frees [OF s3(2)] by simp
  have inv4: "base_inv fl ?bl K ?s4" by (rule base_inv_meta [OF inv3 c3(1) itf3]) simp_all
  have "wp (do_item_unlink_nolock it (hash ?k)) (\<lambda>_ s'. s' = ?s4) s"
    using it(2) it0 fl(1) rdb
    by (simp add: do_item_unlink_nolock_def item_key_def wp_rules key_of_def [of c, symmetric]
        wp_returns [of "hash_delete ?k (hash ?k)" ?s1, OF s2(1)] wp_returns [of "item_unlink_q it" s2, OF s3(1)]
        wp_returns [of "do_item_remove it" s3, OF r4])
  then have run: "do_item_unlink_nolock it (hash ?k) s = Some (Inr ((), ?s4))" by (auto simp: wp_iff)
  have tab3: "hashtable s3 = hashtable s2" using still_lru [OF st3] by simp
  have k3: "key_at (heap ?s4) = key_at (heap s2)"
    using key_at_upd [of "heap s3" it c3 ?c4] c3(1) key_at_lru [OF st3] by simp
  have e4: "entry ?bl ?s4 = entry ?bl s2" by (rule entry_cong [OF k3]) (simp add: tab3)
  have T4: "in_table ?bl ?s4 = in_table ?bl s2" using tab3 by (simp add: in_table_def)
  have "still s ?s4"
  proof -
    have "still s ?s1" "still ?s1 s2" "still s2 s3" "still s3 ?s4"
      using still_table [OF s2(2)] still_lru [OF st3] by simp_all
    then show ?thesis using still_trans by blast
  qed
  moreover have "it \<notin> in_table ?bl s2"
    using d(4) [of it] it k1 by (simp add: T1 key_at_def key_of_def)
  moreover have "items_frame {it} (heap s) (heap ?s4)"
  proof -
    have "items_frame {it} (heap s) (heap ?s1)" using it(2) by (simp add: items_frame_upd)
    moreover have "items_frame {it} (heap ?s1) (heap s2)" by (rule items_frame_table [OF s2(2)])
    moreover have "items_frame {it} (heap s2) (heap s3)" by (rule items_frame_lru [OF st3])
    moreover have "items_frame {it} (heap s3) (heap ?s4)" using c3(1) by (simp add: items_frame_upd)
    ultimately show ?thesis using items_frame_trans by blast
  qed
  moreover have "core ?c4 = core ?c1"
    using n3(1) f2(2) by (simp add: core_def)
  moreover have "entry ?bl s2 k = entry bl s k" if "apart s ?k k" for k
    using entry_delete_apart [OF s2(2), of ?k k] that e1 by simp
  ultimately have "unlinked fl bl K s it c ?bl ?s4"
    using inv4 d(1-3) unfolding unlinked_def e4 T4 e1 T1 by auto
  with run show ?thesis by blast
qed

lemma base_inv_cong:
  assumes "heap s' = heap s" "brk s' = brk s" "slab s' = slab s" "hashtable s' = hashtable s"
    "lru_list s' = lru_list s"
  shows "base_inv fl bl K s \<longleftrightarrow> base_inv fl bl K s'"
  using assms by (simp add: base_inv_def slab_inv_def heap_ok_def free_ok_def hash_inv_def lru_ok_def
        in_table_def)

section \<open>The store invariant\<close>

text \<open>A linked item has its bits and room for its key, a separator and its value.\<close>

definition item_wf :: "base_item \<Rightarrow> bool" where
  "item_wf c \<longleftrightarrow> 2 \<le> it_nbytes c \<and> unat (it_nkey c) + 1 + nat (it_nbytes c) \<le> length (it_data c)"

definition linked_cell :: "base_item \<Rightarrow> bool" where
  "linked_cell c \<longleftrightarrow> it_flag c AND ITEM_LINKED \<noteq> 0 \<and> it_flag c AND ITEM_SLABBED = 0 \<and> item_wf c"

definition mc_inv where
  "mc_inv fl bl K s \<longleftrightarrow> base_inv fl bl K s \<and>
     (\<forall>x \<in> in_table bl s. \<exists>c. heap s x = Some c \<and> linked_cell c)"

text \<open>What a client sees of an item, and of the whole store.\<close>

definition content :: "base_item \<Rightarrow> byte list \<times> u32 \<times> u64" where
  "content c = (value_of c, it_exptime c, it_cas c)"

definition stored :: "(nat \<Rightarrow> addr list) \<Rightarrow> machine \<Rightarrow> byte list \<Rightarrow> (byte list \<times> u32 \<times> u64) option" where
  "stored bl s k = (case entry bl s k of None \<Rightarrow> None | Some x \<Rightarrow> map_option content (heap s x))"

lemma core_content: "core c' = core c \<Longrightarrow> content c' = content c"
  using core_eq [of c' c] by (simp add: content_def value_of_def real_data_off_def)

lemma core_linked: "core c' = core c \<Longrightarrow> linked_cell c' = linked_cell c"
  using core_eq [of c' c] by (simp add: linked_cell_def item_wf_def)

lemma core_key: "core c' = core c \<Longrightarrow> key_of c' = key_of c"
  using core_eq [of c' c] by (simp add: key_of_def)

lemma mc_inv_base: "mc_inv fl bl K s \<Longrightarrow> base_inv fl bl K s"
  by (simp add: mc_inv_def)

lemma mc_inv_hash: "mc_inv fl bl K s \<Longrightarrow> hash_inv bl s"
  by (simp add: mc_inv_def base_inv_def)

lemma mc_inv_cell:
  assumes "mc_inv fl bl K s" and "entry bl s k = Some x"
  shows "x \<in> in_table bl s" "x \<notin> frees fl (slab s)" "x \<noteq> 0"
    "\<exists>c. heap s x = Some c \<and> linked_cell c \<and> key_of c = k"
proof -
  note e = entry_Some [OF mc_inv_hash [OF assms(1)] assms(2)]
  show "x \<in> in_table bl s" "x \<noteq> 0" by (rule e(1), rule e(2))
  then show "x \<notin> frees fl (slab s)" "\<exists>c. heap s x = Some c \<and> linked_cell c \<and> key_of c = k"
    using assms(1) e(3) unfolding mc_inv_def base_inv_def by auto
qed

lemma mc_inv_frame:
  assumes "mc_inv fl bl K s" and "base_inv fl bl' K' s'" and "items_frame X (heap s) (heap s')"
    and "in_table bl' s' \<subseteq> in_table bl s \<union> X"
    and "\<And>x. x \<in> X \<Longrightarrow> x \<in> in_table bl' s' \<Longrightarrow> \<exists>c. heap s' x = Some c \<and> linked_cell c"
  shows "mc_inv fl bl' K' s'"
  unfolding mc_inv_def
proof (intro conjI ballI)
  fix x assume x: "x \<in> in_table bl' s'"
  show "\<exists>c. heap s' x = Some c \<and> linked_cell c"
  proof (cases "x \<in> X")
    case False
    then obtain c where c: "heap s x = Some c" "linked_cell c"
      using assms(1,4) x unfolding mc_inv_def by blast
    then obtain c' where c': "heap s' x = Some c'" "core c' = core c"
      using assms(3) False unfolding items_frame_def by blast
    have "linked_cell c'" using core_linked [OF c'(2)] c(2) by simp
    with c'(1) show ?thesis by blast
  qed (use x assms(5) in blast)
qed (rule assms(2))

lemma stored_frame:
  assumes h: "hash_inv bl s" and f: "items_frame X (heap s) (heap s')"
    and e: "entry bl' s' k = entry bl s k" and x: "\<And>x. entry bl s k = Some x \<Longrightarrow> x \<notin> X"
  shows "stored bl' s' k = stored bl s k"
proof (cases "entry bl s k")
  case None
  then show ?thesis using e by (simp add: stored_def)
next
  case (Some y)
  obtain c where c: "heap s y = Some c" using entry_Some(3) [OF h Some] by blast
  then obtain c' where c': "heap s' y = Some c'" "core c' = core c"
    using f x [OF Some] unfolding items_frame_def by blast
  show ?thesis using e Some c c'(1) core_content [OF c'(2)] by (simp add: stored_def)
qed

section \<open>Unlinking under the global lock\<close>

lemma do_item_unlink_eq:
  "do_item_unlink it hv = seqs [lock_cache, do_item_unlink_nolock it hv, unlock_cache]"
  by (simp add: do_item_unlink_def do_item_unlink_nolock_def)

lemma entry_locks [simp]:
  "entry bl (s\<lparr>cache_lock := b\<rparr>) = entry bl s" "in_table bl (s\<lparr>cache_lock := b\<rparr>) = in_table bl s"
  by (rule ext) (simp_all add: entry_def in_table_def)

lemma do_item_unlink_spec:
  assumes inv: "mc_inv fl bl K s" and it: "entry bl s k = Some it" and free: "\<not> cache_lock s"
  shows "\<exists>bl' s' c. do_item_unlink it (hash k) s = Some (Inr ((), s')) \<and> heap s it = Some c \<and>
     key_of c = k \<and> unlinked fl bl K s it c bl' s' \<and> mc_inv fl bl' K s'"
proof -
  note m = mc_inv_cell [OF inv it]
  obtain c where c: "heap s it = Some c" "linked_cell c" "key_of c = k" using m(4) by blast
  let ?s = "s\<lparr>cache_lock := True\<rparr>"
  have "base_inv fl bl K ?s" using inv by (simp add: mc_inv_def)
  then obtain bl' s1 where s1: "do_item_unlink_nolock it (hash k) ?s = Some (Inr ((), s1))"
      "unlinked fl bl K ?s it c bl' s1"
    using do_item_unlink_nolock_spec [of fl bl K ?s it c] m(1) c by (auto simp: linked_cell_def)
  let ?s' = "s1\<lparr>cache_lock := False\<rparr>"
  have l1: "cache_lock s1" using s1(2) by (simp add: unlinked_def still_def quiet_def)
  have "wp (do_item_unlink it (hash k)) (\<lambda>_ s'. s' = ?s') s"
    using free l1 by (simp add: do_item_unlink_eq wp_rules
        wp_returns [of "do_item_unlink_nolock it (hash k)" ?s, OF s1(1)])
  then have run: "do_item_unlink it (hash k) s = Some (Inr ((), ?s'))" by (auto simp: wp_iff)
  have u: "unlinked fl bl K s it c bl' ?s'"
    using s1(2) free by (simp add: unlinked_def still_def quiet_def)
  have "mc_inv fl bl' K ?s'"
    by (rule mc_inv_frame [OF inv, where X = "{it}"]) (use u in \<open>auto simp: unlinked_def\<close>)
  with run u c show ?thesis by blast
qed

lemma unlinked_stored:
  assumes inv: "mc_inv fl bl K s" and it: "entry bl s (key_of c) = Some it"
    and u: "unlinked fl bl K s it c bl' s'"
  shows "stored bl' s' (key_of c) = None" and "stored bl' s' \<subseteq>\<^sub>m stored bl s"
    and "apart s (key_of c) k' \<Longrightarrow> stored bl' s' k' = stored bl s k'"
proof -
  show "stored bl' s' (key_of c) = None" using u by (simp add: unlinked_def stored_def)
  have other: "x \<noteq> it" if x: "entry bl' s' k = Some x" for k x
    using u entry_Some(1) [OF _ x] unfolding unlinked_def base_inv_def by blast
  show "stored bl' s' k' = stored bl s k'" if a: "apart s (key_of c) k'"
  proof -
    have e: "entry bl' s' k' = entry bl s k'" using u a by (simp add: unlinked_def)
    then show ?thesis
      using u other [of k'] by (intro stored_frame [OF mc_inv_hash [OF inv], where X = "{it}"])
        (auto simp: unlinked_def)
  qed
  show "stored bl' s' \<subseteq>\<^sub>m stored bl s"
  proof (unfold map_le_def, rule ballI)
    fix k assume "k \<in> dom (stored bl' s')"
    then obtain x where x: "entry bl' s' k = Some x" by (auto simp: stored_def split: option.splits)
    then have e: "entry bl s k = Some x"
      using u unfolding unlinked_def map_le_def by (metis domI)
    have "x \<noteq> it" by (rule other [OF x])
    then show "stored bl' s' k = stored bl s k"
      using u x e by (intro stored_frame [OF mc_inv_hash [OF inv], where X = "{it}"])
        (simp_all add: unlinked_def)
  qed
qed

section \<open>Linking\<close>

definition linked where
  "linked fl bl s it c bl' K' s' \<longleftrightarrow> base_inv fl bl' K' s' \<and> quiet s s' \<and>
     clock_reads s' = Suc (clock_reads s) \<and> last_cas_id s' = last_cas_id s + 1 \<and>
     entry bl' s' = (entry bl s)(key_of c \<mapsto> it) \<and> in_table bl' s' = insert it (in_table bl s) \<and>
     items_frame {it} (heap s) (heap s') \<and>
     (\<exists>c'. heap s' it = Some c' \<and> core c' =
        core (c\<lparr>it_flag := it_flag c OR ITEM_LINKED, it_cas := last_cas_id s + 1\<rparr>))"

lemma do_item_link_spec:
  assumes inv: "base_inv fl bl K s" and it: "heap s it = Some c" "it \<notin> frees fl (slab s)" "it \<notin> in_table bl s"
    and fl: "it_flag c AND (ITEM_LINKED OR ITEM_SLABBED) = 0"
    and key: "unat (it_nkey c) \<le> length (it_data c)" "entry bl s (key_of c) = None"
    and free: "\<not> cache_lock s"
  shows "\<exists>bl' K' s'. do_item_link it (hash (key_of c)) s = Some (Inr (1, s')) \<and>
     linked fl bl s it c bl' K' s'"
proof -
  have it0: "it \<noteq> 0" by (rule base_inv_in_heap [OF inv it(1)])
  let ?c1 = "c\<lparr>it_flag := it_flag c OR ITEM_LINKED, it_realtime := clock s (clock_reads s),
               it_cas := last_cas_id s + 1\<rparr>"
  let ?s1 = "s\<lparr>cache_lock := True, clock_reads := Suc (clock_reads s),
               last_cas_id := last_cas_id s + 1, heap := (heap s)(it \<mapsto> ?c1)\<rparr>"
  let ?k = "key_of c" and ?b = "hash_index (hashpower (hashtable s)) (hash (key_of c))"
  have "base_inv fl bl K (s\<lparr>heap := (heap s)(it \<mapsto> ?c1)\<rparr>)" by (rule base_inv_meta [OF inv it(1,2)]) simp_all
  then have inv1: "base_inv fl bl K ?s1"
    by (rule base_inv_cong [THEN iffD1, rotated -1]) simp_all
  have h1: "hash_inv bl ?s1" using inv1 by (simp add: base_inv_def)
  have T1: "in_table bl ?s1 = in_table bl s" by (simp add: in_table_def)
  have e1: "entry bl ?s1 = entry bl s"
    by (rule entry_cong) (use key_at_upd [of "heap s" it c ?c1] it(1) in simp_all)
  have k1: "key_of ?c1 = ?k" by (simp add: key_of_def)
  obtain s2 where s2: "hash_insert it (hash ?k) ?s1 = Some (Inr (1, s2))" "hash_inv (bl(?b := it # bl ?b)) s2"
     "s2 = ?s1\<lparr>heap := (heap ?s1)(it \<mapsto> ?c1\<lparr>it_h_next := primary_hashtable (hashtable s) ! ?b\<rparr>),
            hashtable := (hashtable s)\<lparr>primary_hashtable := (primary_hashtable (hashtable s))[?b := it]\<rparr>,
            hashitems := hashitems s + 1\<rparr>"
    using hash_insert_spec [OF h1, of it ?c1] it(1,3) it0 key T1 e1 k1 by auto
  let ?c2 = "?c1\<lparr>it_h_next := primary_hashtable (hashtable s) ! ?b\<rparr>" and ?bl = "bl(?b := it # bl ?b)"
  have c2: "heap s2 it = Some ?c2" using s2(3) by simp
  have T2: "in_table ?bl s2 = insert it (in_table bl s)"
    using in_table_insert [of ?b s s2 bl it] s2(3) hash_index_less by simp
  have h1': "heap ?s1 it = Some ?c1" by simp
  have same: "same_but_h_next (heap ?s1) (heap s2)"
    unfolding s2(3) using same_but_h_next_upd [of "heap ?s1" it ?c1, OF h1'] by simp
  have "entry ?bl s2 = (entry bl ?s1)(key_of ?c1 \<mapsto> it)"
  proof (rule entry_insert [OF h1 h1' _ _ same])
    show "it \<notin> in_table bl ?s1" unfolding T1 by (rule it(3))
    show "?b = hash_index (hashpower (hashtable ?s1)) (hash (key_of ?c1))" unfolding k1 by simp
    show "hashpower (hashtable s2) = hashpower (hashtable ?s1)" unfolding s2(3) by simp
  qed
  then have e2: "entry ?bl s2 = (entry bl s)(?k \<mapsto> it)" unfolding e1 k1 .
  have itf: "it \<notin> frees fl (slab s2)" using it(2) s2(3) by simp
  have inv2: "base_inv fl ?bl K s2"
  proof -
    have h2: "heap s2 = (heap ?s1)(it \<mapsto> ?c2)" using s2(3) by simp
    have eq: "slab s2 = slab ?s1" "brk s2 = brk ?s1" "lru_list s2 = lru_list ?s1" using s2(3) by simp_all
    have "base_inv fl bl K (?s1\<lparr>heap := (heap ?s1)(it \<mapsto> ?c2)\<rparr>)" (is "base_inv _ _ _ ?t")
    proof (rule base_inv_upd [OF inv1 h1'])
      show "it \<notin> frees fl (slab ?s1) \<or> ?c2 = ?c1\<lparr>it_prev := 0\<rparr>" using it(2) by simp
      show "it_next ?c2 \<in> insert 0 K \<and> it_prev ?c2 \<in> insert 0 K" if "it \<in> K"
        using base_inv_cell(3) [OF inv that] it(1) by auto
      show "it_clsid ?c2 = 0" using base_inv_class0 [OF inv it(1)] by simp
    qed (use it(3) T1 in simp_all)
    then have t: "slab_inv fl ?t" "lru_ok K ?t" "stray_ok (frees fl (slab ?t) \<union> K) (heap ?t)"
        "all_class0 (heap ?t)" "K \<inter> frees fl (slab ?t) = {}" "in_table bl ?t \<inter> frees fl (slab ?t) = {}"
        "power_largest (slab ?t) < POWER_LARGEST"
      unfolding base_inv_def by blast+
    have "slab_inv fl s2"
      using t(1) h2 eq by (simp add: slab_inv_def heap_ok_def free_ok_def)
    moreover have "lru_ok K s2" using t(2) h2 eq by (simp add: lru_ok_def)
    moreover have "in_table bl ?t = in_table bl s" by (simp add: in_table_def)
    ultimately show ?thesis
      using t(3-7) s2(2) h2 eq T2 it(2) by (simp add: base_inv_def)
  qed
  have "it_flag c AND ITEM_SLABBED = 0"
  proof -
    have "(it_flag c AND (ITEM_LINKED OR ITEM_SLABBED)) AND ITEM_SLABBED = 0" using fl by simp
    then show ?thesis by (simp add: and.assoc)
  qed
  then have sl2: "it_flag ?c2 AND ITEM_SLABBED = 0" by simp
  obtain s3 K' where s3: "item_link_q it s2 = Some (Inr ((), s3))" "queue_state fl ?bl K' s2 s3"
    using item_link_q_spec [OF inv2 c2 itf sl2] by blast
  have st3: "lru_step s2 s3" using s3(2) by (simp add: queue_state_def)
  note inv3 = queue_state_inv [OF s3(2)] and l3 = still_lru [OF st3]
  obtain c3 where c3: "heap s3 it = Some c3" "no_links c3 = no_links ?c2"
    using queue_state_dom [OF s3(2) c2] by blast
  let ?c4 = "c3\<lparr>it_refcount := it_refcount c3 + 1\<rparr>"
  let ?s4 = "s3\<lparr>heap := (heap s3)(it \<mapsto> ?c4)\<rparr>" and ?s5 = "s3\<lparr>heap := (heap s3)(it \<mapsto> ?c4), cache_lock := False\<rparr>"
  have itf3: "it \<notin> frees fl (slab s3)" using itf queue_state_frees [OF s3(2)] by simp
  have "base_inv fl ?bl K' ?s4" by (rule base_inv_meta [OF inv3 c3(1) itf3]) simp_all
  then have inv5: "base_inv fl ?bl K' ?s5"
    by (rule base_inv_cong [THEN iffD1, rotated -1]) simp_all
  have lk: "cache_lock s3" using l3 s2(3) by (simp add: still_def quiet_def)
  have "wp (do_item_link it (hash ?k)) (\<lambda>r s'. r = 1 \<and> s' = ?s5) s"
    using it(1) it0 fl free lk c3(1)
    by (simp add: do_item_link_def wp_rules wp_returns [of "hash_insert it (hash ?k)" ?s1, OF s2(1)]
        wp_returns [of "item_link_q it" s2, OF s3(1)])
  then have run: "do_item_link it (hash ?k) s = Some (Inr (1, ?s5))" by (auto simp: wp_iff)
  have k3: "key_at (heap ?s5) = key_at (heap s2)"
    using key_at_upd [of "heap s3" it c3 ?c4] c3(1) key_at_lru [OF st3] by simp
  have e5: "entry ?bl ?s5 = entry ?bl s2" by (rule entry_cong [OF k3]) (use l3 in simp)
  have T5: "in_table ?bl ?s5 = in_table ?bl s2" using l3 by (simp add: in_table_def)
  have "quiet s ?s5" "clock_reads ?s5 = Suc (clock_reads s)" "last_cas_id ?s5 = last_cas_id s + 1"
    using l3 s2(3) free by (simp_all add: still_def quiet_def)
  moreover have "items_frame {it} (heap s) (heap ?s5)"
  proof -
    have "items_frame {it} (heap s) (heap s2)" using it(1) s2(3) by (simp add: items_frame_upd)
    moreover have "items_frame {it} (heap s2) (heap s3)" by (rule items_frame_lru [OF st3])
    moreover have "items_frame {it} (heap s3) (heap ?s5)" using c3(1) by (simp add: items_frame_upd)
    ultimately show ?thesis using items_frame_trans by blast
  qed
  moreover have "core ?c4 = core (c\<lparr>it_flag := it_flag c OR ITEM_LINKED, it_cas := last_cas_id s + 1\<rparr>)"
    using no_links_eq(1) [OF c3(2)] by (simp add: core_def)
  ultimately have "linked fl bl s it c ?bl K' ?s5"
    using inv5 e2 T2 unfolding linked_def e5 T5 by auto
  with run show ?thesis by blast
qed

section \<open>Writing an item in place\<close>

lemma mc_inv_meta:
  assumes inv: "mc_inv fl bl K s" and it: "heap s it = Some c" "it \<notin> frees fl (slab s)"
    and c': "it_next c' = it_next c" "it_prev c' = it_prev c" "it_h_next c' = it_h_next c"
      "it_nkey c' = it_nkey c" "it_data c' = it_data c" "it_clsid c' = it_clsid c"
    and l: "linked_cell c \<Longrightarrow> linked_cell c'"
  shows "mc_inv fl bl K (s\<lparr>heap := (heap s)(it \<mapsto> c')\<rparr>)"
    and "entry bl (s\<lparr>heap := (heap s)(it \<mapsto> c')\<rparr>) = entry bl s"
proof -
  let ?s = "s\<lparr>heap := (heap s)(it \<mapsto> c')\<rparr>"
  have b: "base_inv fl bl K ?s" using base_inv_meta [OF mc_inv_base [OF inv] it c'] .
  have T: "in_table bl ?s = in_table bl s" by (simp add: in_table_def)
  show "mc_inv fl bl K ?s"
    using b inv l it(1) unfolding mc_inv_def T by auto
  show "entry bl ?s = entry bl s"
    by (rule entry_cong) (use key_at_upd [of "heap s" it c c'] it(1) c' in simp_all)
qed

lemma mc_inv_cong:
  assumes "heap s' = heap s" "brk s' = brk s" "slab s' = slab s" "hashtable s' = hashtable s"
    "lru_list s' = lru_list s"
  shows "mc_inv fl bl K s \<longleftrightarrow> mc_inv fl bl K s'" and "entry bl s' = entry bl s"
    and "stored bl s' = stored bl s"
proof -
  have T: "in_table bl s' = in_table bl s" using assms by (simp add: in_table_def)
  show "mc_inv fl bl K s \<longleftrightarrow> mc_inv fl bl K s'"
    using base_inv_cong [OF assms] assms(1) unfolding mc_inv_def T by simp
  show e: "entry bl s' = entry bl s" by (rule entry_cong) (use assms in simp_all)
  show "stored bl s' = stored bl s" by (rule ext) (simp only: stored_def e assms(1))
qed

lemma linked_cell_fields:
  "linked_cell c \<Longrightarrow> it_flag c' AND ITEM_LINKED = it_flag c AND ITEM_LINKED \<Longrightarrow>
   it_flag c' AND ITEM_SLABBED = it_flag c AND ITEM_SLABBED \<Longrightarrow> it_nbytes c' = it_nbytes c \<Longrightarrow>
   it_nkey c' = it_nkey c \<Longrightarrow> it_data c' = it_data c \<Longrightarrow> linked_cell c'"
  by (simp add: linked_cell_def item_wf_def)

lemma stored_upd:
  assumes "heap s it = Some c" and "it_nkey c' = it_nkey c" "it_data c' = it_data c"
    and "content c' = content c"
  shows "stored bl (s\<lparr>heap := (heap s)(it \<mapsto> c')\<rparr>) = stored bl s"
proof -
  have e: "entry bl (s\<lparr>heap := (heap s)(it \<mapsto> c')\<rparr>) = entry bl s"
    by (rule entry_cong) (use key_at_upd [of "heap s" it c c'] assms in simp_all)
  show ?thesis
    by (rule ext, unfold stored_def e) (use assms in \<open>auto split: option.splits\<close>)
qed

section \<open>Looking up\<close>

text \<open>The lazy expiry test, at the reading of the clock the lookup makes.\<close>

definition expired :: "machine \<Rightarrow> base_item \<Rightarrow> bool" where
  "expired s c \<longleftrightarrow> it_exptime c \<noteq> 0 \<and> it_exptime c \<le> clock s (clock_reads s)"

definition fetched :: "machine \<Rightarrow> addr \<Rightarrow> base_item \<Rightarrow> machine" where
  "fetched s x c = s\<lparr>heap := (heap s)(x \<mapsto> c\<lparr>it_refcount := it_refcount c + 1,
       it_flag := it_flag c OR ITEM_FETCHED\<rparr>),
     clock_reads := (if it_exptime c \<noteq> 0 then Suc (clock_reads s) else clock_reads s)\<rparr>"

definition dropped where
  "dropped bl s k bl' s' \<longleftrightarrow> entry bl' s' k = None \<and> entry bl' s' \<subseteq>\<^sub>m entry bl s \<and>
     stored bl' s' k = None \<and> stored bl' s' \<subseteq>\<^sub>m stored bl s \<and>
     (\<forall>k'. apart s k k' \<longrightarrow> stored bl' s' k' = stored bl s k') \<and>
     in_table bl' s' \<subseteq> in_table bl s - set_option (entry bl s k) \<and>
     items_frame (set_option (entry bl s k)) (heap s) (heap s')"

definition got where
  "got fl bl K s k r bl' s' \<longleftrightarrow> mc_inv fl bl' K s' \<and> quiet s s' \<and> last_cas_id s' = last_cas_id s \<and>
     (case entry bl s k of
        None \<Rightarrow> r = 0 \<and> bl' = bl \<and> s' = s
      | Some x \<Rightarrow> \<exists>c. heap s x = Some c \<and> linked_cell c \<and> key_of c = k \<and>
          (if expired s c then r = 0 \<and> dropped bl s k bl' s' \<and> clock_reads s' = Suc (clock_reads s)
           else r = x \<and> bl' = bl \<and> s' = fetched s x c))"

lemma do_item_get_spec:
  assumes inv: "mc_inv fl bl K s" and free: "\<not> cache_lock s"
  shows "\<exists>r bl' s'. do_item_get k (hash k) s = Some (Inr (r, s')) \<and> got fl bl K s k r bl' s'"
proof -
  note find = hash_find_entry [OF mc_inv_hash [OF inv], of k]
  show ?thesis
  proof (cases "entry bl s k")
    case None
    have "wp (do_item_get k (hash k)) (\<lambda>r s'. r = 0 \<and> s' = s) s"
      using None by (simp add: do_item_get_def wp_rules wp_returns [of "hash_find k (hash k)" s, OF find])
    then show ?thesis using inv None by (auto simp: wp_iff got_def)
  next
    case (Some x)
    note m = mc_inv_cell [OF inv Some]
    obtain c where c: "heap s x = Some c" "linked_cell c" "key_of c = k" using m(4) by blast
    let ?c1 = "c\<lparr>it_refcount := it_refcount c + 1\<rparr>"
    let ?s1 = "s\<lparr>heap := (heap s)(x \<mapsto> ?c1)\<rparr>"
    show ?thesis
    proof (cases "expired s c")
      case False
      have "wp (do_item_get k (hash k)) (\<lambda>r s'. r = x \<and> s' = fetched s x c) s"
        using Some m(3) c(1) False
        by (auto simp: do_item_get_def wp_rules wp_returns [of "hash_find k (hash k)" s, OF find]
            expired_def fetched_def)
      moreover have "mc_inv fl bl K (fetched s x c)"
      proof -
        have "mc_inv fl bl K (s\<lparr>heap := (heap s)(x \<mapsto> c\<lparr>it_refcount := it_refcount c + 1,
            it_flag := it_flag c OR ITEM_FETCHED\<rparr>)\<rparr>)"
          by (rule mc_inv_meta(1) [OF inv c(1) m(2)]) (simp_all, erule linked_cell_fields, simp_all)
        then show ?thesis
          by (rule mc_inv_cong(1) [THEN iffD1, rotated -1]) (simp_all add: fetched_def)
      qed
      ultimately show ?thesis
        using Some c False by (auto simp: wp_iff got_def fetched_def quiet_def)
    next
      case True
      let ?s2 = "?s1\<lparr>clock_reads := Suc (clock_reads s)\<rparr>"
      note i1 = mc_inv_meta [OF inv c(1) m(2), of ?c1, simplified, OF linked_cell_fields, simplified]
      have i2: "mc_inv fl bl K ?s2"
        by (rule mc_inv_cong(1) [of _ ?s1, THEN iffD1, rotated -1]) (use i1 in simp_all)
      have e2: "entry bl ?s2 = entry bl s"
        using i1(2) mc_inv_cong(2) [of ?s2 ?s1 bl] by simp
      have ent: "entry bl ?s2 k = Some x" using Some e2 by simp
      have "\<not> cache_lock ?s2" using free by simp
      from do_item_unlink_spec [OF i2 ent this] obtain bl' s3 where
        u: "do_item_unlink x (hash k) ?s2 = Some (Inr ((), s3))"
          "unlinked fl bl K ?s2 x ?c1 bl' s3" "mc_inv fl bl' K s3" by auto
      have k1: "key_of ?c1 = k" using c(3) by (simp add: key_of_def)
      note us = unlinked_stored [OF i2 _ u(2), unfolded k1, OF ent]
      obtain c3 where c3: "heap s3 x = Some c3" "core c3 = core (?c1\<lparr>it_flag := clear_linked (it_flag ?c1)\<rparr>)"
        using u(2) by (auto simp: unlinked_def)
      let ?c4 = "c3\<lparr>it_refcount := it_refcount c3 - 1\<rparr>"
      let ?s4 = "s3\<lparr>heap := (heap s3)(x \<mapsto> ?c4)\<rparr>"
      have "it_flag c3 = clear_linked (it_flag c)" using core_eq(3) [OF c3(2)] by simp
      then have sl: "it_flag c3 AND ITEM_SLABBED = 0" using c(2) by (simp add: linked_cell_def)
      have r4: "do_item_remove x s3 = Some (Inr ((), ?s4))"
        using do_item_remove_run [OF mc_inv_base [OF u(3)] c3(1)] sl by simp
      have xf: "x \<notin> frees fl (slab s3)" using m(2) u(2) by (simp add: unlinked_def still_def quiet_def)
      have i4: "mc_inv fl bl' K ?s4" "entry bl' ?s4 = entry bl' s3"
        using mc_inv_meta [OF u(3) c3(1) xf, of ?c4, simplified, OF linked_cell_fields, simplified] by auto
      have st4: "stored bl' ?s4 = stored bl' s3"
        by (rule stored_upd [OF c3(1)]) (simp_all add: content_def value_of_def real_data_off_def)
      have st2: "stored bl ?s2 = stored bl s"
        using stored_upd [OF c(1), of ?c1 bl] mc_inv_cong(3) [of ?s2 ?s1 bl]
        by (simp add: content_def value_of_def real_data_off_def)
      have "wp (do_item_get k (hash k)) (\<lambda>r s'. r = 0 \<and> s' = ?s4) s"
        using Some m(3) c(1) True
        by (simp add: do_item_get_def wp_rules wp_returns [of "hash_find k (hash k)" s, OF find]
            expired_def wp_returns [of "do_item_unlink x (hash k)" ?s2, OF u(1), simplified]
            wp_returns [of "do_item_remove x" s3, OF r4])
      moreover have "dropped bl s k bl' ?s4"
      proof -
        have "items_frame {x} (heap s) (heap ?s4)"
        proof -
          have "items_frame {x} (heap s) (heap ?s2)" using c(1) by (simp add: items_frame_upd)
          moreover have "items_frame {x} (heap ?s2) (heap s3)" using u(2) by (simp add: unlinked_def)
          moreover have "items_frame {x} (heap s3) (heap ?s4)" using c3(1) by (simp add: items_frame_upd)
          ultimately show ?thesis using items_frame_trans by blast
        qed
        moreover have "in_table bl' ?s4 = in_table bl' s3" "in_table bl ?s2 = in_table bl s"
          by (simp_all add: in_table_def)
        ultimately show ?thesis
          using u(2) us k1 Some unfolding dropped_def i4(2) st4 unlinked_def e2 st2 by simp
      qed
      moreover have "quiet s ?s4 \<and> last_cas_id ?s4 = last_cas_id s \<and> clock_reads ?s4 = Suc (clock_reads s)"
        using u(2) by (simp add: unlinked_def still_def quiet_def)
      ultimately show ?thesis
        using Some c True i4(1) by (auto simp: wp_iff got_def)
    qed
  qed
qed

section \<open>Allocating\<close>

text \<open>
  Since every item is in queue 0 and an allocation looks at the queue of its class, which is
  at least 1, the search finds an empty queue: nothing is ever evicted.
\<close>

lemma base_inv_alloc:
  assumes inv: "base_inv fl bl K s" and r: "alloc_result fl s cid r fl' s'"
  shows "base_inv fl' bl K s'" and "in_table bl s' = in_table bl s"
    and "entry bl s' = entry bl s" and "stored bl s' = stored bl s"
    and "\<And>a c. heap s a = Some c \<Longrightarrow> a \<notin> frees fl (slab s) \<Longrightarrow> heap s' a = Some c"
proof -
  note fr = slab_frame_fields
  have R: "slab_inv fl' s'" "slab_frame s s'" "untouched (frees fl (slab s)) (heap s) (heap s')"
      "frees fl' (slab s') \<subseteq> frees fl (slab s) \<union> {a. heap s a = None}" "dom (heap s) \<subseteq> dom (heap s')"
      "\<And>a. a \<in> dom (heap s') \<Longrightarrow> a \<notin> insert r (frees fl' (slab s')) \<Longrightarrow>
         a \<in> dom (heap s) \<and> a \<notin> frees fl (slab s)"
    using r unfolding alloc_result_def by blast+
  have T: "in_table bl s \<inter> frees fl (slab s) = {}" "K \<inter> frees fl (slab s) = {}"
    using inv by (simp_all add: base_inv_def)
  have hs: "hash_inv bl s" using inv by (simp add: base_inv_def)
  note f = fr [OF R(2)]
  show out: "heap s' a = Some c" if "heap s a = Some c" "a \<notin> frees fl (slab s)" for a c
    using R(3) that by (simp add: untouched_def)
  have keep: "heap s' x = heap s x" if "x \<in> in_table bl s \<union> K" for x
  proof -
    have nf: "x \<notin> frees fl (slab s)" using that T by blast
    have "\<exists>c. heap s x = Some c"
    proof (cases "x \<in> K")
      case True
      then show ?thesis using base_inv_cell(3) [OF inv] by blast
    next
      case False
      then show ?thesis using that in_table_D(2) [OF hs, of x] by (auto simp: readable_def)
    qed
    then show ?thesis using out nf by auto
  qed
  have kk: "keys_kept (in_table bl s) (heap s) (heap s')"
    using keep by (simp add: keys_kept_def)
  note hk = hash_inv_kept [OF hs kk f(1)]
  show T': "in_table bl s' = in_table bl s" using f(1) by (simp add: in_table_def)
  show e': "entry bl s' = entry bl s" using hk(2) by (rule ext)
  have lru: "lru_ok K s'"
    using inv keep f(2) unfolding base_inv_def lru_ok_def by auto
  have new: "\<exists>c. heap s' r = Some c \<and> it_clsid c = 0 \<and> it_prev c = 0 \<and> it_next c \<in> insert 0 (dom (heap s'))"
    if "r \<noteq> 0"
    using r that unfolding alloc_result_def free_cell_def by auto
  have c0: "it_clsid c = 0" if a: "heap s' a = Some c" for a c
  proof (cases "a \<in> frees fl' (slab s')")
    case True
    then show ?thesis
      using R(1) a unfolding slab_inv_def free_ok_def class_free_def frees_def free_cell_def by fastforce
  next
    case False
    show ?thesis
    proof (cases "a = r")
      case True
      have "r \<noteq> 0" using inv_heap_nonnull [OF R(1)] a True by simp
      then show ?thesis using new a True by auto
    next
      case False
      then have "a \<in> dom (heap s)" "a \<notin> frees fl (slab s)"
        using R(6) [of a] a \<open>a \<notin> frees fl' (slab s')\<close> by auto
      then obtain d where "heap s a = Some d" by auto
      then show ?thesis using out [of a d] \<open>a \<notin> frees fl (slab s)\<close> a base_inv_class0 [OF inv, of a d] by simp
    qed
  qed
  have st: "stray_ok (frees fl' (slab s') \<union> K) (heap s')"
    unfolding stray_ok_def
  proof (intro allI impI)
    fix a c assume a: "heap s' a = Some c" "a \<notin> frees fl' (slab s') \<union> K"
    show "it_prev c = 0 \<and> it_next c \<in> insert 0 (dom (heap s'))"
    proof (cases "a = r")
      case True
      have "r \<noteq> 0" using inv_heap_nonnull [OF R(1)] a True by simp
      then show ?thesis using new a True by auto
    next
      case False
      then have "a \<in> dom (heap s)" "a \<notin> frees fl (slab s)" using R(6) [of a] a by auto
      then obtain d where d: "heap s a = Some d" by auto
      have "c = d" using out [OF d \<open>a \<notin> frees fl (slab s)\<close>] a(1) by simp
      then show ?thesis
        using stray_cell [OF inv d \<open>a \<notin> frees fl (slab s)\<close>] a(2) R(5) by (cases "it_next d = 0") auto
    qed
  qed
  have disj: "x \<notin> frees fl' (slab s')" if "x \<in> in_table bl s \<union> K" for x
  proof -
    have "heap s x \<noteq> None"
      using that base_inv_cell(3) [OF inv, of x] in_table_D(2) [OF hs, of x] by (auto simp: readable_def)
    moreover have "x \<notin> frees fl (slab s)" using that T by blast
    ultimately show ?thesis using R(4) by auto
  qed
  have "power_largest (slab s') < POWER_LARGEST" using inv f(12) by (simp add: base_inv_def)
  then show "base_inv fl' bl K s'"
    using R(1) hk(1) lru disj T' st c0 unfolding base_inv_def all_class0_def by blast
  show "stored bl s' = stored bl s"
  proof
    fix k
    show "stored bl s' k = stored bl s k"
    proof (cases "entry bl s k")
      case None
      then show ?thesis by (simp add: stored_def e')
    next
      case (Some x)
      then have "x \<in> in_table bl s" using entry_Some(1) [OF hs] by blast
      then show ?thesis using keep Some by (simp add: stored_def e')
    qed
  qed
qed

lemma slab_inv_cache: "slab_inv fl (s\<lparr>cache_lock := b\<rparr>) = slab_inv fl s"
  by (simp add: slab_inv_def heap_ok_def free_ok_def)

definition alloc_size :: "nat \<Rightarrow> int \<Rightarrow> nat" where
  "alloc_size nkey nbytes = size_t (c_int (int sizeof_base_item + int nkey + 1 + nbytes))"

text \<open>What an allocation returns: null, or a fresh chunk with room for the key and the value.\<close>

definition allocated where
  "allocated fl bl K s nkey nbytes r fl' s' \<longleftrightarrow> mc_inv fl' bl K s' \<and> slab_frame s s' \<and> spent fl fl' \<and>
     entry bl s' = entry bl s \<and> stored bl s' = stored bl s \<and> in_table bl s' = in_table bl s \<and>
     (\<forall>a c. heap s a = Some c \<longrightarrow> a \<notin> frees fl (slab s) \<longrightarrow> heap s' a = Some c \<and> a \<notin> frees fl' (slab s') \<and> a \<noteq> r) \<and>
     (r \<noteq> 0 \<longrightarrow> r \<notin> frees fl' (slab s') \<and> r \<notin> in_table bl s' \<and>
        (\<exists>c. heap s' r = Some c \<and> alloc_size nkey nbytes \<le> length (it_data c) + offset_data))"

text \<open>Whether the allocator has a chunk for a size: a class for it exists, and a free chunk of
  the class or the permission to take another page.\<close>

definition room :: "(nat \<Rightarrow> addr list) \<Rightarrow> machine \<Rightarrow> nat \<Rightarrow> bool" where
  "room fl s n = (case clsid_of (slab s) n of Inl e \<Rightarrow> False
     | Inr cid \<Rightarrow> cid \<noteq> 0 \<and> \<not> (fl cid = [] \<and> page_refused (slab s) cid))"

lemma alloc_loop_null: "alloc_loop ntotal cid tries 0 s = Some (Inr ((0, False, tries, 0), s))"
  by (subst alloc_loop.simps) (simp add: ret_def)

lemma do_item_alloc_spec:
  assumes inv: "mc_inv fl bl K s" and free: "\<not> cache_lock s" "\<not> slabs_lock (slab s)"
  shows "\<exists>r fl' s'. do_item_alloc nkey nbytes s = Some (Inr (r, s')) \<and>
     allocated fl bl K s nkey nbytes r fl' s' \<and>
     (alloc_size nkey nbytes = 0 \<or>
       cls_size (mem_base (slab s) ! power_largest (slab s)) < alloc_size nkey nbytes \<longrightarrow> r = 0 \<and> s' = s) \<and>
     (\<not> room fl s (alloc_size nkey nbytes) \<longrightarrow> r = 0) \<and>
     ((\<forall>k. alloc_ok s k) \<and> room fl s (alloc_size nkey nbytes) \<longrightarrow> r \<noteq> 0)"
proof -
  note b = mc_inv_base [OF inv]
  have sl: "slab_inv fl s" "classes_ok (slab s)" using b by (simp_all add: base_inv_def slab_inv_def)
  let ?n = "alloc_size nkey nbytes"
  obtain cid where cid: "clsid_of (slab s) ?n = Inr cid" "cid \<le> power_largest (slab s)"
      "cid = 0 \<longleftrightarrow> ?n = 0 \<or> cls_size (mem_base (slab s) ! power_largest (slab s)) < ?n"
      "cid \<noteq> 0 \<Longrightarrow> ?n \<le> cls_size (mem_base (slab s) ! cid)"
    using clsid_of_spec [OF sl(2), of ?n] by blast
  have start: "slabs_clsid ?n s = Some (Inr (cid, s))" using cid(1) by (simp add: slabs_clsid_def prog_defs)
  have self: "frees fl (slab s) = frees fl (slab s) \<union> {}" by simp
  have nn: "a \<noteq> 0" if "heap s a = Some c" for a c by (rule base_inv_in_heap [OF b that])
  show ?thesis
  proof (cases "cid = 0")
    case True
    have "wp (do_item_alloc nkey nbytes) (\<lambda>r s'. r = 0 \<and> s' = s) s"
      using True by (simp add: do_item_alloc_def wp_rules alloc_size_def [symmetric] Let_def
          wp_returns [of "slabs_clsid ?n" s, OF start])
    moreover have "allocated fl bl K s nkey nbytes 0 fl s"
      using inv nn by (simp add: allocated_def)
    moreover have "\<not> room fl s ?n" using True cid(1) by (simp add: room_def)
    ultimately show ?thesis by (auto simp: wp_iff)
  next
    case False
    have pl: "cid < POWER_LARGEST" using cid(2) b by (simp add: base_inv_def)
    have tail: "tails (lru_list s) ! cid = 0" "cid < length (tails (lru_list s))"
      using queue_lists(2,6) [OF b] pl False by auto
    let ?s1 = "s\<lparr>cache_lock := True\<rparr>"
    have inv1: "slab_inv fl ?s1" using sl(1) by (simp add: slab_inv_def heap_ok_def free_ok_def)
    obtain r s2 fl' where s2: "slabs_alloc ?n cid ?s1 = Some (Inr (r, s2))" "alloc_result fl ?s1 cid r fl' s2"
        "fl cid = [] \<and> page_refused (slab s) cid \<longrightarrow> r = 0"
        "(\<forall>k. alloc_ok s k) \<and> \<not> (fl cid = [] \<and> page_refused (slab s) cid) \<longrightarrow> r \<noteq> 0"
      using slabs_alloc_spec [OF inv1, of cid ?n] cid(2) False free(2) by auto
    let ?s3 = "s2\<lparr>cache_lock := False\<rparr>"
    have lk: "cache_lock s2" using s2(2) slab_frame_fields(3) [of ?s1 s2] by (simp add: alloc_result_def)
    have "wp (do_item_alloc nkey nbytes) (\<lambda>r' s'. r' = r \<and> s' = ?s3) s"
      using False free(1) tail lk
      by (simp add: do_item_alloc_def wp_rules alloc_size_def [symmetric] Let_def
          wp_returns [of "slabs_clsid ?n" s, OF start] alloc_loop_null
          wp_returns [of "alloc_loop ?n cid 5 0" ?s1, OF alloc_loop_null]
          wp_returns [of "slabs_alloc ?n cid" ?s1, OF s2(1)])
    then have run: "do_item_alloc nkey nbytes s = Some (Inr (r, ?s3))" by (auto simp: wp_iff)
    have res: "alloc_result fl s cid r fl' ?s3"
      using s2(2) free(1) unfolding alloc_result_def slab_frame_def
      by (simp add: slab_inv_cache cong: if_cong)
    note ba = base_inv_alloc [OF b res]
    have mc: "mc_inv fl' bl K ?s3"
      unfolding mc_inv_def ba(2)
    proof (intro conjI ba(1) ballI)
      fix x assume x: "x \<in> in_table bl s"
      then obtain c where c: "heap s x = Some c" "linked_cell c" using inv by (auto simp: mc_inv_def)
      have "x \<notin> frees fl (slab s)" using b x by (auto simp: base_inv_def)
      then show "\<exists>c. heap ?s3 x = Some c \<and> linked_cell c" using ba(5) [OF c(1)] c(2) by blast
    qed
    have used: "heap ?s3 a = Some c \<and> a \<notin> frees fl' (slab ?s3) \<and> a \<noteq> r"
      if a: "heap s a = Some c" "a \<notin> frees fl (slab s)" for a c
    proof -
      have "r \<noteq> 0 \<Longrightarrow> r \<in> frees fl (slab s) \<or> heap s r = None" "frees fl' (slab ?s3) \<subseteq> frees fl (slab s) \<union> {a. heap s a = None}"
        using res unfolding alloc_result_def by (auto split: if_splits)
      then show ?thesis using ba(5) [OF a] a nn [OF a(1)] by auto
    qed
    have new: "r \<notin> frees fl' (slab ?s3) \<and> r \<notin> in_table bl ?s3 \<and>
        (\<exists>c. heap ?s3 r = Some c \<and> ?n \<le> length (it_data c) + offset_data)" if r: "r \<noteq> 0"
    proof -
      obtain c where c: "heap ?s3 r = Some c" "free_cell (mem_base (slab s) ! cid) c"
          "r \<notin> frees fl' (slab ?s3)" "r \<in> frees fl (slab s) \<or> heap s r = None"
        using res r unfolding alloc_result_def by auto
      have "r \<notin> in_table bl s"
        using c(4) b in_table_D(2) [of bl s r] unfolding base_inv_def readable_def by auto
      then show ?thesis
        using c cid(4) [OF False] unfolding ba(2) by (intro conjI exI [of _ c]) (auto simp: free_cell_def)
    qed
    have "slab_frame s ?s3" "spent fl fl'" using res by (simp_all add: alloc_result_def)
    then have "allocated fl bl K s nkey nbytes r fl' ?s3"
      unfolding allocated_def using mc ba(2-4) used new by blast
    moreover have "room fl s ?n \<longleftrightarrow> \<not> (fl cid = [] \<and> page_refused (slab s) cid)"
      using cid(1) False by (simp add: room_def)
    ultimately show ?thesis using run cid(3) False s2(3,4) by blast
  qed
qed

end
