(* ===== verification/Startup.thy ===== *)
theory Startup
  imports Lru
begin

text \<open>
  The start of the server: the construction of the globals of memcached.h before \<open>main\<close>, and
  the invariant of the item store in the state it leaves, from which every run of the storage
  operations starts.
\<close>

section \<open>The globals\<close>

text \<open>The constructors of the globals, in the order of their definitions: \<open>slab\<close>, \<open>hashtable\<close>,
  \<open>lru_list\<close>.\<close>

definition globals_init :: "(machine, unit) prog" where
  "globals_init = seqs [
     slab_default_ctor,
     modify (\<lambda>s. s\<lparr>hashtable := hashtable_default\<rparr>),
     modify (\<lambda>s. s\<lparr>lru_list := lru_ctor\<rparr>)]"

text \<open>The statistics of stat.h, which nothing uses. The constructor leaves \<open>curr_items\<close> and \<open>curr_bytes\<close>
  as they were in memory.\<close>

record Stats =
  stat_lock :: bool
  hash_power_level :: u32
  curr_items :: u32
  hash_bytes :: u64
  curr_bytes :: u64

definition stats_ctor :: "Stats \<Rightarrow> Stats" where
  "stats_ctor uninit = uninit\<lparr>stat_lock := False, hash_power_level := 0, hash_bytes := 0\<rparr>"

text \<open>No mutex is held.\<close>

definition unlocked :: "machine \<Rightarrow> bool" where
  "unlocked s \<longleftrightarrow> \<not> cache_lock s \<and> \<not> slabs_lock (slab s) \<and> list_all Not (item_locks (hashtable s))"

lemma hash_inv_fresh:
  assumes "hashtable s = hashtable_ctor n 0" and "0 < n" "n < 64"
  shows "hash_inv (\<lambda>_. []) s"
  using assms by (simp add: hash_inv_def hashtable_ctor_def Let_def unat_hashsize bucket_ok_def)

lemma mc_inv_fresh:
  assumes inv: "slab_inv fl s" and free: "all_free fl s" and pl: "power_largest (slab s) < POWER_LARGEST"
    and ht: "hashtable s = hashtable_ctor n 0" "0 < n" "n < 64" and l: "lru_list s = lru_ctor"
  shows "mc_inv fl (\<lambda>_. []) {} s" and "stored (\<lambda>_. []) s = Map.empty"
proof -
  have T: "in_table (\<lambda>_. []) s = {}" by (simp add: in_table_def)
  have "all_class0 (heap s)"
    unfolding all_class0_def
  proof (intro allI impI)
    fix a c assume a: "heap s a = Some c"
    then have "a \<in> frees fl (slab s)" using free by (auto simp: all_free_def)
    then show "it_clsid c = 0"
      using inv a unfolding slab_inv_def free_ok_def class_free_def frees_def free_cell_def by fastforce
  qed
  moreover have "stray_ok (frees fl (slab s) \<union> {}) (heap s)"
    using free by (auto simp: stray_ok_def all_free_def)
  moreover have "lru_ok {} s" by (simp add: lru_ok_def l lru_ctor_def power_defs)
  ultimately show "mc_inv fl (\<lambda>_. []) {} s"
    using inv hash_inv_fresh [OF ht] pl T by (simp add: mc_inv_def base_inv_def)
  show "stored (\<lambda>_. []) s = Map.empty"
    by (rule ext) (simp add: stored_def entry_def entry_in_def)
qed

text \<open>A class for up to 2000 bytes starts with a page of at least 481 chunks.\<close>

lemma small_classes:
  assumes co: "classes_ok (slab s)" and sc: "same_classes (slab_table 10000000 6 5 default_settings) (slab s)"
    and fl: "\<And>i. 1 \<le> i \<Longrightarrow> i < power_largest (slab s) \<Longrightarrow> length (fl i) = perslab (mem_base (slab s) ! i)"
    and k: "0 < k" "k \<le> 2000"
  shows "\<exists>cid. clsid_of (slab s) k = Inr cid \<and> cid \<noteq> 0 \<and> 481 \<le> length (fl cid)"
proof -
  let ?T = "slab_table 10000000 6 5 default_settings"
  have pl: "power_largest (slab s) = 50" using sc by (simp add: same_classes_def default_largest)
  have len: "length (mem_base ?T) = 51" by (simp add: default_classes)
  have sz: "cls_size (mem_base (slab s) ! i) = cls_size (mem_base ?T ! i)"
      "perslab (mem_base (slab s) ! i) = perslab (mem_base ?T ! i)" if "i < 51" for i
    using sc that len by (simp_all add: same_classes_def)
  have c: "cls_size (mem_base (slab s) ! 17) = 2176" "cls_size (mem_base (slab s) ! 50) = 1048576"
    by (simp_all only: sz) (simp_all add: default_classes new_class_def)
  obtain cid where cid: "clsid_of (slab s) k = Inr cid" "cid = 0 \<longleftrightarrow> k = 0 \<or> cls_size (mem_base (slab s) ! 50) < k"
      "cid \<noteq> 0 \<longrightarrow> (\<forall>j \<in> {1..<cid}. cls_size (mem_base (slab s) ! j) < k)"
    using clsid_of_spec [OF co, of k] pl by auto
  have nz: "cid \<noteq> 0" using cid(2) c(2) k by simp
  have "\<not> 17 < cid"
  proof
    assume "17 < cid"
    then have "cls_size (mem_base (slab s) ! 17) < k" using cid(3) by simp
    then show False using c(1) k(2) by simp
  qed
  then have "cid - 1 < 17" "cid < 18" using nz by simp_all
  moreover have "list_all (\<lambda>p. 481 \<le> perslab p) (take 17 (drop 1 (mem_base ?T)))"
    by (simp add: default_classes new_class_def)
  ultimately have "481 \<le> perslab (mem_base ?T ! Suc (cid - 1))"
    using len by (auto simp: list_all_length)
  then have "481 \<le> length (fl cid)"
    using fl [of cid] nz \<open>cid < 18\<close> pl sz(2) [of cid] by simp
  then show ?thesis using cid(1) nz by blast
qed

lemma globals_ready:
  obtains s fl where "globals_init fresh_server = Some (Inr ((), s))" "mc_inv fl (\<lambda>_. []) {} s"
    "stored (\<lambda>_. []) s = Map.empty" "unlocked s" "\<And>i. alloc_ok s i" "mem_setting s = default_settings"
    "hashpower (hashtable s) = 16" "last_cas_id s = 0"
    "\<And>k. 0 < k \<Longrightarrow> k \<le> 2000 \<Longrightarrow> \<exists>cid. clsid_of (slab s) k = Inr cid \<and> cid \<noteq> 0 \<and> 481 \<le> length (fl cid)"
proof -
  obtain s fl where s: "slab_ctor 10000000 6 5 fresh_server = Some (Inr ((), s))" "slab_inv fl s"
    "power_largest (slab s) = power_largest (slab_table 10000000 6 5 default_settings)"
    "alloc_ok s = (\<lambda>_. True)" "\<not> slabs_lock (slab s)"
    "all_free fl s" "mem_setting s = default_settings" "\<not> cache_lock s"
    "same_classes (slab_table 10000000 6 5 default_settings) (slab s)"
    "\<And>i. 1 \<le> i \<Longrightarrow> i < power_largest (slab s) \<Longrightarrow> length (fl i) = perslab (mem_base (slab s) ! i)" "last_cas_id s = 0"
    by (rule fresh_ctor) (rule that)
  have pl: "power_largest (slab s) = 50" using s(3) by (simp add: default_largest)
  let ?s = "s\<lparr>hashtable := hashtable_default, lru_list := lru_ctor\<rparr>"
  have run: "globals_init fresh_server = Some (Inr ((), ?s))"
    using s(1) by (simp add: globals_init_def slab_default_ctor_def seqs.simps prog_defs)
  have inv: "slab_inv fl ?s" using s(2) by (simp add: slab_inv_def heap_ok_def free_ok_def)
  have af: "all_free fl ?s" using s(6) by (simp add: all_free_def)
  have plx: "power_largest (slab ?s) < POWER_LARGEST" using pl by (simp add: power_defs)
  have ht: "hashtable ?s = hashtable_ctor 16 0" by (simp add: hashtable_default_def)
  note f = mc_inv_fresh [OF inv af plx ht _ _ , simplified]
  have ul: "unlocked ?s"
    using s(5,8) by (simp add: unlocked_def hashtable_default_def hashtable_ctor_def Let_def list_all_iff)
  have co: "classes_ok (slab s)" using s(2) by (simp add: slab_inv_def)
  have lc: "last_cas_id s = 0" using s(11) .
  show ?thesis
    by (rule that [OF run f(1) f(2) ul])
      (use s(4,7) lc small_classes [OF co s(9,10)] in \<open>simp_all add: hashtable_default_def hashtable_ctor_def Let_def\<close>)
qed

end
