(* ===== verification/Store.thy ===== *)
theory Store
  imports Startup
begin

text \<open>
  The storage commands of LRU_list in slab.cpp (\<open>do_store_item\<close>, \<open>store_item\<close>), what they
  need of the item life cycle beyond theory Lru (update and replacement of an item), and
  their refinement of a map from keys to value, expiry and version.
\<close>

section \<open>Moving an item to the front of its queue\<close>

lemma mc_inv_queue:
  assumes inv: "mc_inv fl bl K s" and q: "queue_state fl bl K' s s'"
  shows "mc_inv fl bl K' s'" and "entry bl s' = entry bl s" and "stored bl s' = stored bl s"
    and "in_table bl s' = in_table bl s" and "items_frame {} (heap s) (heap s')"
proof -
  have st: "lru_step s s'" using q by (simp add: queue_state_def)
  have hs: "hashtable s' = hashtable s" using still_lru [OF st] by blast
  show T: "in_table bl s' = in_table bl s" using hs by (simp add: in_table_def)
  show fr: "items_frame {} (heap s) (heap s')" by (rule items_frame_lru [OF st])
  show e: "entry bl s' = entry bl s" by (rule entry_cong) (simp_all add: key_at_lru [OF st] hs)
  show "mc_inv fl bl K' s'"
    by (rule mc_inv_frame [OF inv queue_state_inv [OF q] fr]) (simp_all add: T)
  show "stored bl s' = stored bl s"
    by (rule ext, rule stored_frame [OF mc_inv_hash [OF inv] fr]) (simp_all add: e)
qed

definition refreshed where
  "refreshed fl bl K s K' s' \<longleftrightarrow> mc_inv fl bl K' s' \<and> quiet s s' \<and> last_cas_id s' = last_cas_id s \<and>
     entry bl s' = entry bl s \<and> stored bl s' = stored bl s \<and> in_table bl s' = in_table bl s \<and>
     items_frame {} (heap s) (heap s')"

lemma do_item_update_spec:
  assumes inv: "mc_inv fl bl K s" and it: "heap s it = Some c" "it \<notin> frees fl (slab s)"
    and sl: "it_flag c AND ITEM_SLABBED = 0" "it_flag c AND ITEM_LINKED \<noteq> 0"
    and free: "\<not> cache_lock s"
  shows "\<exists>K' s'. do_item_update it s = Some (Inr ((), s')) \<and> refreshed fl bl K s K' s'"
proof -
  have it0: "it \<noteq> 0" using inv it(1) by (intro base_inv_in_heap [OF mc_inv_base])
  let ?s1 = "s\<lparr>clock_reads := Suc (clock_reads s)\<rparr>"
  let ?s2 = "?s1\<lparr>cache_lock := True\<rparr>"
  show ?thesis
  proof (cases "it_realtime c < clock s (clock_reads s) - ITEM_UPDATE_INTERVAL")
    case False
    have "wp (do_item_update it) (\<lambda>_ s'. s' = ?s1) s"
      using False it(1) it0 by (simp add: do_item_update_def wp_rules)
    moreover have "refreshed fl bl K s K ?s1"
      using mc_inv_cong [of ?s1 s] inv by (simp add: refreshed_def quiet_def in_table_def)
    ultimately show ?thesis by (auto simp: wp_iff)
  next
    case True
    have i2: "mc_inv fl bl K ?s2" using mc_inv_cong(1) [of ?s2 s fl bl K] inv by simp
    obtain s3 where s3: "item_unlink_q it ?s2 = Some (Inr ((), s3))" "queue_state fl bl K ?s2 s3"
      using item_unlink_q_spec [OF mc_inv_base [OF i2], of it c] it sl(1) by auto
    note q3 = mc_inv_queue [OF i2 s3(2)]
    obtain c3 where c3: "heap s3 it = Some c3" "no_links c3 = no_links c"
      using queue_state_dom [OF s3(2), of it c] it(1) by auto
    note n3 = no_links_eq [OF c3(2)]
    have st3: "lru_step ?s2 s3" using s3(2) by (simp add: queue_state_def)
    have itf3: "it \<notin> frees fl (slab s3)" using it(2) queue_state_frees [OF s3(2)] by simp
    let ?c4 = "c3\<lparr>it_realtime := clock s3 (clock_reads s3)\<rparr>"
    let ?s4 = "s3\<lparr>clock_reads := Suc (clock_reads s3), heap := (heap s3)(it \<mapsto> ?c4)\<rparr>"
    have i4: "mc_inv fl bl K (s3\<lparr>heap := (heap s3)(it \<mapsto> ?c4)\<rparr>)"
        "entry bl (s3\<lparr>heap := (heap s3)(it \<mapsto> ?c4)\<rparr>) = entry bl s3"
      using mc_inv_meta [OF q3(1) c3(1) itf3, of ?c4, simplified, OF linked_cell_fields, simplified] by auto
    have st4: "stored bl (s3\<lparr>heap := (heap s3)(it \<mapsto> ?c4)\<rparr>) = stored bl s3"
      by (rule stored_upd [OF c3(1)]) (simp_all add: content_def value_of_def real_data_off_def)
    note cg4 = mc_inv_cong [of ?s4 "s3\<lparr>heap := (heap s3)(it \<mapsto> ?c4)\<rparr>", simplified]
    have j4: "mc_inv fl bl K ?s4" using cg4(1) i4(1) by blast
    have itf4: "it \<notin> frees fl (slab ?s4)" using itf3 by simp
    have sl4: "it_flag ?c4 AND ITEM_SLABBED = 0" using n3(3) sl(1) by simp
    obtain s5 K' where s5: "item_link_q it ?s4 = Some (Inr ((), s5))" "queue_state fl bl K' ?s4 s5"
      using item_link_q_spec [OF mc_inv_base [OF j4], of it ?c4] itf4 sl4 by auto
    note q5 = mc_inv_queue [OF j4 s5(2)]
    have st5: "lru_step ?s4 s5" using s5(2) by (simp add: queue_state_def)
    let ?s6 = "s5\<lparr>cache_lock := False\<rparr>"
    have lk: "cache_lock s5" using still_lru [OF st5] still_lru [OF st3] by (simp add: still_def quiet_def)
    have "wp (do_item_update it) (\<lambda>_ s'. s' = ?s6) s"
      using True it(1) it0 sl free c3(1) lk
      by (simp add: do_item_update_def wp_rules wp_returns [of "item_unlink_q it" ?s2, OF s3(1), simplified]
          wp_returns [of "item_link_q it" ?s4, OF s5(1), simplified])
    moreover have "refreshed fl bl K s K' ?s6"
    proof -
      have "quiet s ?s6 \<and> last_cas_id ?s6 = last_cas_id s"
        using still_lru [OF st5] still_lru [OF st3] free by (simp add: still_def quiet_def)
      moreover have "mc_inv fl bl K' ?s6" using mc_inv_cong(1) [of ?s6 s5 fl bl K'] q5(1) by simp
      moreover have "entry bl ?s6 = entry bl s"
        using mc_inv_cong(2) [of ?s6 s5 bl] mc_inv_cong(2) [of ?s2 s bl] q5(2) cg4(2) i4(2) q3(2) by simp
      moreover have "stored bl ?s6 = stored bl s"
        using mc_inv_cong(3) [of ?s6 s5 bl] mc_inv_cong(3) [of ?s2 s bl] q5(3) cg4(3) st4 q3(3) by simp
      moreover have "in_table bl ?s6 = in_table bl s"
        using q5(4) q3(4) by (simp add: in_table_def)
      moreover have "items_frame {} (heap s) (heap s5)"
      proof -
        have "items_frame {} (heap s3) (heap ?s4)"
          using c3(1) by (simp add: items_frame_upd core_def)
        then show ?thesis using q3(5) q5(5) items_frame_trans [of "{}"] by simp
      qed
      ultimately show ?thesis by (simp add: refreshed_def)
    qed
    ultimately show ?thesis by (auto simp: wp_iff)
  qed
qed

section \<open>Replacing an item\<close>

lemma linked_stored:
  assumes inv: "mc_inv fl bl K s" and it: "heap s it = Some c" "it \<notin> in_table bl s"
    and wf: "item_wf c" and flag: "it_flag c AND (ITEM_LINKED OR ITEM_SLABBED) = 0"
    and l: "linked fl bl s it c bl' K' s'"
  shows "mc_inv fl bl' K' s'"
    and "stored bl' s' = (stored bl s)(key_of c \<mapsto> (value_of c, it_exptime c, last_cas_id s + 1))"
proof -
  obtain c' where c': "heap s' it = Some c'"
      "core c' = core (c\<lparr>it_flag := it_flag c OR ITEM_LINKED, it_cas := last_cas_id s + 1\<rparr>)"
    using l by (auto simp: linked_def)
  note ce = core_eq [OF c'(2), simplified]
  have e: "entry bl' s' = (entry bl s)(key_of c \<mapsto> it)" and T: "in_table bl' s' = insert it (in_table bl s)"
    using l by (simp_all add: linked_def)
  have "it_flag c AND ITEM_SLABBED = 0"
  proof -
    have "(it_flag c AND (ITEM_LINKED OR ITEM_SLABBED)) AND ITEM_SLABBED = 0" using flag by simp
    then show ?thesis by (simp add: and.assoc)
  qed
  then have lc: "linked_cell c'"
    using ce wf by (simp add: linked_cell_def item_wf_def)
  show "mc_inv fl bl' K' s'"
    by (rule mc_inv_frame [OF inv, where X = "{it}"]) (use l T c'(1) lc in \<open>auto simp: linked_def\<close>)
  show "stored bl' s' = (stored bl s)(key_of c \<mapsto> (value_of c, it_exptime c, last_cas_id s + 1))"
  proof
    fix k
    show "stored bl' s' k = ((stored bl s)(key_of c \<mapsto> (value_of c, it_exptime c, last_cas_id s + 1))) k"
    proof (cases "k = key_of c")
      case True
      then show ?thesis
        using c'(1) ce by (simp add: stored_def e content_def value_of_def real_data_off_def)
    next
      case False
      have "stored bl' s' k = stored bl s k"
      proof (rule stored_frame [OF mc_inv_hash [OF inv]])
        show "items_frame {it} (heap s) (heap s')" using l by (simp add: linked_def)
        show "x \<notin> {it}" if "entry bl s k = Some x" for x
          using entry_Some(1) [OF mc_inv_hash [OF inv] that] it(2) by auto
      qed (use False e in simp)
      then show ?thesis using False by simp
    qed
  qed
qed

text \<open>The replacement of an item that \<open>do_item_get\<close> returned by a new one. An item whose flags
  pass the guard of \<open>do_item_link\<close> takes its place; with another the old one is lost.\<close>

definition linkable :: "base_item \<Rightarrow> bool" where
  "linkable c \<longleftrightarrow> it_flag c AND (ITEM_LINKED OR ITEM_SLABBED) = 0"

definition put_binding :: "base_item \<Rightarrow> u64 \<Rightarrow> (byte list \<times> u32 \<times> u64) option" where
  "put_binding c v = (if linkable c then Some (value_of c, it_exptime c, v) else None)"

definition put_at where
  "put_at bl s k x bl' s' \<longleftrightarrow> stored bl' s' k = x \<and>
     stored bl' s' |` (- {k}) \<subseteq>\<^sub>m stored bl s \<and>
     (\<forall>k'. apart s k k' \<longrightarrow> stored bl' s' k' = stored bl s k')"

lemma put_at_refl: "stored bl s k = x \<Longrightarrow> put_at bl s k x bl s"
  by (simp add: put_at_def map_le_def)

lemma map_le_restrict: "m \<subseteq>\<^sub>m m' \<Longrightarrow> m |` A \<subseteq>\<^sub>m m'"
  unfolding map_le_def by auto

lemma do_item_link_put:
  assumes inv: "mc_inv fl bl K s" and it: "heap s it = Some c" "it \<notin> frees fl (slab s)" "it \<notin> in_table bl s"
    and wf: "item_wf c" and key: "entry bl s (key_of c) = None" and free: "\<not> cache_lock s"
  shows "\<exists>r bl' K' s'. do_item_link it (hash (key_of c)) s = Some (Inr (r, s')) \<and>
     mc_inv fl bl' K' s' \<and> quiet s s' \<and> r = (if linkable c then 1 else 0) \<and>
     stored bl' s' = (stored bl s)(key_of c := put_binding c (last_cas_id s + 1)) \<and>
     heap s' it \<noteq> None \<and> in_table bl' s' \<subseteq> insert it (in_table bl s) \<and>
     items_frame {it} (heap s) (heap s') \<and>
     last_cas_id s' = (if linkable c then last_cas_id s + 1 else last_cas_id s) \<and>
     map_option it_cas (heap s' it) = Some (if linkable c then last_cas_id s + 1 else it_cas c)"
proof (cases "linkable c")
  case True
  have f: "it_flag c AND (ITEM_LINKED OR ITEM_SLABBED) = 0" using True by (simp add: linkable_def)
  have l: "unat (it_nkey c) \<le> length (it_data c)" using wf by (simp add: item_wf_def)
  obtain bl' K' s' where l: "do_item_link it (hash (key_of c)) s = Some (Inr (1, s'))" "linked fl bl s it c bl' K' s'"
    using do_item_link_spec [OF mc_inv_base [OF inv] it f l key free] by blast
  note ls = linked_stored [OF inv it(1,3) wf f l(2)]
  obtain c' where c': "heap s' it = Some c'"
      "core c' = core (c\<lparr>it_flag := it_flag c OR ITEM_LINKED, it_cas := last_cas_id s + 1\<rparr>)"
    using l(2) by (auto simp: linked_def)
  have cas: "it_cas c' = last_cas_id s + 1" using core_eq(7) [OF c'(2)] by simp
  show ?thesis
    using l ls True cas c'(1) unfolding linked_def put_binding_def
    by (intro exI [of _ 1] exI [of _ bl'] exI [of _ K'] exI [of _ s']) simp
next
  case False
  have it0: "it \<noteq> 0" using inv it(1) by (intro base_inv_in_heap [OF mc_inv_base])
  have "wp (do_item_link it (hash (key_of c))) (\<lambda>r s'. r = 0 \<and> s' = s) s"
    using False it(1) it0 by (simp add: do_item_link_def wp_rules linkable_def)
  moreover have "stored bl s (key_of c) = None" using key by (simp add: stored_def)
  then have "stored bl s = (stored bl s)(key_of c := None)" by (auto simp: fun_eq_iff)
  ultimately show ?thesis
    using False inv it(1)
    by (intro exI [of _ 0] exI [of _ bl] exI [of _ K] exI [of _ s]) (auto simp: wp_iff put_binding_def)
qed

lemma do_item_replace_put:
  assumes inv: "mc_inv fl bl K s" and it: "heap s it = Some c" "it \<notin> frees fl (slab s)" "it \<notin> in_table bl s"
    and wf: "item_wf c" and old: "entry bl s (key_of c) = Some old" and free: "\<not> cache_lock s"
  shows "\<exists>r bl' K' s'. do_item_replace old it (hash (key_of c)) s = Some (Inr (r, s')) \<and>
     mc_inv fl bl' K' s' \<and> quiet s s' \<and> r = (if linkable c then 1 else 0) \<and>
     put_at bl s (key_of c) (put_binding c (last_cas_id s + 1)) bl' s' \<and>
     items_frame {old, it} (heap s) (heap s') \<and> in_table bl' s' \<subseteq> insert it (in_table bl s) \<and>
     last_cas_id s' = (if linkable c then last_cas_id s + 1 else last_cas_id s) \<and>
     map_option it_cas (heap s' it) = Some (if linkable c then last_cas_id s + 1 else it_cas c)"
proof -
  let ?k = "key_of c"
  note m = mc_inv_cell [OF inv old]
  obtain o' where o': "heap s old = Some o'" "linked_cell o'" "key_of o' = ?k" using m(4) by blast
  have ne: "old \<noteq> it" using m(1) it(3) by auto
  obtain bl1 s1 where u: "do_item_unlink old (hash ?k) s = Some (Inr ((), s1))"
      "unlinked fl bl K s old o' bl1 s1" "mc_inv fl bl1 K s1"
    using do_item_unlink_spec [OF inv old free] o'(1) by auto
  have e': "entry bl s (key_of o') = Some old" using old o'(3) by simp
  note us = unlinked_stored [OF inv e' u(2)]
  have q: "quiet s s1" "last_cas_id s1 = last_cas_id s" using u(2) by (simp_all add: unlinked_def still_def)
  obtain c1 where c1: "heap s1 it = Some c1" "core c1 = core c"
    using u(2) it(1) ne unfolding unlinked_def items_frame_def by blast
  note ce = core_eq [OF c1(2)]
  have same: "key_of c1 = ?k" "item_wf c1 = item_wf c" "linkable c1 = linkable c"
      "put_binding c1 v = put_binding c v" for v
    using ce core_key [OF c1(2)]
    by (simp_all add: item_wf_def linkable_def put_binding_def value_of_def real_data_off_def)
  have T: "in_table bl1 s1 \<subseteq> in_table bl s" using u(2) by (auto simp: unlinked_def)
  have pre: "it \<notin> frees fl (slab s1)" "it \<notin> in_table bl1 s1" "entry bl1 s1 (key_of c1) = None" "\<not> cache_lock s1"
    using q it T u(2) o'(3) free by (auto simp: quiet_def same unlinked_def)
  obtain r bl' K' s' where l: "do_item_link it (hash ?k) s1 = Some (Inr (r, s'))"
     "mc_inv fl bl' K' s'" "quiet s1 s'" "r = (if linkable c then 1 else 0)"
     "stored bl' s' = (stored bl1 s1)(?k := put_binding c (last_cas_id s + 1))"
     "in_table bl' s' \<subseteq> insert it (in_table bl1 s1)" "items_frame {it} (heap s1) (heap s')"
     "last_cas_id s' = (if linkable c then last_cas_id s + 1 else last_cas_id s)"
     "map_option it_cas (heap s' it) = Some (if linkable c then last_cas_id s + 1 else it_cas c)"
    using do_item_link_put [OF u(3) c1(1) pre(1,2) _ pre(3,4)] wf unfolding same q(2) ce by blast
  have sl: "it_flag o' AND ITEM_SLABBED = 0" using o'(2) by (simp add: linked_cell_def)
  have "wp (do_item_replace old it (hash ?k)) (\<lambda>r' t. r' = r \<and> t = s') s"
    using o'(1) m(3) sl by (simp add: do_item_replace_def wp_rules wp_returns [of "do_item_unlink old (hash ?k)" s, OF u(1)]
        wp_returns [of "do_item_link it (hash ?k)" s1, OF l(1)])
  then have run: "do_item_replace old it (hash ?k) s = Some (Inr (r, s'))" by (auto simp: wp_iff)
  have "put_at bl s ?k (put_binding c (last_cas_id s + 1)) bl' s'"
    unfolding put_at_def l(5)
  proof (intro conjI allI impI)
    show "(stored bl1 s1)(?k := put_binding c (last_cas_id s + 1)) |` (- {?k}) \<subseteq>\<^sub>m stored bl s"
      using us(2) unfolding map_le_def by (auto simp: restrict_map_def split: if_splits)
    show "((stored bl1 s1)(?k := put_binding c (last_cas_id s + 1))) k' = stored bl s k'"
      if "apart s ?k k'" for k'
      using us(3) [of k'] that apart_neq [OF that] o'(3) by simp
  qed simp
  moreover have "items_frame {old, it} (heap s) (heap s')"
    using items_frame_mono [of "{old}" "heap s" "heap s1" "{old, it}"] u(2)
      items_frame_mono [of "{it}" "heap s1" "heap s'" "{old, it}", OF l(7)] items_frame_trans
    unfolding unlinked_def by blast
  moreover have "in_table bl' s' \<subseteq> insert it (in_table bl s)" using l(6) T by blast
  moreover have "quiet s s'" using q(1) l(3) quiet_trans by blast
  ultimately show ?thesis using run l(2,4,8,9) by blast
qed

section \<open>The storage commands\<close>

datatype nread =
    NREAD_ADD | NREAD_SET | NREAD_REPLACE | NREAD_APPEND | NREAD_PREPEND | NREAD_CAS | NREAD_ERROR

datatype store_status = NOT_STORED | STORED | EXISTS | NOT_FOUND

text \<open>The sum of two \<open>int\<close> values.\<close>

definition int_add :: "int \<Rightarrow> int \<Rightarrow> (machine, int) prog" where
  "int_add a b = (if - (2 ^ 31) \<le> a + b \<and> a + b < 2 ^ 31 then ret (a + b) else fail IntOverflow)"

lemma wp_int_add [wp_rules]:
  "wp (int_add a b) Q s = (- (2 ^ 31) \<le> a + b \<and> a + b < 2 ^ 31 \<and> Q (a + b) s)"
  by (auto simp: int_add_def wp_rules)

text \<open>\<open>memcpy\<close> of the value of an item to an offset of \<open>data\<close> of another.\<close>

definition copy_value :: "addr \<Rightarrow> nat \<Rightarrow> addr \<Rightarrow> (machine, unit) prog" where
  "copy_value dst off src = bnd (rd src) (\<lambda>c.
     bnd (rd_data src (real_data_off c) (size_t (it_nbytes c))) (\<lambda>bs. wr_data dst off bs))"

definition fill_joined :: "nread \<Rightarrow> addr \<Rightarrow> addr \<Rightarrow> addr \<Rightarrow> int \<Rightarrow> (machine, unit) prog" where
  "fill_joined cmd it old_it new_it joint = bnd (rd old_it) (\<lambda>o'. bnd (rd it) (\<lambda>c. seqs [
     upd new_it (\<lambda>n. n\<lparr>it_nkey := it_nkey o'\<rparr>),
     upd new_it (\<lambda>n. n\<lparr>it_flag := 0\<rparr>),
     upd new_it (\<lambda>n. n\<lparr>it_exptime := it_exptime o'\<rparr>),
     upd new_it (\<lambda>n. n\<lparr>it_nbytes := joint\<rparr>),
     bnd (rd_data old_it 0 (unat (it_nkey o'))) (\<lambda>key. wr_data new_it 0 key),
     wr_data new_it (unat (it_nkey o')) [CHR ''0''],
     if cmd = NREAD_APPEND
     then seqs [
       copy_value new_it (real_data_off o') old_it,
       copy_value new_it (nat (int (real_data_off o') + it_nbytes o' - 2)) it]
     else seqs [
       copy_value new_it (real_data_off o') it,
       copy_value new_it (nat (int (real_data_off o') + it_nbytes c - 2)) old_it]]))"

text \<open>
  The end of \<open>do_store_item\<close>: the references to the old and the new item are released, and
  the version of a stored item goes to the connection (\<open>c->cas\<close>).
\<close>

definition store_end :: "store_status \<Rightarrow> addr \<Rightarrow> addr \<Rightarrow> addr \<Rightarrow>
    (machine, store_status \<times> u64 option) prog" where
  "store_end store_stat it old_it new_it = thn (seqs [
       whenP (old_it \<noteq> 0) (do_item_remove old_it),
       whenP (new_it \<noteq> 0) (do_item_remove new_it)])
     (if store_stat = STORED
         then bnd (get_cas it) (\<lambda>v. ret (STORED, Some v)) else ret (store_stat, None))"

definition store_put :: "addr \<Rightarrow> addr \<Rightarrow> addr \<Rightarrow> u32 \<Rightarrow>
    (machine, store_status \<times> u64 option) prog" where
  "store_put it old_it new_it hv = thn (upd it (\<lambda>c. c\<lparr>it_cas := it_cas c + 1\<rparr>))
     (thn (if old_it \<noteq> 0 then item_replace old_it it hv else do_item_link it hv)
       (store_end STORED it old_it new_it))"

definition store_branch :: "nread \<Rightarrow> addr \<Rightarrow> addr \<Rightarrow> u32 \<Rightarrow>
    (machine, store_status \<times> u64 option) prog" where
  "store_branch cmd it old_it hv = (
     if old_it \<noteq> 0 \<and> cmd = NREAD_ADD
     then thn (do_item_update old_it) (store_end NOT_STORED it old_it 0)
     else if old_it = 0 \<and> (cmd = NREAD_REPLACE \<or> cmd = NREAD_APPEND \<or> cmd = NREAD_PREPEND)
     then store_end NOT_STORED it old_it 0
     else if cmd = NREAD_CAS
     then bnd (rd it) (\<lambda>c. bnd (rd old_it) (\<lambda>o'.
       if it_cas c = it_cas o'
       then thn (item_replace old_it it hv) (store_end STORED it old_it 0)
       else store_end EXISTS it old_it 0))
     else if cmd = NREAD_APPEND \<or> cmd = NREAD_PREPEND
     then bnd (rd it) (\<lambda>c. bnd (rd old_it) (\<lambda>o'.
       if it_cas c \<noteq> it_cas o' then store_end EXISTS it old_it 0
       else bnd (int_add (it_nbytes c) (it_nbytes o')) (\<lambda>sum. bnd (int_add sum (- 2)) (\<lambda>joint.
         bnd (do_item_alloc (unat (it_nkey c)) joint) (\<lambda>new_it.
         if new_it = 0
         then thn (whenP (old_it \<noteq> 0) (do_item_remove old_it)) (ret (NOT_STORED, None))
         else thn (fill_joined cmd it old_it new_it joint) (store_put new_it old_it new_it hv))))))
     else store_put it old_it 0 hv)"

definition do_store_item :: "nread \<Rightarrow> addr \<Rightarrow> u32 \<Rightarrow>
    (machine, store_status \<times> u64 option) prog" where
  "do_store_item cmd it hv = bnd (item_key it) (\<lambda>key. bnd (do_item_get key hv)
     (\<lambda>old_it. store_branch cmd it old_it hv))"

definition store_item :: "nread \<Rightarrow> addr \<Rightarrow> (machine, store_status \<times> u64 option) prog" where
  "store_item cmd it = under_region it (\<lambda>hv. do_store_item cmd it hv)"

section \<open>The abstract storage commands\<close>

text \<open>
  What a storage command means for the binding of its key: \<open>old\<close> is what the key is bound to
  and still alive, \<open>c\<close> the new item, \<open>ok\<close> whether a joined item can be allocated and
  \<open>v\<close> the next version. A CAS of a key that is not there is no case of it.
\<close>

fun joined :: "nread \<Rightarrow> byte list \<Rightarrow> byte list \<Rightarrow> byte list" where
  "joined NREAD_PREPEND old new = take (length new - 2) new @ old"
| "joined cmd old new = take (length old - 2) old @ new"

definition store_spec :: "nread \<Rightarrow> (byte list \<times> u32 \<times> u64) option \<Rightarrow> base_item \<Rightarrow> bool \<Rightarrow> u64 \<Rightarrow>
    store_status \<times> (byte list \<times> u32 \<times> u64) option" where
  "store_spec cmd old c ok v = (case (cmd, old) of
     (NREAD_ADD, Some x) \<Rightarrow> (NOT_STORED, old)
   | (NREAD_REPLACE, None) \<Rightarrow> (NOT_STORED, None)
   | (NREAD_APPEND, None) \<Rightarrow> (NOT_STORED, None)
   | (NREAD_PREPEND, None) \<Rightarrow> (NOT_STORED, None)
   | (NREAD_CAS, Some (_, _, u)) \<Rightarrow> if it_cas c = u then (STORED, put_binding c v) else (EXISTS, old)
   | (NREAD_APPEND, Some (w, e, u)) \<Rightarrow>
       if it_cas c \<noteq> u then (EXISTS, old) else if \<not> ok then (NOT_STORED, old)
       else (STORED, Some (joined cmd w (value_of c), e, v))
   | (NREAD_PREPEND, Some (w, e, u)) \<Rightarrow>
       if it_cas c \<noteq> u then (EXISTS, old) else if \<not> ok then (NOT_STORED, old)
       else (STORED, Some (joined cmd w (value_of c), e, v))
   | _ \<Rightarrow> (STORED, put_binding c v))"

text \<open>The binding of a key that has not expired at the next reading of the clock.\<close>

definition live :: "(nat \<Rightarrow> addr list) \<Rightarrow> machine \<Rightarrow> byte list \<Rightarrow> (byte list \<times> u32 \<times> u64) option" where
  "live bl s k = (case stored bl s k of None \<Rightarrow> None
     | Some (w, e, u) \<Rightarrow> if e \<noteq> 0 \<and> e \<le> clock s (clock_reads s) then None else Some (w, e, u))"

section \<open>Frames of the storage commands\<close>

definition world :: "machine \<Rightarrow> machine \<Rightarrow> bool" where
  "world s s' \<longleftrightarrow> cache_lock s' = cache_lock s \<and> same_classes (slab s) (slab s') \<and>
     alloc_ok s' = alloc_ok s \<and> clock s' = clock s \<and> mem_setting s' = mem_setting s \<and>
     hashpower (hashtable s') = hashpower (hashtable s) \<and>
     item_locks (hashtable s') = item_locks (hashtable s) \<and>
     item_lock_count (hashtable s') = item_lock_count (hashtable s)"

lemma world_refl [simp]: "world s s"
  by (simp add: world_def)

lemma world_trans: "world a b \<Longrightarrow> world b c \<Longrightarrow> world a c"
  using same_classes_trans [of "slab a" "slab b" "slab c"] by (simp add: world_def)

lemma world_quiet: "quiet s s' \<Longrightarrow> world s s'"
  by (simp add: world_def quiet_def)

lemma world_slab: "slab_frame s s' \<Longrightarrow> world s s'"
  by (simp add: world_def slab_frame_def)

lemma world_apart: "world s s' \<Longrightarrow> apart s' = apart s"
  by (simp add: world_def apart_def fun_eq_iff)

lemma map_le_at: "m \<subseteq>\<^sub>m m' \<Longrightarrow> m x = Some y \<Longrightarrow> m' x = Some y"
  unfolding map_le_def by force

lemma put_at_trans:
  assumes "put_at bl s k x bl1 s1" and "put_at bl1 s1 k y bl2 s2" and "world s s1"
  shows "put_at bl s k y bl2 s2"
proof -
  have "stored bl2 s2 |` (- {k}) \<subseteq>\<^sub>m stored bl s"
    unfolding map_le_def
  proof
    fix k' assume "k' \<in> dom (stored bl2 s2 |` (- {k}))"
    then obtain y where y: "stored bl2 s2 k' = Some y" "k' \<noteq> k"
      by (auto simp: restrict_map_def split: if_splits)
    have "stored bl2 s2 |` (- {k}) \<subseteq>\<^sub>m stored bl1 s1" "stored bl1 s1 |` (- {k}) \<subseteq>\<^sub>m stored bl s"
      using assms(1,2) by (simp_all add: put_at_def)
    then have "stored bl s k' = Some y"
      using map_le_at [of _ _ k' y] y by (simp add: restrict_map_def)
    with y show "(stored bl2 s2 |` (- {k})) k' = stored bl s k'" by simp
  qed
  then show ?thesis
    using assms(1,2) world_apart [OF assms(3)] unfolding put_at_def by simp
qed

lemma put_at_same: "put_at bl s k x bl1 s1 \<Longrightarrow> stored bl1 s2 = stored bl1 s1 \<Longrightarrow> put_at bl s k x bl1 s2"
  by (simp add: put_at_def)

lemma refreshed_trans:
  "refreshed fl bl K s K1 s1 \<Longrightarrow> refreshed fl bl K1 s1 K2 s2 \<Longrightarrow> refreshed fl bl K s K2 s2"
  unfolding refreshed_def using quiet_trans items_frame_trans by fastforce

lemma refreshed_refl: "mc_inv fl bl K s \<Longrightarrow> refreshed fl bl K s K s"
  by (simp add: refreshed_def)

lemma refreshed_cell:
  "refreshed fl bl K s K' s' \<Longrightarrow> heap s a = Some c \<Longrightarrow> \<exists>c'. heap s' a = Some c' \<and> core c' = core c"
  unfolding refreshed_def items_frame_def by blast

lemma refreshed_frees: "refreshed fl bl K s K' s' \<Longrightarrow> frees fl (slab s') = frees fl (slab s)"
  by (simp add: refreshed_def quiet_def)

text \<open>Releasing a reference to an item in use.\<close>

lemma do_item_remove_ok:
  assumes inv: "mc_inv fl bl K s" and it: "heap s x = Some c" "x \<notin> frees fl (slab s)"
  shows "\<exists>s'. do_item_remove x s = Some (Inr ((), s')) \<and> refreshed fl bl K s K s'"
proof -
  note r = do_item_remove_run [OF mc_inv_base [OF inv] it(1)]
  let ?c = "c\<lparr>it_refcount := it_refcount c - 1\<rparr>"
  let ?s = "s\<lparr>heap := (heap s)(x \<mapsto> ?c)\<rparr>"
  have i: "mc_inv fl bl K ?s" "entry bl ?s = entry bl s"
    using mc_inv_meta [OF inv it, of ?c, simplified, OF linked_cell_fields, simplified] by auto
  have "stored bl ?s = stored bl s"
    by (rule stored_upd [OF it(1)]) (simp_all add: content_def value_of_def real_data_off_def)
  then have "refreshed fl bl K s K ?s"
    using i it(1) by (simp add: refreshed_def quiet_def in_table_def items_frame_upd core_def)
  then show ?thesis using r refreshed_refl [OF inv] by auto
qed

text \<open>The end of a storage command.\<close>

definition releasable where
  "releasable fl s x \<longleftrightarrow> x = 0 \<or> heap s x \<noteq> None \<and> x \<notin> frees fl (slab s)"

lemma release_ok:
  assumes inv: "mc_inv fl bl K s" and x: "releasable fl s x"
  shows "\<exists>s'. whenP (x \<noteq> 0) (do_item_remove x) s = Some (Inr ((), s')) \<and> refreshed fl bl K s K s'"
proof (cases "x = 0")
  case True
  then show ?thesis using refreshed_refl [OF inv] by (auto simp: whenP_def ret_def)
next
  case False
  then obtain c where "heap s x = Some c" "x \<notin> frees fl (slab s)" using x by (auto simp: releasable_def)
  then show ?thesis using do_item_remove_ok [OF inv] False by (simp add: whenP_def)
qed

lemma store_end_ok:
  assumes inv: "mc_inv fl bl K s" and x: "releasable fl s old" "releasable fl s new_it"
    and it: "heap s it = Some c"
  shows "\<exists>s'. store_end st it old new_it s =
      Some (Inr ((st, if st = STORED then Some (it_cas c) else None), s')) \<and> refreshed fl bl K s K s'"
proof -
  obtain s1 where s1: "whenP (old \<noteq> 0) (do_item_remove old) s = Some (Inr ((), s1))" "refreshed fl bl K s K s1"
    using release_ok [OF inv x(1)] by blast
  have inv1: "mc_inv fl bl K s1" using s1(2) by (simp add: refreshed_def)
  have "releasable fl s1 new_it"
    using x(2) refreshed_cell [OF s1(2), of new_it] refreshed_frees [OF s1(2)] by (auto simp: releasable_def)
  then obtain s2 where s2: "whenP (new_it \<noteq> 0) (do_item_remove new_it) s1 = Some (Inr ((), s2))"
      "refreshed fl bl K s1 K s2"
    using release_ok [OF inv1] by blast
  note r = refreshed_trans [OF s1(2) s2(2)]
  obtain c2 where c2: "heap s2 it = Some c2" "core c2 = core c" using refreshed_cell [OF r it] by blast
  have it0: "it \<noteq> 0" using inv it by (intro base_inv_in_heap [OF mc_inv_base])
  have "wp (store_end st it old new_it)
     (\<lambda>r s'. r = (st, if st = STORED then Some (it_cas c) else None) \<and> s' = s2) s"
    using c2(1) core_eq(7) [OF c2(2)] it0
    by (simp add: store_end_def wp_thn wp_seqs_Cons wp_seqs_Nil wp_returns [of "whenP (old \<noteq> 0) (do_item_remove old)" s, OF s1(1), simplified]
        wp_returns [of "whenP (new_it \<noteq> 0) (do_item_remove new_it)" s1, OF s2(1), simplified]
        wp_if wp_ret get_cas_def wp_bnd wp_rd)
  then show ?thesis using r by (auto simp: wp_iff)
qed

section \<open>The lookup that starts a storage command\<close>

definition found where
  "found fl bl K s k r bl' s' \<longleftrightarrow> mc_inv fl bl' K s' \<and> quiet s s' \<and> last_cas_id s' = last_cas_id s \<and>
     in_table bl' s' \<subseteq> in_table bl s \<and> put_at bl s k (live bl s k) bl' s' \<and>
     (\<forall>a c. heap s a = Some c \<longrightarrow> (\<exists>c'. heap s' a = Some c' \<and> length (it_data c') = length (it_data c) \<and>
        (a \<notin> in_table bl s \<longrightarrow> core c' = core c))) \<and>
     (case live bl s k of None \<Rightarrow> r = 0 \<and> entry bl' s' k = None
      | Some x \<Rightarrow> entry bl' s' k = Some r \<and> r \<noteq> 0 \<and> (\<exists>o'. heap s' r = Some o' \<and> linked_cell o' \<and>
          key_of o' = k \<and> content o' = x))"

lemma do_item_get_found:
  assumes inv: "mc_inv fl bl K s" and free: "\<not> cache_lock s"
  shows "\<exists>r bl' s'. do_item_get k (hash k) s = Some (Inr (r, s')) \<and> found fl bl K s k r bl' s'"
proof -
  obtain r bl' s' where g: "do_item_get k (hash k) s = Some (Inr (r, s'))" "got fl bl K s k r bl' s'"
    using do_item_get_spec [OF inv free] by blast
  have "found fl bl K s k r bl' s'"
  proof (cases "entry bl s k")
    case None
    then have "live bl s k = None" "stored bl s k = None" by (simp_all add: live_def stored_def)
    then show ?thesis using g(2) None by (auto simp: got_def found_def put_at_refl)
  next
    case (Some x)
    obtain c where c: "heap s x = Some c" "linked_cell c" "key_of c = k"
       "if expired s c then r = 0 \<and> dropped bl s k bl' s' \<and> clock_reads s' = Suc (clock_reads s)
           else r = x \<and> bl' = bl \<and> s' = fetched s x c"
      using g(2) Some by (auto simp: got_def)
    have st: "stored bl s k = Some (content c)" using Some c(1) by (simp add: stored_def)
    have xt: "x \<in> in_table bl s" by (rule mc_inv_cell(1) [OF inv Some])
    have gi: "mc_inv fl bl' K s'" "quiet s s'" "last_cas_id s' = last_cas_id s"
      using g(2) by (simp_all add: got_def)
    show ?thesis
    proof (cases "expired s c")
      case True
      have l: "live bl s k = None"
        using True st by (simp add: live_def content_def expired_def)
      have d: "dropped bl s k bl' s'" "r = 0" using c(4) True by simp_all
      have "put_at bl s k None bl' s'"
        using d(1) map_le_restrict [of "stored bl' s'" "stored bl s"] by (simp add: dropped_def put_at_def)
      then show ?thesis
        using d gi l Some xt unfolding found_def dropped_def items_frame_def by (auto 4 4)
    next
      case False
      have l: "live bl s k = Some (content c)"
        using False st by (auto simp: live_def content_def expired_def)
      have f: "s' = fetched s x c" "bl' = bl" "r = x" using c(4) False by simp_all
      let ?c = "c\<lparr>it_refcount := it_refcount c + 1, it_flag := it_flag c OR ITEM_FETCHED\<rparr>"
      have cc: "content ?c = content c" by (simp add: content_def value_of_def real_data_off_def)
      have st': "stored bl s' = stored bl s"
      proof -
        have "stored bl (s\<lparr>heap := (heap s)(x \<mapsto> ?c)\<rparr>) = stored bl s"
          by (rule stored_upd [OF c(1)]) (simp_all add: cc)
        moreover have "stored bl s' = stored bl (s\<lparr>heap := (heap s)(x \<mapsto> ?c)\<rparr>)"
          by (rule mc_inv_cong(3)) (simp_all add: f(1) fetched_def)
        ultimately show ?thesis by simp
      qed
      have hx: "heap s' = (heap s)(x \<mapsto> ?c)" by (simp add: f(1) fetched_def)
      have kx: "key_of ?c = k" using c(3) by (simp add: key_of_def)
      have lx: "linked_cell ?c" by (rule linked_cell_fields [OF c(2)]) simp_all
      have tx: "in_table bl s' = in_table bl s" by (simp add: f(1) fetched_def in_table_def)
      have ex: "entry bl s' k = Some x"
      proof -
        have "entry bl s' = entry bl s"
          by (rule entry_cong) (use key_at_upd [of "heap s" x c ?c] c(1) in \<open>simp_all add: f(1) fetched_def\<close>)
        then show ?thesis using Some by simp
      qed
      have p: "put_at bl s k (live bl s k) bl s'"
        using put_at_same [OF put_at_refl [OF st] st'] l by simp
      have h: "\<exists>c'. heap s' a = Some c' \<and> length (it_data c') = length (it_data d) \<and>
        (a \<notin> in_table bl s \<longrightarrow> core c' = core d)" if "heap s a = Some d" for a d
        using that c(1) xt by (auto simp: hx)
      have x0: "x \<noteq> 0" by (rule mc_inv_cell(3) [OF inv Some])
      show ?thesis
        unfolding found_def f(2,3) using gi p tx h f(2) ex x0
        by (simp add: l) (use hx kx lx cc in simp)
    qed
  qed
  then show ?thesis using g(1) by blast
qed

section \<open>Putting an item under its key\<close>

text \<open>A new item of a client: in use, not in the table, with room for its key and its value.\<close>

definition pending where
  "pending fl bl s it c \<longleftrightarrow> heap s it = Some c \<and> it \<notin> frees fl (slab s) \<and> it \<notin> in_table bl s \<and> item_wf c"

definition put_op :: "addr \<Rightarrow> addr \<Rightarrow> u32 \<Rightarrow> (machine, nat) prog" where
  "put_op old it hv = (if old \<noteq> 0 then item_replace old it hv else do_item_link it hv)"

text \<open>The counter of versions after an operation that takes a number or does not.\<close>

definition counted :: "bool \<Rightarrow> u64 \<Rightarrow> u64" where
  "counted b u = (if b then u + 1 else u)"

lemma counted_simps [simp]: "counted True u = u + 1" "counted False u = u"
  by (simp_all add: counted_def)

lemma put_op_put:
  assumes inv: "mc_inv fl bl K s" and it: "pending fl bl s it c" and free: "\<not> cache_lock s"
    and old: "entry bl s (key_of c) = (if old = 0 then None else Some old)"
  shows "\<exists>r bl' K' s'. put_op old it (hash (key_of c)) s = Some (Inr (r, s')) \<and>
     mc_inv fl bl' K' s' \<and> quiet s s' \<and> put_at bl s (key_of c) (put_binding c (last_cas_id s + 1)) bl' s' \<and>
     map_option it_cas (heap s' it) = Some (if linkable c then last_cas_id s + 1 else it_cas c) \<and>
     releasable fl s' old \<and> last_cas_id s' = counted (linkable c) (last_cas_id s)"
proof -
  have p: "heap s it = Some c" "it \<notin> frees fl (slab s)" "it \<notin> in_table bl s" "item_wf c"
    using it by (simp_all add: pending_def)
  show ?thesis
  proof (cases "old = 0")
    case True
    have e: "entry bl s (key_of c) = None" using old True by simp
    obtain r bl' K' s' where l: "do_item_link it (hash (key_of c)) s = Some (Inr (r, s'))"
       "mc_inv fl bl' K' s'" "quiet s s'"
       "stored bl' s' = (stored bl s)(key_of c := put_binding c (last_cas_id s + 1))"
       "map_option it_cas (heap s' it) = Some (if linkable c then last_cas_id s + 1 else it_cas c)"
       "last_cas_id s' = counted (linkable c) (last_cas_id s)"
      using do_item_link_put [OF inv p e free] unfolding counted_def by blast
    have "put_at bl s (key_of c) (put_binding c (last_cas_id s + 1)) bl' s'"
      using apart_neq by (auto simp: put_at_def l(4) map_le_def restrict_map_def)
    then show ?thesis
      using l True by (auto simp: put_op_def releasable_def)
  next
    case False
    have e: "entry bl s (key_of c) = Some old" using old False by simp
    obtain r bl' K' s' where l: "do_item_replace old it (hash (key_of c)) s = Some (Inr (r, s'))"
       "mc_inv fl bl' K' s'" "quiet s s'"
       "put_at bl s (key_of c) (put_binding c (last_cas_id s + 1)) bl' s'"
       "map_option it_cas (heap s' it) = Some (if linkable c then last_cas_id s + 1 else it_cas c)"
       "items_frame {old, it} (heap s) (heap s')"
       "last_cas_id s' = counted (linkable c) (last_cas_id s)"
      using do_item_replace_put [OF inv p e free] unfolding counted_def by blast
    note m = mc_inv_cell [OF inv e]
    have "heap s' old \<noteq> None" using m(4) l(6) unfolding items_frame_def by blast
    moreover have "old \<notin> frees fl (slab s')" using m(2) l(3) by (simp add: quiet_def)
    ultimately show ?thesis
      using l False by (auto simp: put_op_def item_replace_def releasable_def)
  qed
qed

lemma put_then_end:
  assumes inv: "mc_inv fl bl K s" and it: "pending fl bl s it c" and free: "\<not> cache_lock s"
    and old: "entry bl s (key_of c) = (if old = 0 then None else Some old)"
    and new: "new_it = 0 \<or> new_it = it"
  shows "\<exists>bl' K' s'. thn (put_op old it (hash (key_of c))) (store_end STORED it old new_it) s =
        Some (Inr ((STORED, Some (if linkable c then last_cas_id s + 1 else it_cas c)), s')) \<and>
     mc_inv fl bl' K' s' \<and> quiet s s' \<and>
     put_at bl s (key_of c) (put_binding c (last_cas_id s + 1)) bl' s' \<and>
     last_cas_id s' = counted (linkable c) (last_cas_id s)"
proof -
  obtain r bl' K' s1 where l: "put_op old it (hash (key_of c)) s = Some (Inr (r, s1))"
       "mc_inv fl bl' K' s1" "quiet s s1"
       "put_at bl s (key_of c) (put_binding c (last_cas_id s + 1)) bl' s1"
       "map_option it_cas (heap s1 it) = Some (if linkable c then last_cas_id s + 1 else it_cas c)"
       "releasable fl s1 old" "last_cas_id s1 = counted (linkable c) (last_cas_id s)"
    using put_op_put [OF inv it free old] by blast
  obtain c1 where c1: "heap s1 it = Some c1" "it_cas c1 = (if linkable c then last_cas_id s + 1 else it_cas c)"
    using l(5) by auto
  have "releasable fl s1 new_it"
    using new c1(1) it l(3) by (auto simp: releasable_def pending_def quiet_def)
  then obtain s2 where s2: "store_end STORED it old new_it s1 = Some (Inr ((STORED, Some (it_cas c1)), s2))"
      "refreshed fl bl' K' s1 K' s2"
    using store_end_ok [OF l(2,6) _ c1(1), of new_it STORED] by auto
  have "thn (put_op old it (hash (key_of c))) (store_end STORED it old new_it) s =
      Some (Inr ((STORED, Some (it_cas c1)), s2))"
    using l(1) s2(1) by (simp add: thn_def bnd_def)
  moreover have "put_at bl s (key_of c) (put_binding c (last_cas_id s + 1)) bl' s2"
    by (rule put_at_same [OF l(4)]) (use s2(2) in \<open>simp add: refreshed_def\<close>)
  moreover have "quiet s s2" using l(3) s2(2) quiet_trans by (auto simp: refreshed_def)
  moreover have "mc_inv fl bl' K' s2" using s2(2) by (simp add: refreshed_def)
  moreover have "last_cas_id s2 = counted (linkable c) (last_cas_id s)"
    using s2(2) l(7) by (simp add: refreshed_def)
  ultimately show ?thesis unfolding c1(2) by blast
qed

section \<open>Writing an item nobody else sees\<close>

lemma pending_write:
  assumes inv: "mc_inv fl bl K s" and a: "heap s a = Some c" "a \<notin> frees fl (slab s)" "a \<notin> in_table bl s"
    and c': "length (it_data c') = length (it_data c)" "it_clsid c' = it_clsid c"
      "it_next c' = it_next c" "it_prev c' = it_prev c"
  shows "mc_inv fl bl K (s\<lparr>heap := (heap s)(a \<mapsto> c')\<rparr>)"
    and "entry bl (s\<lparr>heap := (heap s)(a \<mapsto> c')\<rparr>) = entry bl s"
    and "stored bl (s\<lparr>heap := (heap s)(a \<mapsto> c')\<rparr>) = stored bl s"
proof -
  let ?s = "s\<lparr>heap := (heap s)(a \<mapsto> c')\<rparr>"
  note b = mc_inv_base [OF inv] and h = mc_inv_hash [OF inv]
  have T: "in_table bl ?s = in_table bl s" by (simp add: in_table_def)
  have bi: "base_inv fl bl K ?s"
  proof (rule base_inv_upd [OF b a(1)])
    show "it_next c' \<in> insert 0 K \<and> it_prev c' \<in> insert 0 K" if "a \<in> K"
      using base_inv_cell(3) [OF b that] a(1) c' by auto
  qed (use a c' base_inv_class0 [OF b a(1)] in simp_all)
  then show "mc_inv fl bl K ?s" using inv a(3) unfolding mc_inv_def T by auto
  show e: "entry bl ?s = entry bl s"
  proof
    fix k
    let ?b = "bl (hash_index (hashpower (hashtable s)) (hash k))"
    have "x \<noteq> a" if "x \<in> set ?b" for x
      using that a(3) hash_index_less unfolding in_table_def by blast
    then have "key_at (heap ?s) x = key_at (heap s) x" if "x \<in> set ?b" for x
      using that by (simp add: key_at_def)
    then show "entry bl ?s k = entry bl s k"
      unfolding entry_def entry_in_def by (simp, intro find_cong refl) simp
  qed
  show "stored bl ?s = stored bl s"
  proof
    fix k
    show "stored bl ?s k = stored bl s k"
    proof (rule stored_frame [OF h])
      show "items_frame {a} (heap s) (heap ?s)" using a(1) c'(1) by (simp add: items_frame_upd)
      show "x \<notin> {a}" if "entry bl s k = Some x" for x
        using entry_Some(1) [OF h that] a(3) by auto
    qed (simp add: e)
  qed
qed

section \<open>Joining values\<close>

lemma blit_join:
  assumes "2 \<le> length a" and "p + (length a + length b - 2) + 2 \<le> length D" and "2 \<le> length b"
  shows "take (length a + length b - 2) (drop p (blit (blit D p a) (p + length a - 2) b)) =
    take (length a - 2) a @ b"
  using assms by (simp add: blit_def)


text \<open>A copy of the key, the separator and the two values: what \<open>fill_joined\<close> makes of a chunk.\<close>

lemma blit_skip:
  "off + length bs \<le> p \<Longrightarrow> off + length bs \<le> length D \<Longrightarrow> drop p (blit D off bs) = drop p D"
  by (simp add: blit_def)

lemma joined_length: "2 \<le> length a \<Longrightarrow> 2 \<le> length b \<Longrightarrow> length (joined cmd a b) = length a + length b - 2"
  by (cases cmd) simp_all

lemma blit_joined:
  assumes "2 \<le> length a" "2 \<le> length b" and "p + (length a + length b) \<le> length D"
  shows "take (length a + length b - 2) (drop p (blit (blit D p a) (p + length a - 2) b)) =
      take (length a - 2) a @ b"
  using assms by (simp add: blit_def)

lemma value_length: "item_wf c \<Longrightarrow> length (value_of c) = nat (it_nbytes c)"
  by (auto simp: value_of_def item_wf_def real_data_off_def min_def)

lemma key_length: "item_wf c \<Longrightarrow> length (key_of c) = unat (it_nkey c)"
  by (simp add: key_of_def item_wf_def)

definition joined_item :: "nread \<Rightarrow> base_item \<Rightarrow> base_item \<Rightarrow> base_item \<Rightarrow> base_item" where
  "joined_item cmd c o' n = n\<lparr>it_nkey := it_nkey o', it_flag := 0, it_exptime := it_exptime o',
     it_nbytes := it_nbytes c + it_nbytes o' - 2,
     it_data := (let p = unat (it_nkey o') + 1;
         D = blit (blit (it_data n) 0 (key_of o')) (unat (it_nkey o')) [CHR ''0''] in
       if cmd = NREAD_APPEND
       then blit (blit D p (value_of o')) (p + length (value_of o') - 2) (value_of c)
       else blit (blit D p (value_of c)) (p + length (value_of c) - 2) (value_of o'))\<rparr>"

lemma joined_item_props:
  assumes wf: "item_wf c" "item_wf o'"
    and fit: "unat (it_nkey o') + 1 + nat (it_nbytes c + it_nbytes o') \<le> length (it_data n)"
    and cmd: "cmd = NREAD_APPEND \<or> cmd = NREAD_PREPEND"
  shows "item_wf (joined_item cmd c o' n)" "key_of (joined_item cmd c o' n) = key_of o'"
    "value_of (joined_item cmd c o' n) = joined cmd (value_of o') (value_of c)"
    "it_exptime (joined_item cmd c o' n) = it_exptime o'" "linkable (joined_item cmd c o' n)"
    "length (it_data (joined_item cmd c o' n)) = length (it_data n)"
proof -
  let ?n = "joined_item cmd c o' n" and ?p = "unat (it_nkey o') + 1"
  let ?D = "blit (blit (it_data n) 0 (key_of o')) (unat (it_nkey o')) [CHR ''0'']"
  note kl = key_length [OF wf(2)] and vl = value_length [OF wf(1)] value_length [OF wf(2)]
  have nb: "2 \<le> length (value_of c)" "2 \<le> length (value_of o')" using wf vl by (simp_all add: item_wf_def le_nat_iff)
  have sum: "nat (it_nbytes c + it_nbytes o') = length (value_of c) + length (value_of o')"
    using wf vl by (simp add: item_wf_def nat_add_distrib)
  have D: "length ?D = length (it_data n)" using fit kl by simp
  have Dk: "take (unat (it_nkey o')) ?D = key_of o'"
    using fit kl blit_read [of 0 "it_data n" "key_of o'"] by (simp add: blit_prefix)
  let ?v = "\<lambda>a b. blit (blit ?D ?p a) (?p + length a - 2) b"
  have L: "length (?v a b) = length (it_data n)" "take (unat (it_nkey o')) (?v a b) = key_of o'"
      "take (length a + length b - 2) (drop ?p (?v a b)) = take (length a - 2) a @ b"
    if "2 \<le> length a" "2 \<le> length b" "length a + length b = length (value_of c) + length (value_of o')" for a b
  proof -
    have f: "?p + (length a + length b) \<le> length ?D" using that fit sum D by simp
    show "length (?v a b) = length (it_data n)" using f that D by simp
    have "take (unat (it_nkey o')) (?v a b) = take (unat (it_nkey o')) ?D"
      using f that by (simp add: blit_prefix)
    then show "take (unat (it_nkey o')) (?v a b) = key_of o'" using Dk by simp
    show "take (length a + length b - 2) (drop ?p (?v a b)) = take (length a - 2) a @ b"
      by (rule blit_joined [OF that(1,2) f])
  qed
  note La = L [of "value_of o'" "value_of c"] and Lp = L [of "value_of c" "value_of o'"]
  have n2: "nat (it_nbytes c + it_nbytes o' - 2) = length (value_of c) + length (value_of o') - 2"
    using sum nb by linarith
  show "length (it_data ?n) = length (it_data n)"
    using La(1) Lp(1) nb by (simp add: joined_item_def Let_def)
  then show "item_wf ?n"
    using fit n2 sum wf by (simp add: item_wf_def joined_item_def)
  show "key_of ?n = key_of o'"
    using La(2) Lp(2) nb by (simp add: joined_item_def Let_def key_of_def [of "_\<lparr>it_data := _\<rparr>"])
  show "value_of ?n = joined cmd (value_of o') (value_of c)"
    using La(3) Lp(3) nb cmd n2
    by (auto simp: joined_item_def Let_def value_of_def [of "_\<lparr>it_data := _\<rparr>"] real_data_off_def add.commute)
  show "it_exptime ?n = it_exptime o'" "linkable ?n" by (simp_all add: joined_item_def linkable_def)
qed

text \<open>A state in which one item has been given another content.\<close>

definition with_item :: "addr \<Rightarrow> base_item \<Rightarrow> machine \<Rightarrow> machine" where
  "with_item a c s = s\<lparr>heap := (heap s)(a \<mapsto> c)\<rparr>"

lemma with_item_simps [simp]:
  "heap (with_item a c s) b = (if b = a then Some c else heap s b)"
  "with_item a d (with_item a c s) = with_item a d s"
  by (simp_all add: with_item_def)

lemma upd_run: "a \<noteq> 0 \<Longrightarrow> heap s a = Some c \<Longrightarrow> upd a f s = Some (Inr ((), with_item a (f c) s))"
  by (simp add: upd_def rd_def prog_defs with_item_def)

lemma wr_data_run:
  "a \<noteq> 0 \<Longrightarrow> heap s a = Some c \<Longrightarrow> off + length bs \<le> length (it_data c) \<Longrightarrow>
   wr_data a off bs s = Some (Inr ((), with_item a (c\<lparr>it_data := blit (it_data c) off bs\<rparr>) s))"
  by (simp add: wr_data_def upd_def rd_def prog_defs with_item_def)

lemma copy_value_run:
  assumes src: "heap s src = Some c" "src \<noteq> 0" "item_wf c" "it_nbytes c < 2 ^ 31"
    and dst: "heap s dst = Some d" "dst \<noteq> 0" "off + length (value_of c) \<le> length (it_data d)"
  shows "copy_value dst off src s =
    Some (Inr ((), with_item dst (d\<lparr>it_data := blit (it_data d) off (value_of c)\<rparr>) s))"
proof -
  have n: "size_t (it_nbytes c) = nat (it_nbytes c)"
      "real_data_off c + nat (it_nbytes c) \<le> length (it_data c)"
    using src(3,4) by (simp_all add: item_wf_def real_data_off_def)
  have "take (nat (it_nbytes c)) (drop (real_data_off c) (it_data c)) = value_of c"
    by (simp add: value_of_def)
  then have "rd_data src (real_data_off c) (size_t (it_nbytes c)) s = Some (Inr (value_of c, s))"
    using n src(1,2) by (simp add: rd_data_def rd_def prog_defs)
  then show ?thesis
    using wr_data_run [OF dst(2,1,3)] src(1,2) by (simp add: copy_value_def rd_def prog_defs)
qed

lemma fill_joined_run:
  assumes old: "heap s old = Some o'" "item_wf o'" and it: "heap s it = Some c" "item_wf c"
    and new: "heap s nw = Some n" and ne: "nw \<noteq> old" "nw \<noteq> it" "nw \<noteq> 0" "old \<noteq> 0" "it \<noteq> 0"
    and fit: "unat (it_nkey o') + 1 + nat (it_nbytes c + it_nbytes o') \<le> length (it_data n)"
    and cmd: "cmd = NREAD_APPEND \<or> cmd = NREAD_PREPEND"
    and small: "it_nbytes c + it_nbytes o' < 2 ^ 31"
  shows "fill_joined cmd it old nw (it_nbytes c + it_nbytes o' - 2) s =
    Some (Inr ((), with_item nw (joined_item cmd c o' n) s))"
proof -
  have b: "2 \<le> it_nbytes c" "2 \<le> it_nbytes o'" using old(2) it(2) by (simp_all add: item_wf_def)
  have bs: "it_nbytes c < 2 ^ 31" "it_nbytes o' < 2 ^ 31" using b small by linarith+
  have vl: "length (value_of c) = nat (it_nbytes c)" "length (value_of o') = nat (it_nbytes o')"
      "length (key_of o') = unat (it_nkey o')"
    by (simp_all add: value_length old(2) it(2) key_length)
  let ?p = "real_data_off o'" and ?k = "unat (it_nkey o')"
  have nn: "nat (int ?p + it_nbytes o' - 2) = ?p + length (value_of o') - 2"
      "nat (int ?p + it_nbytes c - 2) = ?p + length (value_of c) - 2"
    using b by (simp_all add: vl nat_diff_distrib nat_add_distrib)
  have le: "?p + (length (value_of o') + length (value_of c)) \<le> length (it_data n)"
    using fit b by (simp add: real_data_off_def vl nat_add_distrib)
  have nb: "2 \<le> length (value_of c)" "2 \<le> length (value_of o')" using b vl by (simp_all add: le_nat_iff)
  let ?n1 = "n\<lparr>it_nkey := it_nkey o', it_flag := 0, it_exptime := it_exptime o',
     it_nbytes := it_nbytes c + it_nbytes o' - 2\<rparr>"
  let ?D = "blit (blit (it_data n) 0 (key_of o')) ?k [CHR ''0'']"
  have k1: "?k + 1 = ?p" by (simp add: real_data_off_def)
  have D: "length ?D = length (it_data n)" using le k1 vl by simp
  let ?n2 = "?n1\<lparr>it_data := ?D\<rparr>"
  have meta: "seqs (upd nw (\<lambda>n. n\<lparr>it_nkey := it_nkey o'\<rparr>) # upd nw (\<lambda>n. n\<lparr>it_flag := 0\<rparr>) #
     upd nw (\<lambda>n. n\<lparr>it_exptime := it_exptime o'\<rparr>) #
     upd nw (\<lambda>n. n\<lparr>it_nbytes := it_nbytes c + it_nbytes o' - 2\<rparr>) # ms) s = seqs ms (with_item nw ?n1 s)" for ms
    using ne(3) new by (simp add: seqs_run [OF upd_run])
  have kr: "rd_data old 0 ?k t = Some (Inr (key_of o', t))" if "heap t old = Some o'" for t
    using that ne(4) old(2) by (simp add: rd_data_def rd_def prog_defs item_wf_def key_of_def)
  have key: "seqs (bnd (rd_data old 0 ?k) (\<lambda>key. wr_data nw 0 key) # wr_data nw ?k [CHR ''0''] # ms)
      (with_item nw ?n1 s) = seqs ms (with_item nw ?n2 s)" for ms
  proof -
    have 1: "bnd (rd_data old 0 ?k) (\<lambda>key. wr_data nw 0 key) (with_item nw ?n1 s) =
        Some (Inr ((), with_item nw (?n1\<lparr>it_data := blit (it_data n) 0 (key_of o')\<rparr>) s))"
      using kr [of "with_item nw ?n1 s"] ne(1,3) old(1) le k1 vl(3)
        wr_data_run [of nw "with_item nw ?n1 s" ?n1 0 "key_of o'"]
      by (simp add: bnd_def)
    have 2: "wr_data nw ?k [CHR ''0''] (with_item nw (?n1\<lparr>it_data := blit (it_data n) 0 (key_of o')\<rparr>) s) =
        Some (Inr ((), with_item nw ?n2 s))"
      using wr_data_run [of nw "with_item nw (?n1\<lparr>it_data := blit (it_data n) 0 (key_of o')\<rparr>) s"
          "?n1\<lparr>it_data := blit (it_data n) 0 (key_of o')\<rparr>" ?k "[CHR ''0'']"] ne(3) le k1 vl(3)
      by simp
    show ?thesis by (subst seqs_run, rule 1, subst seqs_run, rule 2, rule refl)
  qed
  have join: "seqs [copy_value nw ?p x, copy_value nw (?p + length (value_of a) - 2) y] (with_item nw ?n2 s) =
     Some (Inr ((), with_item nw (?n2\<lparr>it_data :=
       blit (blit ?D ?p (value_of a)) (?p + length (value_of a) - 2) (value_of b')\<rparr>) s))"
    if a: "heap s x = Some a" "x \<noteq> 0" "x \<noteq> nw" "item_wf a" "it_nbytes a < 2 ^ 31" "2 \<le> length (value_of a)"
      and bb: "heap s y = Some b'" "y \<noteq> 0" "y \<noteq> nw" "item_wf b'" "it_nbytes b' < 2 ^ 31"
      and f: "?p + (length (value_of a) + length (value_of b')) \<le> length (it_data n)" for x y a b'
  proof -
    have 1: "copy_value nw ?p x (with_item nw ?n2 s) =
        Some (Inr ((), with_item nw (?n2\<lparr>it_data := blit ?D ?p (value_of a)\<rparr>) s))"
      using copy_value_run [of "with_item nw ?n2 s" x a nw ?n2 ?p] a ne(3) f D by simp
    let ?t = "with_item nw (?n2\<lparr>it_data := blit ?D ?p (value_of a)\<rparr>) s"
    have "length (blit ?D ?p (value_of a)) = length (it_data n)" using f D by simp
    then have 2: "copy_value nw (?p + length (value_of a) - 2) y ?t = Some (Inr ((), with_item nw (?n2\<lparr>it_data :=
       blit (blit ?D ?p (value_of a)) (?p + length (value_of a) - 2) (value_of b')\<rparr>) s))"
      using copy_value_run [of ?t y b' nw "?n2\<lparr>it_data := blit ?D ?p (value_of a)\<rparr>"
          "?p + length (value_of a) - 2"] bb ne(3) f a(6) by simp
    show ?thesis by (subst seqs_run, rule 1, subst seqs_run, rule 2, rule seqs_done)
  qed
  have rds: "rd old s = Some (Inr (o', s))" "rd it s = Some (Inr (c, s))"
    using old(1) it(1) ne by (simp_all add: rd_def)
  have ji: "joined_item cmd c o' n = ?n2\<lparr>it_data := (if cmd = NREAD_APPEND
       then blit (blit ?D ?p (value_of o')) (?p + length (value_of o') - 2) (value_of c)
       else blit (blit ?D ?p (value_of c)) (?p + length (value_of c) - 2) (value_of o'))\<rparr>"
    by (simp add: joined_item_def Let_def real_data_off_def)
  show ?thesis
    using cmd
  proof
    assume A: "cmd = NREAD_APPEND"
    have "fill_joined cmd it old nw (it_nbytes c + it_nbytes o' - 2) s =
        seqs [copy_value nw ?p old, copy_value nw (?p + length (value_of o') - 2) it] (with_item nw ?n2 s)"
      unfolding fill_joined_def
      by (subst bnd_run, rule rds(1), subst bnd_run, rule rds(2)) (simp only: meta key nn seqs_single A if_True simp_thms)
    also have "\<dots> = Some (Inr ((), with_item nw (joined_item cmd c o' n) s))"
      unfolding ji by (subst join [of old o' it c]) (use A old it ne nb bs le in \<open>simp_all add: add.commute\<close>)
    finally show ?thesis .
  next
    assume A: "cmd = NREAD_PREPEND"
    have "fill_joined cmd it old nw (it_nbytes c + it_nbytes o' - 2) s =
        seqs [copy_value nw ?p it, copy_value nw (?p + length (value_of c) - 2) old] (with_item nw ?n2 s)"
      unfolding fill_joined_def
      by (subst bnd_run, rule rds(1), subst bnd_run, rule rds(2)) (simp only: meta key nn seqs_single A nread.distinct if_False simp_thms)
    also have "\<dots> = Some (Inr ((), with_item nw (joined_item cmd c o' n) s))"
      unfolding ji by (subst join [of it c old o']) (use A old it ne nb bs le in \<open>simp_all add: add.commute\<close>)
    finally show ?thesis .
  qed
qed

section \<open>The storage commands refine the abstract ones\<close>

lemma core_same:
  assumes "core c' = core c"
  shows "key_of c' = key_of c" "item_wf c' = item_wf c" "linkable c' = linkable c"
    "put_binding c' v = put_binding c v" "value_of c' = value_of c" "it_cas c' = it_cas c"
    "it_nbytes c' = it_nbytes c" "it_nkey c' = it_nkey c" "it_exptime c' = it_exptime c"
  using core_eq [OF assms] core_key [OF assms]
  by (simp_all add: item_wf_def linkable_def put_binding_def value_of_def real_data_off_def)

definition outcome where
  "outcome bl s k x fl' bl' K' s' \<longleftrightarrow> mc_inv fl' bl' K' s' \<and> world s s' \<and> put_at bl s k x bl' s'"

lemma outcome_after:
  assumes "put_at bl s k x bl1 s1" and "world s s1" and "outcome bl1 s1 k y fl' bl' K' s'"
  shows "outcome bl s k y fl' bl' K' s'"
  using assms put_at_trans world_trans unfolding outcome_def by blast

lemma outcome_refreshed:
  assumes "put_at bl s k x bl1 s1" and "world s s1" and "refreshed fl' bl1 K s1 K' s'"
  shows "outcome bl s k x fl' bl1 K' s'"
  using assms world_trans world_quiet put_at_same unfolding outcome_def refreshed_def by blast

lemma pending_nonzero: "mc_inv fl bl K s \<Longrightarrow> pending fl bl s it c \<Longrightarrow> it \<noteq> 0"
  using base_inv_in_heap [OF mc_inv_base] by (auto simp: pending_def)

lemma item_key_run:
  "heap s it = Some c \<Longrightarrow> it \<noteq> 0 \<Longrightarrow> item_wf c \<Longrightarrow> item_key it s = Some (Inr (key_of c, s))"
  by (simp add: item_key_def rd_data_def rd_def prog_defs item_wf_def key_of_def)

lemma store_put_ok:
  assumes inv: "mc_inv fl bl K s" and it: "pending fl bl s it c" and free: "\<not> cache_lock s"
    and old: "entry bl s (key_of c) = (if old = 0 then None else Some old)"
    and new: "new_it = 0 \<or> new_it = it"
  shows "\<exists>v bl' K' s'. store_put it old new_it (hash (key_of c)) s = Some (Inr ((STORED, Some v), s')) \<and>
     outcome bl s (key_of c) (put_binding c (last_cas_id s + 1)) fl bl' K' s' \<and>
     (linkable c \<longrightarrow> v = last_cas_id s + 1) \<and>
     last_cas_id s' = counted (linkable c) (last_cas_id s)"
proof -
  have p: "heap s it = Some c" "it \<notin> frees fl (slab s)" "it \<notin> in_table bl s" "item_wf c"
    using it by (simp_all add: pending_def)
  let ?c = "c\<lparr>it_cas := it_cas c + 1\<rparr>"
  let ?s = "s\<lparr>heap := (heap s)(it \<mapsto> ?c)\<rparr>"
  note w = pending_write [OF inv p(1-3), of ?c, simplified]
  have kc: "key_of ?c = key_of c" "put_binding ?c v = put_binding c v" "linkable ?c = linkable c" for v
    by (simp_all add: key_of_def put_binding_def linkable_def value_of_def real_data_off_def)
  have p': "pending fl bl ?s it ?c"
    using p by (simp add: pending_def item_wf_def in_table_def)
  have l: "\<not> cache_lock ?s" "entry bl ?s (key_of ?c) = (if old = 0 then None else Some old)"
    using free old by (simp_all add: w kc)
  obtain bl' K' s' where r: "thn (put_op old it (hash (key_of ?c))) (store_end STORED it old new_it) ?s =
        Some (Inr ((STORED, Some (if linkable ?c then last_cas_id ?s + 1 else it_cas ?c)), s'))"
     "mc_inv fl bl' K' s'" "quiet ?s s'" "put_at bl ?s (key_of ?c) (put_binding ?c (last_cas_id ?s + 1)) bl' s'"
     "last_cas_id s' = counted (linkable ?c) (last_cas_id ?s)"
    using put_then_end [OF w(1) p' l new] by blast
  have "upd it (\<lambda>c. c\<lparr>it_cas := it_cas c + 1\<rparr>) s = Some (Inr ((), ?s))"
    using upd_run [of it s c] pending_nonzero [OF inv it] p(1) by (simp add: with_item_def)
  then have "store_put it old new_it (hash (key_of c)) s =
      Some (Inr ((STORED, Some (if linkable c then last_cas_id s + 1 else it_cas c + 1)), s'))"
    using r(1) unfolding kc by (simp add: store_put_def thn_def [of "upd _ _"] bnd_run put_op_def)
  moreover have "outcome bl s (key_of c) (put_binding c (last_cas_id s + 1)) fl bl' K' s'"
    using r(2-4) world_quiet [OF r(3)] unfolding kc outcome_def put_at_def w(3)
    by (simp add: world_def)
  moreover have "last_cas_id s' = counted (linkable c) (last_cas_id s)"
    using r(5) unfolding kc by simp
  ultimately show ?thesis by auto
qed

text \<open>The state in which the branches of \<open>do_store_item\<close> start: the new item, and what was found.\<close>

definition ready where
  "ready fl bl s k it c old o' \<longleftrightarrow> pending fl bl s it c \<and> key_of c = k \<and> \<not> cache_lock s \<and>
     \<not> slabs_lock (slab s) \<and>
     (case o' of None \<Rightarrow> old = 0 \<and> entry bl s k = None
      | Some d \<Rightarrow> entry bl s k = Some old \<and> old \<noteq> 0 \<and> heap s old = Some d \<and> linked_cell d \<and> key_of d = k)"

lemma start_ready:
  assumes inv: "mc_inv fl bl K s" and it: "pending fl bl s it c" and free: "\<not> cache_lock s" "\<not> slabs_lock (slab s)"
  shows "\<exists>old bl1 s1 c1 o'. do_item_get (key_of c) (hash (key_of c)) s = Some (Inr (old, s1)) \<and>
     mc_inv fl bl1 K s1 \<and> quiet s s1 \<and> last_cas_id s1 = last_cas_id s \<and>
     put_at bl s (key_of c) (live bl s (key_of c)) bl1 s1 \<and>
     ready fl bl1 s1 (key_of c) it c1 old o' \<and> core c1 = core c \<and>
     live bl s (key_of c) = map_option content o'"
proof -
  have p: "heap s it = Some c" "it \<notin> frees fl (slab s)" "it \<notin> in_table bl s" "item_wf c"
    using it by (simp_all add: pending_def)
  let ?k = "key_of c"
  obtain old bl1 s1 where g: "do_item_get ?k (hash ?k) s = Some (Inr (old, s1))" "found fl bl K s ?k old bl1 s1"
    using do_item_get_found [OF inv free(1)] by blast
  obtain c1 where c1: "heap s1 it = Some c1" "core c1 = core c"
    using g(2) p(1,3) unfolding found_def by blast
  have q: "quiet s s1" using g(2) by (simp add: found_def)
  have "it \<notin> frees fl (slab s1)" "it \<notin> in_table bl1 s1" "\<not> cache_lock s1" "\<not> slabs_lock (slab s1)"
    using g(2) p free q by (auto simp: found_def quiet_def)
  then have pd: "pending fl bl1 s1 it c1" "\<not> cache_lock s1" "\<not> slabs_lock (slab s1)" "key_of c1 = ?k"
    using c1 core_same [OF c1(2)] p(4) by (simp_all add: pending_def)
  show ?thesis
  proof (cases "live bl s ?k")
    case None
    then have "ready fl bl1 s1 ?k it c1 old None" using g(2) pd by (simp add: ready_def found_def)
    then show ?thesis using g c1(2) None unfolding found_def by fastforce
  next
    case (Some x)
    then obtain d where d: "entry bl1 s1 ?k = Some old" "old \<noteq> 0" "heap s1 old = Some d" "linked_cell d"
        "key_of d = ?k" "content d = x"
      using g(2) by (auto simp: found_def)
    then have "ready fl bl1 s1 ?k it c1 old (Some d)" using pd by (simp add: ready_def)
    then show ?thesis using g c1(2) Some d(6) unfolding found_def by fastforce
  qed
qed

lemma do_store_item_start:
  assumes inv: "mc_inv fl bl K s" and it: "pending fl bl s it c"
    and get: "do_item_get (key_of c) hv s = Some (Inr (old, s1))"
  shows "do_store_item cmd it hv s = store_branch cmd it old hv s1"
proof -
  have "item_key it s = Some (Inr (key_of c, s))"
    using item_key_run pending_nonzero [OF inv it] it by (simp add: pending_def)
  then show ?thesis using get by (simp add: do_store_item_def bnd_run)
qed

text \<open>The four ways a branch ends.\<close>

lemma branch_end:
  assumes inv: "mc_inv fl bl K s" and r: "ready fl bl s k it c old o'" and st: "st \<noteq> STORED"
  shows "\<exists>bl' K' s'. store_end st it old 0 s = Some (Inr ((st, None), s')) \<and>
     refreshed fl bl K s K s'"
proof -
  have "releasable fl s old"
    using r mc_inv_cell(2) [OF inv, of k old] by (auto simp: ready_def releasable_def split: option.splits)
  moreover obtain d where "heap s it = Some d" using r by (auto simp: ready_def pending_def)
  ultimately show ?thesis
    using store_end_ok [OF inv, of old 0 it d st] st by (auto simp: releasable_def)
qed

lemma branch_update:
  assumes inv: "mc_inv fl bl K s" and r: "ready fl bl s k it c old (Some d)"
  shows "\<exists>K' s'. thn (do_item_update old) (store_end NOT_STORED it old 0) s =
      Some (Inr ((NOT_STORED, None), s')) \<and> refreshed fl bl K s K' s'"
proof -
  have e: "entry bl s k = Some old" "heap s old = Some d" "linked_cell d" "\<not> cache_lock s"
    using r by (simp_all add: ready_def)
  note m = mc_inv_cell [OF inv e(1)]
  obtain K1 s1 where u: "do_item_update old s = Some (Inr ((), s1))" "refreshed fl bl K s K1 s1"
    using do_item_update_spec [OF inv e(2) m(2) _ _ e(4)] e(3) by (auto simp: linked_cell_def)
  have inv1: "mc_inv fl bl K1 s1" using u(2) by (simp add: refreshed_def)
  have "releasable fl s1 old"
    using refreshed_cell [OF u(2) e(2)] m(2) refreshed_frees [OF u(2)] by (auto simp: releasable_def)
  moreover obtain c1 where "heap s1 it = Some c1"
    using refreshed_cell [OF u(2)] r by (auto simp: ready_def pending_def)
  ultimately obtain s2 where s2: "store_end NOT_STORED it old 0 s1 = Some (Inr ((NOT_STORED, None), s2))"
      "refreshed fl bl K1 s1 K1 s2"
    using store_end_ok [OF inv1, of old 0 it c1 NOT_STORED] by (auto simp: releasable_def)
  then show ?thesis
    using u(1) refreshed_trans [OF u(2) s2(2)] by (auto simp: thn_def bnd_run)
qed

lemma branch_put:
  assumes inv: "mc_inv fl bl K s" and r: "ready fl bl s k it c old o'"
  shows "\<exists>v bl' K' s'. store_put it old 0 (hash k) s = Some (Inr ((STORED, Some v), s')) \<and>
     outcome bl s k (put_binding c (last_cas_id s + 1)) fl bl' K' s' \<and>
     last_cas_id s' = counted (linkable c) (last_cas_id s)"
proof -
  have "entry bl s (key_of c) = (if old = 0 then None else Some old)" "pending fl bl s it c"
      "\<not> cache_lock s" "key_of c = k"
    using r by (auto simp: ready_def split: option.splits)
  then show ?thesis using store_put_ok [OF inv, of it c old 0] by auto
qed

lemma branch_cas:
  assumes inv: "mc_inv fl bl K s" and r: "ready fl bl s k it c old (Some d)"
  shows "\<exists>v bl' K' s'. thn (item_replace old it (hash k)) (store_end STORED it old 0) s =
       Some (Inr ((STORED, Some v), s')) \<and>
     outcome bl s k (put_binding c (last_cas_id s + 1)) fl bl' K' s' \<and>
     last_cas_id s' = counted (linkable c) (last_cas_id s)"
proof -
  have e: "entry bl s (key_of c) = (if old = 0 then None else Some old)" "pending fl bl s it c"
      "\<not> cache_lock s" "key_of c = k" "old \<noteq> 0"
    using r by (auto simp: ready_def)
  show ?thesis
    using put_then_end [OF inv e(2,3,1), of 0] e(4,5) world_quiet
    by (fastforce simp: put_op_def outcome_def)
qed

lemma store_spec_core: "core c' = core c \<Longrightarrow> store_spec cmd l c' ok v = store_spec cmd l c ok v"
  unfolding store_spec_def using core_same [of c' c] by (simp split: nread.splits option.splits prod.splits)

lemma branch_plain:
  assumes inv: "mc_inv fl bl K s" and r: "ready fl bl s k it c old o'"
    and cmd: "cmd = NREAD_APPEND \<or> cmd = NREAD_PREPEND \<Longrightarrow> o' = None"
    and cas0: "cmd = NREAD_CAS \<Longrightarrow> o' \<noteq> None" and st: "stored bl s k = map_option content o'"
    and S_eq: "S = store_spec cmd (map_option content o') c ok (last_cas_id s + 1)"
  shows "\<exists>v bl' K' s'. store_branch cmd it old (hash k) s = Some (Inr ((fst S, v), s')) \<and>
     outcome bl s k (snd S) fl bl' K' s' \<and> (v \<noteq> None \<longleftrightarrow> fst S = STORED) \<and>
     last_cas_id s' = counted (fst S = STORED \<and> linkable c) (last_cas_id s)"
proof -
  note pend = branch_end [OF inv r]
  have same: "outcome bl s k (map_option content o') fl bl K' s' \<and> last_cas_id s' = last_cas_id s"
    if "refreshed fl bl K s K' s'" for K' s'
    using outcome_refreshed [OF put_at_refl [OF st] world_refl that] that by (simp add: refreshed_def)
  have old: "old = 0 \<longleftrightarrow> o' = None" using r by (auto simp: ready_def split: option.splits)
  have rds: "rd it s = Some (Inr (c, s))" "\<And>d. o' = Some d \<Longrightarrow> rd old s = Some (Inr (d, s))"
    using r pending_nonzero [OF inv, of it c] by (auto simp: rd_def ready_def pending_def)
  have put: "\<exists>v bl' K' s'. store_put it old 0 (hash k) s = Some (Inr ((STORED, Some v), s')) \<and>
     outcome bl s k (put_binding c (last_cas_id s + 1)) fl bl' K' s' \<and> last_cas_id s' = counted (linkable c) (last_cas_id s)"
    by (rule branch_put [OF inv r])
  have putting: ?thesis
    if "S = (STORED, put_binding c (last_cas_id s + 1))"
      and "store_branch cmd it old (hash k) s = store_put it old 0 (hash k) s"
    unfolding that using put by simp blast
  have keeping: ?thesis
    if S: "S = (st', map_option content o')" "st' \<noteq> STORED"
      and b: "store_branch cmd it old (hash k) s = store_end st' it old 0 s" for st'
    unfolding S(1) b using pend [OF S(2)] same S(2) by simp blast
  consider (add) d where "cmd = NREAD_ADD" "o' = Some d" | (new) "cmd = NREAD_ADD" "o' = None"
    | (miss) "cmd = NREAD_REPLACE \<or> cmd = NREAD_APPEND \<or> cmd = NREAD_PREPEND" "o' = None" | (repl) d where "cmd = NREAD_REPLACE" "o' = Some d"
    | (cas) d where "cmd = NREAD_CAS" "o' = Some d" | (other) "cmd = NREAD_SET \<or> cmd = NREAD_ERROR"
    using cmd cas0 by (cases cmd; cases o') auto
  then show ?thesis
  proof cases
    case add
    obtain K' s' where u: "thn (do_item_update old) (store_end NOT_STORED it old 0) s =
        Some (Inr ((NOT_STORED, None), s'))" "refreshed fl bl K s K' s'"
      using branch_update [OF inv] r add by blast
    have "S = (NOT_STORED, map_option content o')" using add by (simp add: S_eq store_spec_def)
    moreover have "store_branch cmd it old (hash k) s = Some (Inr ((NOT_STORED, None), s'))"
      using add old u(1) by (simp add: store_branch_def)
    ultimately show ?thesis using same [OF u(2)] by auto
  next
    case new
    show ?thesis by (rule putting) (use new old in \<open>simp_all add: S_eq store_spec_def store_branch_def\<close>)
  next
    case miss
    show ?thesis
      by (rule keeping [of NOT_STORED]) (use miss old in \<open>auto simp: S_eq store_spec_def store_branch_def\<close>)
  next
    case repl
    show ?thesis by (rule putting) (use repl old in \<open>simp_all add: S_eq store_spec_def store_branch_def\<close>)
  next
    case cas
    have b: "store_branch cmd it old (hash k) s = (if it_cas c = it_cas d
       then thn (item_replace old it (hash k)) (store_end STORED it old 0) s
       else store_end EXISTS it old 0 s)"
      using cas old by (simp add: store_branch_def bnd_run [of "rd it" s c s, OF rds(1)] bnd_run [of "rd old" s d s, OF rds(2)])
    show ?thesis
    proof (cases "it_cas c = it_cas d")
      case True
      have "S = (STORED, put_binding c (last_cas_id s + 1))"
        using cas True by (simp add: S_eq store_spec_def content_def)
      then show ?thesis using branch_cas [OF inv, of k it c old d] r cas True b by simp blast
    next
      case False
      show ?thesis
        by (rule keeping [of EXISTS]) (use cas False b in \<open>simp_all add: S_eq store_spec_def content_def\<close>)
    qed
  next
    case other
    show ?thesis by (rule putting) (use other in \<open>auto simp: S_eq store_spec_def store_branch_def\<close>)
  qed
qed

lemma do_store_item_plain:
  assumes inv: "mc_inv fl bl K s" and it: "pending fl bl s it c"
    and free: "\<not> cache_lock s" "\<not> slabs_lock (slab s)"
    and cmd: "cmd = NREAD_APPEND \<or> cmd = NREAD_PREPEND \<Longrightarrow> live bl s (key_of c) = None"
    and cas: "cmd = NREAD_CAS \<Longrightarrow> live bl s (key_of c) \<noteq> None"
    and S_eq: "S = store_spec cmd (live bl s (key_of c)) c ok (last_cas_id s + 1)"
  shows "\<exists>v bl' K' s'. do_store_item cmd it (hash (key_of c)) s = Some (Inr ((fst S, v), s')) \<and>
     outcome bl s (key_of c) (snd S) fl bl' K' s' \<and> (v \<noteq> None \<longleftrightarrow> fst S = STORED) \<and>
     last_cas_id s' = counted (fst S = STORED \<and> linkable c) (last_cas_id s)"
proof -
  obtain old bl1 s1 c1 o' where g: "do_item_get (key_of c) (hash (key_of c)) s = Some (Inr (old, s1))"
     "mc_inv fl bl1 K s1" "quiet s s1" "last_cas_id s1 = last_cas_id s"
     "put_at bl s (key_of c) (live bl s (key_of c)) bl1 s1" "ready fl bl1 s1 (key_of c) it c1 old o'"
     "core c1 = core c" "live bl s (key_of c) = map_option content o'"
    using start_ready [OF inv it free] by blast
  have st: "stored bl1 s1 (key_of c) = map_option content o'" using g(5,8) by (simp add: put_at_def)
  have cmd': "o' = None" if "cmd = NREAD_APPEND \<or> cmd = NREAD_PREPEND" using cmd [OF that] g(8) by auto
  have "o' \<noteq> None" if "cmd = NREAD_CAS" using cas [OF that] g(8) by auto
  then obtain v bl' K' s' where b: "store_branch cmd it old (hash (key_of c)) s1 = Some (Inr ((fst S, v), s'))"
     "outcome bl1 s1 (key_of c) (snd S) fl bl' K' s'" "v \<noteq> None \<longleftrightarrow> fst S = STORED"
     "last_cas_id s' = counted (fst S = STORED \<and> linkable c) (last_cas_id s)"
    using branch_plain [OF g(2,6) cmd' _ st refl, where ok = ok]
    unfolding S_eq g(4,8) store_spec_core [OF g(7)] core_same(3) [OF g(7)] by blast
  then show ?thesis
    using do_store_item_start [OF inv it g(1), of cmd] outcome_after [OF g(5) world_quiet [OF g(3)] b(2)] b(1,3,4) by auto
qed

section \<open>Append and prepend\<close>

lemma alloc_size_eq:
  "0 \<le> nb \<Longrightarrow> nb < 2 ^ 30 \<Longrightarrow> nkey < 256 \<Longrightarrow> alloc_size nkey nb = 57 + nkey + nat nb"
  by (simp add: alloc_size_def c_int_small layout nat_add_distrib)

text \<open>Whether there is a chunk for the joined value.\<close>

definition join_room where
  "join_room fl s k old new = room fl s (alloc_size (length k) (int (length old) + int (length new) - 2))"

lemma branch_join:
  assumes inv: "mc_inv fl bl K s" and r: "ready fl bl s k it c old (Some d)"
    and cmd: "cmd = NREAD_APPEND \<or> cmd = NREAD_PREPEND"
    and st: "stored bl s k = Some (content d)"
    and small: "length (value_of d) + length (value_of c) < 2 ^ 30"
  shows "\<exists>ok v fl' bl' K' s'. store_branch cmd it old (hash k) s =
       Some (Inr ((fst (store_spec cmd (Some (content d)) c ok (last_cas_id s + 1)), v), s')) \<and>
     outcome bl s k (snd (store_spec cmd (Some (content d)) c ok (last_cas_id s + 1))) fl' bl' K' s' \<and>
     (v \<noteq> None \<longleftrightarrow> fst (store_spec cmd (Some (content d)) c ok (last_cas_id s + 1)) = STORED) \<and>
     (ok \<longrightarrow> join_room fl s k (value_of d) (value_of c)) \<and>
     ((\<forall>i. alloc_ok s i) \<and> join_room fl s k (value_of d) (value_of c) \<longrightarrow> ok)"
proof -
  have p: "pending fl bl s it c" "key_of c = k" "\<not> cache_lock s" "\<not> slabs_lock (slab s)"
      "entry bl s k = Some old" "old \<noteq> 0" "heap s old = Some d" "linked_cell d" "key_of d = k"
    using r by (simp_all add: ready_def)
  have pc: "heap s it = Some c" "item_wf c" "it \<notin> frees fl (slab s)" "it \<notin> in_table bl s"
    using p(1) by (simp_all add: pending_def)
  have wd: "item_wf d" using p(8) by (simp add: linked_cell_def)
  have it0: "it \<noteq> 0" by (rule pending_nonzero [OF inv p(1)])
  have rds: "rd it s = Some (Inr (c, s))" "rd old s = Some (Inr (d, s))"
    using pc p it0 by (auto simp: rd_def)
  note m = mc_inv_cell [OF inv p(5)]
  have b: "2 \<le> it_nbytes c" "2 \<le> it_nbytes d" using pc(2) wd by (simp_all add: item_wf_def)
  have vl: "it_nbytes c = int (length (value_of c))" "it_nbytes d = int (length (value_of d))"
    using value_length [OF pc(2)] value_length [OF wd] b by simp_all
  have kl: "unat (it_nkey c) = length k" "unat (it_nkey d) = length k"
    using key_length [OF pc(2)] key_length [OF wd] p(2,9) by simp_all
  let ?j = "it_nbytes c + it_nbytes d - 2" and ?S = "\<lambda>ok. store_spec cmd (Some (content d)) c ok (last_cas_id s + 1)"
  let ?room = "join_room fl s k (value_of d) (value_of c)"
  have room: "?room = room fl s (alloc_size (unat (it_nkey c)) ?j)"
    by (simp add: join_room_def kl vl add.commute)
  have ia: "int_add (it_nbytes c) (it_nbytes d) s = Some (Inr (it_nbytes c + it_nbytes d, s))"
      "int_add (it_nbytes c + it_nbytes d) (- 2) s = Some (Inr (?j, s))"
    using b small vl by (simp_all add: int_add_def ret_def)
  have br: "store_branch cmd it old (hash k) s = (if it_cas c \<noteq> it_cas d then store_end EXISTS it old 0 s
     else bnd (do_item_alloc (unat (it_nkey c)) ?j) (\<lambda>new_it.
         if new_it = 0
         then thn (whenP (old \<noteq> 0) (do_item_remove old)) (ret (NOT_STORED, None))
         else thn (fill_joined cmd it old new_it ?j) (store_put new_it old new_it (hash k))) s)"
    using cmd p(6)
    by (auto simp: store_branch_def bnd_run [of "rd it" s c s, OF rds(1)] bnd_run [of "rd old" s d s, OF rds(2)]
        bnd_run [of "int_add (it_nbytes c) (it_nbytes d)" s, OF ia(1)]
        bnd_run [of "int_add (it_nbytes c + it_nbytes d) (- 2)" s, OF ia(2)])
  show ?thesis
  proof (cases "it_cas c = it_cas d")
    case False
    have S: "?S ok = (EXISTS, Some (content d))" for ok
      using cmd False by (auto simp: store_spec_def content_def)
    obtain s' where e: "store_end EXISTS it old 0 s = Some (Inr ((EXISTS, None), s'))" "refreshed fl bl K s K s'"
    proof -
      have "releasable fl s old" using p(7) m(2) by (simp add: releasable_def)
      then show ?thesis
        using that store_end_ok [OF inv _ _ pc(1), of old 0 EXISTS] by (auto simp: releasable_def)
    qed
    show ?thesis
      unfolding S using False br e outcome_refreshed [OF put_at_refl [OF st] world_refl e(2)]
      by (intro exI [of _ ?room] exI [of _ None] exI [of _ fl] exI [of _ bl] exI [of _ K] exI [of _ s']) simp
  next
    case True
    obtain nw fl' s2 where a: "do_item_alloc (unat (it_nkey c)) ?j s = Some (Inr (nw, s2))"
       "allocated fl bl K s (unat (it_nkey c)) ?j nw fl' s2"
       "\<not> ?room \<longrightarrow> nw = 0" "(\<forall>i. alloc_ok s i) \<and> ?room \<longrightarrow> nw \<noteq> 0"
      using do_item_alloc_spec [OF inv p(3,4), of "unat (it_nkey c)" ?j] unfolding room by blast
    have inv2: "mc_inv fl' bl K s2" "slab_frame s s2" "entry bl s2 = entry bl s" "stored bl s2 = stored bl s"
        "in_table bl s2 = in_table bl s"
      using a(2) by (simp_all add: allocated_def)
    have keep: "heap s2 x = Some e \<and> x \<notin> frees fl' (slab s2) \<and> x \<noteq> nw"
      if "heap s x = Some e" "x \<notin> frees fl (slab s)" for x e
      using a(2) that by (simp add: allocated_def)
    note ko = keep [OF p(7) m(2)] and ki = keep [OF pc(1,3)]
    have w2: "world s s2" by (rule world_slab [OF inv2(2)])
    have pat2: "put_at bl s k (Some (content d)) bl s2" by (rule put_at_same [OF put_at_refl [OF st] inv2(4)])
    show ?thesis
    proof (cases "nw = 0")
      case True2: True
      have S: "?S False = (NOT_STORED, Some (content d))"
        using cmd True by (auto simp: store_spec_def content_def)
      have "releasable fl' s2 old" using ko by (simp add: releasable_def)
      then obtain s3 where s3: "whenP (old \<noteq> 0) (do_item_remove old) s2 = Some (Inr ((), s3))"
          "refreshed fl' bl K s2 K s3"
        using release_ok [OF inv2(1)] by blast
      have "store_branch cmd it old (hash k) s = Some (Inr ((NOT_STORED, None), s3))"
        using True True2 br by (simp add: bnd_run [of "do_item_alloc (unat (it_nkey c)) (it_nbytes c + it_nbytes d - 2)" s, OF a(1)]
            thn_run [of "whenP (old \<noteq> 0) (do_item_remove old)" s2, OF s3(1), simplified] ret_def)
      then show ?thesis
        using a(3,4) True2 S outcome_refreshed [OF pat2 w2 s3(2)]
        by (intro exI [of _ False] exI [of _ None] exI [of _ fl'] exI [of _ bl] exI [of _ K] exI [of _ s3]) auto
    next
      case False
      obtain n where n: "heap s2 nw = Some n" "nw \<notin> frees fl' (slab s2)" "nw \<notin> in_table bl s2"
          "alloc_size (unat (it_nkey c)) ?j \<le> length (it_data n) + offset_data"
        using a(2) False unfolding allocated_def by blast
      have "unat (it_nkey c) < 2 ^ LENGTH(8)" by (rule unsigned_less)
      then have n8: "length k < 256" using kl by simp
      have "alloc_size (unat (it_nkey c)) ?j = 57 + unat (it_nkey c) + nat ?j"
        by (rule alloc_size_eq) (use b small vl kl n8 in simp_all)
      then have fit: "unat (it_nkey d) + 1 + nat (it_nbytes c + it_nbytes d) \<le> length (it_data n)"
        using n(4) kl b by (simp add: offset_data_def nat_diff_distrib)
      let ?ji = "joined_item cmd c d n"
      note jp = joined_item_props [OF pc(2) wd fit cmd]
      have fj: "fill_joined cmd it old nw ?j s2 = Some (Inr ((), with_item nw ?ji s2))"
        by (rule fill_joined_run [OF _ wd _ pc(2) n(1)]) (use ko ki False p(6) it0 fit cmd small vl in auto)
      let ?s3 = "with_item nw ?ji s2"
      have w3: "mc_inv fl' bl K ?s3" "entry bl ?s3 = entry bl s2" "stored bl ?s3 = stored bl s2"
        using pending_write [OF inv2(1) n(1-3), of ?ji] jp(6) by (simp_all add: with_item_def joined_item_def)
      have wf3: "world s2 ?s3" "last_cas_id ?s3 = last_cas_id s2" "\<not> cache_lock ?s3"
          "frees fl' (slab ?s3) = frees fl' (slab s2)" "in_table bl ?s3 = in_table bl s2"
        using p(3) slab_frame_fields(3) [OF inv2(2)] by (simp_all add: world_def with_item_def in_table_def)
      have pj: "pending fl' bl ?s3 nw ?ji" using n jp(1) wf3 by (simp add: pending_def)
      have kj: "key_of ?ji = k" using jp(2) p(9) by simp
      have ej: "entry bl ?s3 (key_of ?ji) = (if old = 0 then None else Some old)"
        using p(5,6) kj w3(2) inv2(3) by simp
      obtain v bl' K' s' where sp: "store_put nw old nw (hash (key_of ?ji)) ?s3 = Some (Inr ((STORED, Some v), s'))"
         "outcome bl ?s3 (key_of ?ji) (put_binding ?ji (last_cas_id ?s3 + 1)) fl' bl' K' s'"
        using store_put_ok [OF w3(1) pj wf3(3) ej, of nw] by auto
      have id: "last_cas_id ?s3 = last_cas_id s" using wf3(2) slab_frame_fields(7) [OF inv2(2)] by simp
      have S: "?S True = (STORED, put_binding ?ji (last_cas_id s + 1))"
        using cmd True jp(3-5) by (auto simp: store_spec_def content_def put_binding_def)
      have "store_branch cmd it old (hash k) s = Some (Inr ((STORED, Some v), s'))"
        using True False br sp(1) unfolding kj by (simp add: bnd_run [of "do_item_alloc (unat (it_nkey c)) (it_nbytes c + it_nbytes d - 2)" s, OF a(1)] thn_run [of "fill_joined cmd it old nw (it_nbytes c + it_nbytes d - 2)" s2, OF fj])
      moreover have "outcome bl s k (put_binding ?ji (last_cas_id s + 1)) fl' bl' K' s'"
        using outcome_after [OF put_at_same [OF pat2, of ?s3] world_trans [OF w2 wf3(1)]] sp(2) w3(3)
        unfolding kj id by blast
      ultimately show ?thesis
        using a(3) False S
        by (intro exI [of _ True] exI [of _ "Some v"] exI [of _ fl'] exI [of _ bl'] exI [of _ K'] exI [of _ s']) auto
    qed
  qed
qed

lemma do_store_item_join:
  assumes inv: "mc_inv fl bl K s" and it: "pending fl bl s it c"
    and free: "\<not> cache_lock s" "\<not> slabs_lock (slab s)"
    and cmd: "cmd = NREAD_APPEND \<or> cmd = NREAD_PREPEND"
    and old: "live bl s (key_of c) = Some (w, e, u)"
    and small: "length w + length (value_of c) < 2 ^ 30"
  shows "\<exists>ok v fl' bl' K' s'. do_store_item cmd it (hash (key_of c)) s =
       Some (Inr ((fst (store_spec cmd (Some (w, e, u)) c ok (last_cas_id s + 1)), v), s')) \<and>
     outcome bl s (key_of c) (snd (store_spec cmd (Some (w, e, u)) c ok (last_cas_id s + 1))) fl' bl' K' s' \<and>
     (v \<noteq> None \<longleftrightarrow> fst (store_spec cmd (Some (w, e, u)) c ok (last_cas_id s + 1)) = STORED) \<and>
     (ok \<longrightarrow> join_room fl s (key_of c) w (value_of c)) \<and>
     ((\<forall>i. alloc_ok s i) \<and> join_room fl s (key_of c) w (value_of c) \<longrightarrow> ok)"
proof -
  obtain old bl1 s1 c1 o' where g: "do_item_get (key_of c) (hash (key_of c)) s = Some (Inr (old, s1))"
     "mc_inv fl bl1 K s1" "quiet s s1" "last_cas_id s1 = last_cas_id s"
     "put_at bl s (key_of c) (live bl s (key_of c)) bl1 s1" "ready fl bl1 s1 (key_of c) it c1 old o'"
     "core c1 = core c" "live bl s (key_of c) = map_option content o'"
    using start_ready [OF inv it free] by blast
  obtain d where d: "o' = Some d" "content d = (w, e, u)" using g(8) old by (cases o') auto
  have st: "stored bl1 s1 (key_of c) = Some (content d)" using g(5,8) d(1) by (simp add: put_at_def)
  have wd: "value_of d = w" using d(2) by (simp add: content_def)
  have cs: "value_of c1 = value_of c" using core_same [OF g(7)] by simp
  have room: "join_room fl s1 = join_room fl s" "alloc_ok s1 = alloc_ok s"
  proof -
    have sl: "slab s1 = slab s" "alloc_ok s1 = alloc_ok s" using g(3) by (simp_all add: quiet_def)
    then show "join_room fl s1 = join_room fl s" "alloc_ok s1 = alloc_ok s"
      by ((intro ext)?, simp only: join_room_def room_def)+
  qed
  have "ready fl bl1 s1 (key_of c) it c1 old (Some d)" using g(6) d(1) by simp
  from branch_join [OF g(2) this cmd st] small
  obtain ok v fl' bl' K' s' where b: "store_branch cmd it old (hash (key_of c)) s1 =
       Some (Inr ((fst (store_spec cmd (Some (w, e, u)) c ok (last_cas_id s + 1)), v), s'))"
     "outcome bl1 s1 (key_of c) (snd (store_spec cmd (Some (w, e, u)) c ok (last_cas_id s + 1))) fl' bl' K' s'"
     "v \<noteq> None \<longleftrightarrow> fst (store_spec cmd (Some (w, e, u)) c ok (last_cas_id s + 1)) = STORED"
     "ok \<longrightarrow> join_room fl s (key_of c) w (value_of c)"
     "(\<forall>i. alloc_ok s i) \<and> join_room fl s (key_of c) w (value_of c) \<longrightarrow> ok"
    unfolding d(2) wd cs room g(4) store_spec_core [OF g(7)] by blast
  have "do_store_item cmd it (hash (key_of c)) s =
       Some (Inr ((fst (store_spec cmd (Some (w, e, u)) c ok (last_cas_id s + 1)), v), s'))"
    using do_store_item_start [OF inv it g(1), of cmd] b(1) by simp
  with outcome_after [OF g(5) world_quiet [OF g(3)] b(2)] b(3-5) show ?thesis by blast
qed

section \<open>Under the lock of the region\<close>

lemma mc_inv_region: "mc_inv fl bl K (set_region hv b s) = mc_inv fl bl K s"
proof -
  have T: "in_table bl (set_region hv b s) = in_table bl s"
    by (simp add: in_table_def set_region_def set_item_lock_def)
  have "hash_inv bl (set_region hv b s) = hash_inv bl s"
    by (simp add: hash_inv_def Let_def set_region_def set_item_lock_def)
  moreover have "slab_inv fl (set_region hv b s) = slab_inv fl s"
    by (simp add: slab_inv_def heap_ok_def free_ok_def set_region_def set_item_lock_def)
  moreover have "lru_ok K (set_region hv b s) = lru_ok K s"
    by (simp add: lru_ok_def set_region_def set_item_lock_def)
  ultimately show ?thesis
    unfolding mc_inv_def base_inv_def T by (simp add: set_region_def set_item_lock_def)
qed

lemma region_frame [simp]:
  "heap (set_region hv b s) = heap s" "slab (set_region hv b s) = slab s"
  "clock (set_region hv b s) = clock s" "clock_reads (set_region hv b s) = clock_reads s"
  "alloc_ok (set_region hv b s) = alloc_ok s" "last_cas_id (set_region hv b s) = last_cas_id s"
  "cache_lock (set_region hv b s) = cache_lock s" "mem_setting (set_region hv b s) = mem_setting s"
  "hashpower (hashtable (set_region hv b s)) = hashpower (hashtable s)"
  "item_lock_count (hashtable (set_region hv b s)) = item_lock_count (hashtable s)"
  by (simp_all add: set_region_def set_item_lock_def)

lemma region_views [simp]:
  "entry bl (set_region hv b s) = entry bl s" "stored bl (set_region hv b s) = stored bl s"
  "in_table bl (set_region hv b s) = in_table bl s" "live bl (set_region hv b s) = live bl s"
  "apart (set_region hv b s) = apart s" "pending fl bl (set_region hv b s) it c = pending fl bl s it c"
proof -
  show e: "entry bl (set_region hv b s) = entry bl s" by (rule ext) (simp add: entry_def)
  show st: "stored bl (set_region hv b s) = stored bl s" by (rule ext) (simp only: stored_def e region_frame)
  show T: "in_table bl (set_region hv b s) = in_table bl s" by (simp add: in_table_def)
  show "live bl (set_region hv b s) = live bl s" by (rule ext) (simp only: live_def st region_frame)
  show "apart (set_region hv b s) = apart s" by (simp add: apart_def fun_eq_iff)
  show "pending fl bl (set_region hv b s) it c = pending fl bl s it c" by (simp add: pending_def T)
qed

lemma region_valid_inv: "mc_inv fl bl K s \<Longrightarrow> region_valid hv s"
  by (simp add: mc_inv_def base_inv_def hash_inv_def Let_def region_valid_def lock_index_def)

lemma unlocked_region: "mc_inv fl bl K s \<Longrightarrow> unlocked s \<Longrightarrow> \<not> region_held hv s"
  using region_valid_inv [of fl bl K s hv]
  by (simp add: unlocked_def region_valid_def region_held_def list_all_length)

text \<open>A body that leaves the mutexes as it found them runs under the lock of its region.\<close>

definition locked_run :: "u32 \<Rightarrow> (machine, 'a) prog \<Rightarrow> (machine, 'a) prog" where
  "locked_run hv body = thn (hash_lock hv) (bnd body (\<lambda>r. thn (hash_unlock hv) (ret r)))"

lemma locked_run_ok:
  assumes inv: "mc_inv fl bl K s" and ul: "unlocked s"
    and body: "body (set_region hv True s) = Some (Inr (x, s'))" and w: "world (set_region hv True s) s'"
  shows "locked_run hv body s = Some (Inr (x, set_region hv False s'))"
    and "world s (set_region hv False s')"
proof -
  note v = region_valid_inv [OF inv, of hv] and h = unlocked_region [OF inv ul, of hv]
  let ?i = "lock_index (hashtable s) hv"
  have il: "item_locks (hashtable s') = (item_locks (hashtable s))[?i := True]"
      "lock_index (hashtable s') hv = ?i"
    using w by (simp_all add: world_def set_region_def set_item_lock_def lock_index_def)
  have "region_valid hv s'" "region_held hv s'"
    using v il by (simp_all add: region_valid_def region_held_def)
  then show "locked_run hv body s = Some (Inr (x, set_region hv False s'))"
    unfolding locked_run_def by (intro region.critical v h body)
  have "item_locks (hashtable (set_region hv False s')) = item_locks (hashtable s)"
    using v h il list_update_id [of "item_locks (hashtable s)" ?i]
    by (simp add: set_region_def set_item_lock_def region_held_def region_valid_def)
  then show "world s (set_region hv False s')"
    using w by (simp add: world_def)
qed

lemma unlocked_world: "world s s' \<Longrightarrow> unlocked s' = unlocked s"
  by (simp add: world_def unlocked_def same_classes_def)

lemma outcome_region:
  assumes inv: "mc_inv fl bl K s" and ul: "unlocked s"
    and body: "body (set_region hv True s) = Some (Inr (x, s'))"
    and o': "outcome bl (set_region hv True s) k y fl' bl' K' s'"
  shows "locked_run hv body s = Some (Inr (x, set_region hv False s'))"
    and "outcome bl s k y fl' bl' K' (set_region hv False s')"
proof -
  have w: "world (set_region hv True s) s'" using o' by (simp add: outcome_def)
  note l = locked_run_ok [where body = body and hv = hv and s = s, OF inv ul body w]
  show "locked_run hv body s = Some (Inr (x, set_region hv False s'))" by (rule l(1))
  show "outcome bl s k y fl' bl' K' (set_region hv False s')"
    using o' l(2) by (simp add: outcome_def mc_inv_region put_at_def)
qed

lemma under_region_run:
  assumes "mc_inv fl bl K s" and "pending fl bl s it c"
  shows "under_region it body s = locked_run (hash (key_of c)) (body (hash (key_of c))) s"
proof -
  have "item_key it s = Some (Inr (key_of c, s))"
    using item_key_run pending_nonzero [OF assms] assms(2) by (simp add: pending_def)
  then show ?thesis by (simp add: under_region_def locked_run_def bnd_run)
qed

section \<open>A new item of a client\<close>

text \<open>What the connection writes into a chunk: version, key, flags, expiry and value.\<close>

definition client_item :: "base_item \<Rightarrow> byte list \<Rightarrow> u8 \<Rightarrow> u32 \<Rightarrow> u64 \<Rightarrow> byte list \<Rightarrow> base_item" where
  "client_item n key f e u v = n\<lparr>it_cas := u, it_nkey := of_nat (length key), it_flag := f,
     it_exptime := e, it_nbytes := int (length v),
     it_data := blit (blit (blit (it_data n) 0 key) (length key) [CHR ''0'']) (length key + 1) v\<rparr>"

lemma client_item_props:
  assumes "length key < 256" and "2 \<le> length v" and "length key + 1 + length v \<le> length (it_data n)"
  shows "item_wf (client_item n key f e u v)" "key_of (client_item n key f e u v) = key"
    "value_of (client_item n key f e u v) = v" "it_exptime (client_item n key f e u v) = e"
    "it_cas (client_item n key f e u v) = u" "it_flag (client_item n key f e u v) = f"
    "length (it_data (client_item n key f e u v)) = length (it_data n)"
proof -
  let ?D = "blit (blit (it_data n) 0 key) (length key) [CHR ''0'']"
  have un: "unat (of_nat (length key) :: u8) = length key"
    using assms(1) by (simp add: unsigned_of_nat take_bit_nat_eq_self_iff)
  have D: "length ?D = length (it_data n)" "take (length key) ?D = key"
    using assms(3) blit_read [of 0 "it_data n" key] by (simp_all add: blit_prefix)
  show l: "length (it_data (client_item n key f e u v)) = length (it_data n)"
    using D assms(3) by (simp add: client_item_def)
  show "item_wf (client_item n key f e u v)"
    using l assms un by (simp add: item_wf_def) (simp add: client_item_def un)
  show "key_of (client_item n key f e u v) = key"
    using D assms(3) un by (simp add: key_of_def client_item_def blit_prefix)
  show "value_of (client_item n key f e u v) = v"
    using D assms(3) un blit_read [of "length key + 1" ?D v]
    by (simp add: value_of_def real_data_off_def client_item_def)
  show "it_exptime (client_item n key f e u v) = e" "it_cas (client_item n key f e u v) = u"
    "it_flag (client_item n key f e u v) = f" by (simp_all add: client_item_def)
qed

text \<open>A chunk the allocator returned, filled in by the connection, is a pending item.\<close>

lemma new_item_pending:
  assumes a: "allocated fl bl K s nkey nb r fl' s'" and r: "r \<noteq> 0"
    and fit: "length key < 256" "2 \<le> length v" "57 + length key + length v \<le> alloc_size nkey nb"
  shows "\<exists>n. heap s' r = Some n \<and> r \<notin> frees fl' (slab s') \<and> r \<notin> in_table bl s' \<and>
     length key + length v + 6 \<le> length (it_data n) \<and>
     mc_inv fl' bl K (with_item r (client_item n key f e u v) s') \<and>
     pending fl' bl (with_item r (client_item n key f e u v) s') r (client_item n key f e u v) \<and>
     stored bl (with_item r (client_item n key f e u v) s') = stored bl s \<and>
     entry bl (with_item r (client_item n key f e u v) s') = entry bl s"
proof -
  obtain n where n: "heap s' r = Some n" "r \<notin> frees fl' (slab s')" "r \<notin> in_table bl s'"
      "alloc_size nkey nb \<le> length (it_data n) + offset_data"
    using a r unfolding allocated_def by blast
  have inv: "mc_inv fl' bl K s'" using a by (simp add: allocated_def)
  have l: "length key + length v + 6 \<le> length (it_data n)" using fit(3) n(4) by (simp add: offset_data_def)
  then have "length key + 1 + length v \<le> length (it_data n)" by simp
  note p = client_item_props [OF fit(1,2) this]
  note w = pending_write [OF inv n(1-3), of "client_item n key f e u v", folded with_item_def]
  have "mc_inv fl' bl K (with_item r (client_item n key f e u v) s')"
     "stored bl (with_item r (client_item n key f e u v) s') = stored bl s"
     "entry bl (with_item r (client_item n key f e u v) s') = entry bl s"
    using w p(7) a by (simp_all add: client_item_def allocated_def)
  then show ?thesis
    using n l p(1) by (intro exI [of _ n]) (simp add: pending_def with_item_def in_table_def)
qed

section \<open>A server to try the commands on\<close>

text \<open>The constructor with no memory limit, for the closed instances below.\<close>

definition roomy :: "machine \<Rightarrow> bool" where
  "roomy s \<longleftrightarrow> same_classes (slab_table 0 6 5 default_settings) (slab s) \<and> (\<forall>i. alloc_ok s i)"

lemma roomy_world: "roomy s \<Longrightarrow> world s s' \<Longrightarrow> roomy s'"
  unfolding roomy_def world_def using same_classes_trans by auto

lemma table_limit: "slab_table limit 6 5 st = (slab_table 10000000 6 5 st)\<lparr>mem_limit := limit\<rparr>"
  by (simp add: slab_table_def split: prod.splits)

lemma roomy_room:
  assumes "roomy s" and "classes_ok (slab s)" and "0 < n" "n \<le> 1048576"
  shows "room fl s n"
proof -
  have sc: "same_classes (slab_table 0 6 5 default_settings) (slab s)" using assms(1) by (simp add: roomy_def)
  have ml: "mem_limit (slab s) = 0" using sc by (simp add: same_classes_def table_limit [of 0])
  have pl: "power_largest (slab s) = 50" using sc by (simp add: same_classes_def table_limit [of 0] default_largest)
  have "50 < length (mem_base (slab_table 0 6 5 default_settings))"
    by (simp add: table_limit [of 0] default_classes)
  then have "cls_size (mem_base (slab s) ! 50) = cls_size (mem_base (slab_table 0 6 5 default_settings) ! 50)"
    using sc by (simp add: same_classes_def)
  then have "cls_size (mem_base (slab s) ! 50) = 1048576"
    by (simp add: table_limit [of 0] default_classes new_class_def)
  then obtain cid where "clsid_of (slab s) n = Inr cid" "cid \<noteq> 0"
    using clsid_of_spec [OF assms(2), of n] assms(3,4) pl by auto
  then show ?thesis by (simp add: room_def page_refused_def ml)
qed

text \<open>Room for \<open>n\<close> more items of at most 2000 bytes: memory is not limited, or every class such an
  item can go to has \<open>n\<close> free chunks. An allocation uses up one.\<close>

definition spare :: "nat \<Rightarrow> (nat \<Rightarrow> addr list) \<Rightarrow> machine \<Rightarrow> bool" where
  "spare n fl s \<longleftrightarrow> (\<forall>i. alloc_ok s i) \<and> (\<forall>k \<in> {1..2000}. case clsid_of (slab s) k of Inl e \<Rightarrow> False
     | Inr cid \<Rightarrow> cid \<noteq> 0 \<and> (mem_limit (slab s) = 0 \<or> n \<le> length (fl cid)))"

lemma spare_class:
  assumes "spare n fl s" and "0 < k" and "k \<le> 2000"
  obtains cid where "clsid_of (slab s) k = Inr cid" "cid \<noteq> 0" "mem_limit (slab s) = 0 \<or> n \<le> length (fl cid)"
proof -
  have "k \<in> {1..2000}" using assms(2,3) by simp
  then have "case clsid_of (slab s) k of Inl e \<Rightarrow> False
     | Inr cid \<Rightarrow> cid \<noteq> 0 \<and> (mem_limit (slab s) = 0 \<or> n \<le> length (fl cid))"
    using assms(1) unfolding spare_def by blast
  then show ?thesis using that by (cases "clsid_of (slab s) k") auto
qed

lemma spare_room: "spare (Suc n) fl s \<Longrightarrow> 0 < k \<Longrightarrow> k \<le> 2000 \<Longrightarrow> room fl s k"
  by (erule (2) spare_class) (auto simp: room_def page_refused_def)

lemma spare_keep:
  assumes s: "spare n fl s" and same: "alloc_ok s' = alloc_ok s" "mem_limit (slab s') = mem_limit (slab s)"
      "\<And>k. clsid_of (slab s') k = clsid_of (slab s) k"
    and less: "\<And>cid. n \<le> length (fl cid) \<Longrightarrow> m \<le> length (fl' cid)"
  shows "spare m fl' s'"
  unfolding spare_def
proof (intro conjI ballI allI)
  fix k :: nat
  assume k: "k \<in> {1..2000}"
  obtain cid where "clsid_of (slab s) k = Inr cid" "cid \<noteq> 0" "mem_limit (slab s) = 0 \<or> n \<le> length (fl cid)"
    by (rule spare_class [OF s, of k]) (use k in auto)
  then show "case clsid_of (slab s') k of Inl e \<Rightarrow> False
     | Inr cid \<Rightarrow> cid \<noteq> 0 \<and> (mem_limit (slab s') = 0 \<or> m \<le> length (fl' cid))"
    using same(2,3) less by auto
next
  show "alloc_ok s' i" for i using s same(1) by (simp add: spare_def)
qed

lemma spare_world: "spare n fl s \<Longrightarrow> world s s' \<Longrightarrow> spare n fl s'"
  by (erule spare_keep) (auto simp: world_def same_classes_def clsid_of_same)

lemma spare_spent: "spare (Suc n) fl s \<Longrightarrow> spent fl fl' \<Longrightarrow> spare n fl' s"
proof (erule spare_keep)
  fix cid
  assume "spent fl fl'" "Suc n \<le> length (fl cid)"
  then have "length (fl cid) \<le> Suc (length (fl' cid))" "Suc n \<le> length (fl cid)" by (simp_all add: spent_def)
  then show "n \<le> length (fl' cid)" by linarith
qed simp_all

lemma spare_less: "spare n fl s \<Longrightarrow> m \<le> n \<Longrightarrow> spare m fl s"
  by (erule spare_keep) simp_all

lemma roomy_spare:
  assumes "roomy s" and "mc_inv fl bl K s"
  shows "spare n fl s"
proof -
  have co: "classes_ok (slab s)" using assms(2) by (simp add: mc_inv_def base_inv_def slab_inv_def)
  have "same_classes (slab_table 0 6 5 default_settings) (slab s)" using assms(1) by (simp add: roomy_def)
  then have ml: "mem_limit (slab s) = 0" by (simp add: same_classes_def table_limit [of 0])
  have "case clsid_of (slab s) k of Inl e \<Rightarrow> False | Inr cid \<Rightarrow> cid \<noteq> 0 \<and> (mem_limit (slab s) = 0 \<or> n \<le> length (fl cid))"
    if "k \<in> {1..2000}" for k
    using roomy_room [OF assms(1) co, of k fl] that ml by (auto simp: room_def split: sum.splits)
  then show ?thesis using assms(1) unfolding spare_def roomy_def by blast
qed

lemma demo_server_power:
  obtains s fl where "mc_inv fl (\<lambda>_. []) {} s" "stored (\<lambda>_. []) s = Map.empty" "unlocked s" "roomy s"
    "hashpower (hashtable s) = 16" "last_cas_id s = 0"
proof -
  have st: "settings_ok (mem_setting fresh_server)" by simp
  obtain s fl where s: "slab_ctor 0 6 5 fresh_server = Some (Inr ((), s))" "slab_inv fl s"
      "slab_frame (fresh_server\<lparr>slab := slab_table 0 6 5 default_settings\<rparr>) s" "all_free fl s"
    using slab_ctor_spec [OF st, of 0] by auto
  note f = slab_frame_fields [OF s(3)]
  have sc: "same_classes (slab_table 0 6 5 default_settings) (slab s)"
    using s(3) by (simp add: slab_frame_def)
  have pl: "power_largest (slab s) = 50" using f(12) by (simp add: table_limit [of 0] default_largest)
  have lk: "\<not> slabs_lock (slab_table 0 6 5 default_settings)"
    by (rule slab_table_facts(7)) simp
  let ?s = "s\<lparr>hashtable := hashtable_default, lru_list := lru_ctor\<rparr>"
  have inv: "slab_inv fl ?s" using s(2) by (simp add: slab_inv_def heap_ok_def free_ok_def)
  have af: "all_free fl ?s" using s(4) by (simp add: all_free_def)
  have plx: "power_largest (slab ?s) < POWER_LARGEST" using pl by (simp add: power_defs)
  have ht: "hashtable ?s = hashtable_ctor 16 0" by (simp add: hashtable_default_def)
  note m = mc_inv_fresh [OF inv af plx ht _ _, simplified]
  have "\<not> cache_lock s" "\<not> slabs_lock (slab s)"
    using f(3,10) lk by (simp_all add: fresh_server_def blank_def)
  then have "unlocked ?s"
    by (simp add: unlocked_def hashtable_default_def hashtable_ctor_def Let_def list_all_iff)
  moreover have "roomy ?s" using sc f(9) by (simp add: roomy_def fresh_server_def blank_def)
  moreover have "hashpower (hashtable ?s) = 16" "last_cas_id ?s = 0"
    using f by (simp_all add: hashtable_default_def hashtable_ctor_def Let_def fresh_server_def blank_def)
  ultimately show ?thesis using that [OF m] by blast
qed

lemma demo_server:
  obtains s fl where "mc_inv fl (\<lambda>_. []) {} s" "stored (\<lambda>_. []) s = Map.empty" "unlocked s" "roomy s"
  using demo_server_power by blast

lemma demo_item:
  assumes inv: "mc_inv fl bl K s" and ul: "unlocked s" and rm: "roomy s"
    and v: "2 \<le> length v" "length v < 100000" and k: "length key < 256"
  shows "\<exists>fl' s' it c. mc_inv fl' bl K s' \<and> unlocked s' \<and> roomy s' \<and> pending fl' bl s' it c \<and>
    key_of c = key \<and> value_of c = v \<and> it_flag c = f \<and> it_exptime c = e \<and> it_cas c = u \<and>
    stored bl s' = stored bl s"
proof -
  have lk: "\<not> cache_lock s" "\<not> slabs_lock (slab s)" using ul by (simp_all add: unlocked_def)
  have co: "classes_ok (slab s)" using inv by (simp add: mc_inv_def base_inv_def slab_inv_def)
  have sz: "alloc_size (length key) (int (length v)) = 57 + length key + length v"
    using v k by (simp add: alloc_size_eq)
  have "room fl s (alloc_size (length key) (int (length v)))"
    by (rule roomy_room [OF rm co]) (use v k sz in simp_all)
  then obtain r fl' s' where a: "allocated fl bl K s (length key) (int (length v)) r fl' s'" "r \<noteq> 0"
    using do_item_alloc_spec [OF inv lk, of "length key" "int (length v)"] rm by (auto simp: roomy_def)
  from new_item_pending [OF a k v(1)] sz obtain n where
    n: "mc_inv fl' bl K (with_item r (client_item n key f e u v) s')"
     "pending fl' bl (with_item r (client_item n key f e u v) s') r (client_item n key f e u v)"
     "stored bl (with_item r (client_item n key f e u v) s') = stored bl s"
     "length key + length v + 6 \<le> length (it_data n)"
    by (metis le_refl)
  have "length key + 1 + length v \<le> length (it_data n)" using n(4) by simp
  note p = client_item_props [OF k v(1) this]
  have sf: "slab_frame s s'" using a(1) by (simp add: allocated_def)
  note fr = slab_frame_fields [OF sf]
  have w: "world s (with_item r (client_item n key f e u v) s')"
    using world_slab [OF sf] by (simp add: world_def with_item_def)
  show ?thesis
    using n(1-3) roomy_world [OF rm w] p(2-6) unlocked_world [OF w] ul by blast
qed

section \<open>Properties\<close>

lemma outcome_unlocked: "outcome bl s k x fl' bl' K' s' \<Longrightarrow> unlocked s' = unlocked s"
  using unlocked_world by (auto simp: outcome_def)

lemma store_item_plain:
  assumes inv: "mc_inv fl bl K s" and it: "pending fl bl s it c" and ul: "unlocked s"
    and cmd: "cmd = NREAD_APPEND \<or> cmd = NREAD_PREPEND \<Longrightarrow> live bl s (key_of c) = None"
    and cas: "cmd = NREAD_CAS \<Longrightarrow> live bl s (key_of c) \<noteq> None"
    and S_eq: "S = store_spec cmd (live bl s (key_of c)) c ok (last_cas_id s + 1)"
  shows "\<exists>v bl' K' s'. store_item cmd it s = Some (Inr ((fst S, v), s')) \<and>
     outcome bl s (key_of c) (snd S) fl bl' K' s' \<and> (v \<noteq> None \<longleftrightarrow> fst S = STORED) \<and>
     last_cas_id s' = counted (fst S = STORED \<and> linkable c) (last_cas_id s)"
proof -
  let ?hv = "hash (key_of c)" and ?s = "set_region (hash (key_of c)) True s"
  have i: "mc_inv fl bl K ?s" "pending fl bl ?s it c" "\<not> cache_lock ?s" "\<not> slabs_lock (slab ?s)"
    using inv it ul by (simp_all add: mc_inv_region unlocked_def)
  have cmd': "cmd = NREAD_APPEND \<or> cmd = NREAD_PREPEND \<Longrightarrow> live bl ?s (key_of c) = None" using cmd by simp
  have cas': "cmd = NREAD_CAS \<Longrightarrow> live bl ?s (key_of c) \<noteq> None" using cas by simp
  have S': "S = store_spec cmd (live bl ?s (key_of c)) c ok (last_cas_id ?s + 1)" using S_eq by simp
  obtain v bl' K' s' where b: "do_store_item cmd it ?hv ?s = Some (Inr ((fst S, v), s'))"
     "outcome bl ?s (key_of c) (snd S) fl bl' K' s'" "v \<noteq> None \<longleftrightarrow> fst S = STORED"
     "last_cas_id s' = counted (fst S = STORED \<and> linkable c) (last_cas_id ?s)"
    using do_store_item_plain [OF i cmd' cas' S'] by blast
  note o' = outcome_region [where body = "do_store_item cmd it ?hv" and hv = ?hv, OF inv ul b(1,2)]
  have "store_item cmd it s = Some (Inr ((fst S, v), set_region ?hv False s'))"
    using o'(1) under_region_run [OF inv it, of "do_store_item cmd it"] by (simp add: store_item_def)
  moreover have "last_cas_id (set_region ?hv False s') = counted (fst S = STORED \<and> linkable c) (last_cas_id s)"
    using b(4) by simp
  ultimately show ?thesis using o'(2) b(3) by blast
qed

lemma store_item_join:
  assumes inv: "mc_inv fl bl K s" and it: "pending fl bl s it c" and ul: "unlocked s"
    and cmd: "cmd = NREAD_APPEND \<or> cmd = NREAD_PREPEND"
    and old: "live bl s (key_of c) = Some (w, e, u)"
    and small: "length w + length (value_of c) < 2 ^ 30"
  shows "\<exists>ok v fl' bl' K' s'. store_item cmd it s =
       Some (Inr ((fst (store_spec cmd (Some (w, e, u)) c ok (last_cas_id s + 1)), v), s')) \<and>
     outcome bl s (key_of c) (snd (store_spec cmd (Some (w, e, u)) c ok (last_cas_id s + 1))) fl' bl' K' s' \<and>
     (ok \<longrightarrow> join_room fl s (key_of c) w (value_of c)) \<and>
     ((\<forall>i. alloc_ok s i) \<and> join_room fl s (key_of c) w (value_of c) \<longrightarrow> ok)"
proof -
  let ?hv = "hash (key_of c)" and ?s = "set_region (hash (key_of c)) True s"
  have i: "mc_inv fl bl K ?s" "pending fl bl ?s it c" "\<not> cache_lock ?s" "\<not> slabs_lock (slab ?s)"
    using inv it ul by (simp_all add: mc_inv_region unlocked_def)
  have old': "live bl ?s (key_of c) = Some (w, e, u)" using old by simp
  have jr: "join_room fl ?s = join_room fl s"
    by (intro ext) (simp only: join_room_def room_def region_frame)
  obtain ok v fl' bl' K' s' where b: "do_store_item cmd it ?hv ?s =
       Some (Inr ((fst (store_spec cmd (Some (w, e, u)) c ok (last_cas_id s + 1)), v), s'))"
     "outcome bl ?s (key_of c) (snd (store_spec cmd (Some (w, e, u)) c ok (last_cas_id s + 1))) fl' bl' K' s'"
     "ok \<longrightarrow> join_room fl s (key_of c) w (value_of c)"
     "(\<forall>i. alloc_ok s i) \<and> join_room fl s (key_of c) w (value_of c) \<longrightarrow> ok"
    using do_store_item_join [OF i cmd old' small] unfolding jr region_frame by blast
  note o' = outcome_region [where body = "do_store_item cmd it ?hv" and hv = ?hv, OF inv ul b(1,2)]
  have "store_item cmd it s = Some (Inr ((fst (store_spec cmd (Some (w, e, u)) c ok (last_cas_id s + 1)), v),
      set_region ?hv False s'))"
    using o'(1) under_region_run [OF inv it, of "do_store_item cmd it"] by (simp add: store_item_def)
  with o'(2) b(3,4) show ?thesis by blast
qed

text \<open>A join to an item of another version does nothing.\<close>

lemma store_item_conflict:
  assumes inv: "mc_inv fl bl K s" and it: "pending fl bl s it c" and ul: "unlocked s"
    and cmd: "cmd = NREAD_APPEND \<or> cmd = NREAD_PREPEND"
    and old: "live bl s (key_of c) = Some (w, e, u)" and ne: "it_cas c \<noteq> u"
  shows "\<exists>bl' K' s'. store_item cmd it s = Some (Inr ((EXISTS, None), s')) \<and>
     outcome bl s (key_of c) (Some (w, e, u)) fl bl' K' s' \<and> last_cas_id s' = last_cas_id s"
proof -
  let ?hv = "hash (key_of c)" and ?s = "set_region (hash (key_of c)) True s"
  have i: "mc_inv fl bl K ?s" "pending fl bl ?s it c" "\<not> cache_lock ?s" "\<not> slabs_lock (slab ?s)"
    using inv it ul by (simp_all add: mc_inv_region unlocked_def)
  have old': "live bl ?s (key_of c) = Some (w, e, u)" using old by simp
  obtain x bl1 s1 c1 o' where g: "do_item_get (key_of c) ?hv ?s = Some (Inr (x, s1))"
     "mc_inv fl bl1 K s1" "quiet ?s s1" "last_cas_id s1 = last_cas_id ?s"
     "put_at bl ?s (key_of c) (live bl ?s (key_of c)) bl1 s1" "ready fl bl1 s1 (key_of c) it c1 x o'"
     "core c1 = core c" "live bl ?s (key_of c) = map_option content o'"
    using start_ready [OF i] by blast
  obtain d where d: "o' = Some d" "it_cas d = u" using g(8) old' by (auto simp: content_def)
  have r: "rd it s1 = Some (Inr (c1, s1))" "rd x s1 = Some (Inr (d, s1))" "x \<noteq> 0"
    using g(6) d(1) pending_nonzero [OF g(2), of it c1] by (auto simp: rd_def ready_def pending_def)
  have "it_cas c1 \<noteq> it_cas d" using ne d(2) core_same(6) [OF g(7)] by simp
  then have b: "store_branch cmd it x ?hv s1 = store_end EXISTS it x 0 s1"
    using cmd r(3) by (auto simp: store_branch_def bnd_run [of "rd it" s1 c1 s1, OF r(1)] bnd_run [of "rd x" s1 d s1, OF r(2)])
  obtain s2 where s2: "store_end EXISTS it x 0 s1 = Some (Inr ((EXISTS, None), s2))" "refreshed fl bl1 K s1 K s2"
    using branch_end [OF g(2,6), of EXISTS] by auto
  have "do_store_item cmd it ?hv ?s = Some (Inr ((EXISTS, None), s2))"
    using do_store_item_start [OF i(1,2) g(1), of cmd] b s2(1) by simp
  moreover have "outcome bl ?s (key_of c) (Some (w, e, u)) fl bl1 K s2"
    using outcome_refreshed [OF g(5) world_quiet [OF g(3)] s2(2)] old' by simp
  ultimately have o': "locked_run ?hv (do_store_item cmd it ?hv) s = Some (Inr ((EXISTS, None), set_region ?hv False s2))"
     "outcome bl s (key_of c) (Some (w, e, u)) fl bl1 K (set_region ?hv False s2)"
    using outcome_region [where body = "do_store_item cmd it ?hv" and hv = ?hv, OF inv ul] by blast+
  have "last_cas_id (set_region ?hv False s2) = last_cas_id s" using s2(2) g(4) by (simp add: refreshed_def)
  moreover have "store_item cmd it s = Some (Inr ((EXISTS, None), set_region ?hv False s2))"
    using o'(1) under_region_run [OF inv it, of "do_store_item cmd it"] by (simp add: store_item_def)
  ultimately show ?thesis using o'(2) by blast
qed

text \<open>C8: Storing refines the map. From a sound state with no mutex held, \<open>store_item\<close> for every
  storage command returns, without a fault, the status the abstract command returns, and binds
  the key as it says: add refuses a live key, replace, append and prepend an absent one, cas
  another version. Afterwards the state is sound, every mutex is free, a key of another bucket has
  what it had, and any other key what it had or nothing. (A cas needs the key to be there; append
  and prepend to a live key need a second chunk, and have a theorem of their own.)\<close>
theorem store_item_refines:
  assumes "mc_inv fl bl K s" and "pending fl bl s it c" and "unlocked s"
    and "cmd = NREAD_APPEND \<or> cmd = NREAD_PREPEND \<Longrightarrow> live bl s (key_of c) = None"
    and "cmd = NREAD_CAS \<Longrightarrow> live bl s (key_of c) \<noteq> None"
  shows "\<exists>st x v bl' K' s'. store_spec cmd (live bl s (key_of c)) c ok (last_cas_id s + 1) = (st, x) \<and>
     store_item cmd it s = Some (Inr ((st, v), s')) \<and> mc_inv fl bl' K' s' \<and> unlocked s' \<and>
     stored bl' s' (key_of c) = x \<and>
     (\<forall>k. apart s (key_of c) k \<longrightarrow> stored bl' s' k = stored bl s k) \<and>
     stored bl' s' |` (- {key_of c}) \<subseteq>\<^sub>m stored bl s"
proof -
  define S where "S = store_spec cmd (live bl s (key_of c)) c ok (last_cas_id s + 1)"
  obtain v bl' K' s' where b: "store_item cmd it s = Some (Inr ((fst S, v), s'))"
     "outcome bl s (key_of c) (snd S) fl bl' K' s'"
    using store_item_plain [OF assms S_def] by blast
  show ?thesis
    unfolding S_def [symmetric]
    using b assms(3) outcome_unlocked [OF b(2)]
    by (intro exI [of _ "fst S"] exI [of _ "snd S"] exI [of _ v] exI [of _ bl'] exI [of _ K'] exI [of _ s'])
      (simp add: outcome_def put_at_def)
qed

text \<open>C11: Append and prepend. For a live key they answer EXISTS unless the version given is the
  stored one, NOT_STORED when there is no chunk for the joined value, and otherwise bind the
  key to the two values joined at the line end of the first, with the old expiry and the next
  version; memory is found whenever the class of the joined size has a free chunk or may take a
  page and the system grants it. The copies stay inside the new chunk.\<close>
theorem append_prepend_refine:
  assumes "mc_inv fl bl K s" and "pending fl bl s it c" and "unlocked s"
    and "cmd = NREAD_APPEND \<or> cmd = NREAD_PREPEND"
    and "live bl s (key_of c) = Some (w, e, u)" and "length w + length (value_of c) < 2 ^ 30"
  shows "\<exists>ok st x v fl' bl' K' s'. store_spec cmd (Some (w, e, u)) c ok (last_cas_id s + 1) = (st, x) \<and>
     store_item cmd it s = Some (Inr ((st, v), s')) \<and> mc_inv fl' bl' K' s' \<and> unlocked s' \<and>
     stored bl' s' (key_of c) = x \<and>
     (\<forall>k. apart s (key_of c) k \<longrightarrow> stored bl' s' k = stored bl s k) \<and>
     stored bl' s' |` (- {key_of c}) \<subseteq>\<^sub>m stored bl s \<and>
     (ok \<longrightarrow> join_room fl s (key_of c) w (value_of c)) \<and>
     ((\<forall>i. alloc_ok s i) \<and> join_room fl s (key_of c) w (value_of c) \<longrightarrow> ok)"
proof -
  obtain ok v fl' bl' K' s' where b: "store_item cmd it s =
       Some (Inr ((fst (store_spec cmd (Some (w, e, u)) c ok (last_cas_id s + 1)), v), s'))"
     "outcome bl s (key_of c) (snd (store_spec cmd (Some (w, e, u)) c ok (last_cas_id s + 1))) fl' bl' K' s'"
     "ok \<longrightarrow> join_room fl s (key_of c) w (value_of c)"
     "(\<forall>i. alloc_ok s i) \<and> join_room fl s (key_of c) w (value_of c) \<longrightarrow> ok"
    using store_item_join [OF assms] by blast
  let ?S = "store_spec cmd (Some (w, e, u)) c ok (last_cas_id s + 1)"
  show ?thesis
    using b assms(3) outcome_unlocked [OF b(2)]
    by (intro exI [of _ ok] exI [of _ "fst ?S"] exI [of _ "snd ?S"] exI [of _ v] exI [of _ fl'] exI [of _ bl']
        exI [of _ K'] exI [of _ s']) (simp add: outcome_def put_at_def)
qed

text \<open>C31: A cas of a key that is not there (or has expired) is a null dereference: the code sets
  NOT_FOUND and then compares the version of the item it has not found.\<close>
theorem cas_missing_key_faults:
  assumes "mc_inv fl bl K s" and "pending fl bl s it c" and "unlocked s" and "live bl s (key_of c) = None"
  shows "store_item NREAD_CAS it s = Some (Inl NullDeref)"
proof -
  let ?hv = "hash (key_of c)" and ?s = "set_region (hash (key_of c)) True s"
  have i: "mc_inv fl bl K ?s" "pending fl bl ?s it c" "\<not> cache_lock ?s" "\<not> slabs_lock (slab ?s)"
    using assms by (simp_all add: mc_inv_region unlocked_def)
  obtain old bl1 s1 c1 o' where g: "do_item_get (key_of c) ?hv ?s = Some (Inr (old, s1))"
     "mc_inv fl bl1 K s1" "ready fl bl1 s1 (key_of c) it c1 old o'" "live bl ?s (key_of c) = map_option content o'"
    using start_ready [OF i] by blast
  have "old = 0" using g(3,4) assms(4) by (auto simp: ready_def split: option.splits)
  moreover have "rd it s1 = Some (Inr (c1, s1))"
    using g(3) pending_nonzero [OF g(2), of it c1] by (auto simp: rd_def ready_def pending_def)
  ultimately have "store_branch NREAD_CAS it old ?hv s1 = Some (Inl NullDeref)"
    by (simp add: store_branch_def bnd_def rd_def [of 0])
  then have body: "do_store_item NREAD_CAS it ?hv ?s = Some (Inl NullDeref)"
    using do_store_item_start [OF i(1,2) g(1), of NREAD_CAS] by simp
  have "locked_run ?hv (do_store_item NREAD_CAS it ?hv) s = Some (Inl NullDeref)"
    using region.lock_free [OF region_valid_inv [OF assms(1)] unlocked_region [OF assms(1,3)], of ?hv] body
    by (simp add: locked_run_def thn_def bnd_def)
  then show ?thesis
    using under_region_run [OF assms(1,2), of "do_store_item NREAD_CAS it"] by (simp add: store_item_def)
qed

text \<open>C32: The value of a set whose client flags have bit 0 or bit 2 is lost: the flags overwrite
  the LINKED and SLABBED bits, \<open>do_item_link\<close> refuses the item, its result is not looked at,
  and the client is told STORED. Afterwards the key has no value, the old one is gone too.\<close>
theorem stored_but_lost:
  assumes "mc_inv fl bl K s" and "pending fl bl s it c" and "unlocked s"
    and "it_flag c AND (ITEM_LINKED OR ITEM_SLABBED) \<noteq> 0"
  shows "\<exists>v bl' K' s'. store_item NREAD_SET it s = Some (Inr ((STORED, v), s')) \<and>
     mc_inv fl bl' K' s' \<and> stored bl' s' (key_of c) = None"
proof -
  have "store_spec NREAD_SET (live bl s (key_of c)) c True (last_cas_id s + 1) = (STORED, None)"
    using assms(4) by (simp add: store_spec_def put_binding_def linkable_def)
  then show ?thesis
    using store_item_plain [OF assms(1-3), of NREAD_SET "(STORED, None)" True] by (auto simp: outcome_def put_at_def)
qed

lemma item_get_found:
  assumes inv: "mc_inv fl bl K s" and ul: "unlocked s"
  shows "\<exists>r bl' s'. item_get k s = Some (Inr (r, s')) \<and> outcome bl s k (live bl s k) fl bl' K s' \<and>
     clock_reads s' \<ge> clock_reads s \<and>
     (case live bl s k of None \<Rightarrow> r = 0
      | Some x \<Rightarrow> entry bl' s' k = Some r \<and> r \<noteq> 0 \<and> (\<exists>c. heap s' r = Some c \<and> key_of c = k \<and> content c = x)) \<and>
     last_cas_id s' = last_cas_id s"
proof -
  let ?s = "set_region (hash k) True s"
  have i: "mc_inv fl bl K ?s" "\<not> cache_lock ?s"
    using assms by (simp_all add: mc_inv_region unlocked_def)
  obtain r bl' s' where g: "do_item_get k (hash k) ?s = Some (Inr (r, s'))" "got fl bl K ?s k r bl' s'"
    using do_item_get_spec [OF i] by blast
  obtain r' bl'' s'' where f: "do_item_get k (hash k) ?s = Some (Inr (r', s''))" "found fl bl K ?s k r' bl'' s''"
    using do_item_get_found [OF i] by blast
  have fd: "r' = r" "s'' = s'" using f(1) g(1) by auto
  have cr: "clock_reads s' \<ge> clock_reads ?s"
    using g(2) by (auto simp: got_def fetched_def split: option.splits if_splits)
  have q: "quiet ?s s'" using f(2) fd by (simp add: found_def)
  have oc: "outcome bl ?s k (live bl ?s k) fl bl'' K s'"
    using f(2) fd world_quiet [OF q] by (simp add: found_def outcome_def)
  note o' = outcome_region [where body = "do_item_get k (hash k)" and hv = "hash k", OF inv ul g(1) oc]
  have "item_get k s = Some (Inr (r, set_region (hash k) False s'))"
    using o'(1) by (simp add: item_get_def locked_run_def)
  moreover have "case live bl s k of None \<Rightarrow> r = 0
      | Some x \<Rightarrow> entry bl'' (set_region (hash k) False s') k = Some r \<and> r \<noteq> 0 \<and>
          (\<exists>c. heap (set_region (hash k) False s') r = Some c \<and> key_of c = k \<and> content c = x)"
    using f(2) unfolding fd found_def by (auto split: option.splits)
  moreover have "last_cas_id (set_region (hash k) False s') = last_cas_id s" using g(2) by (simp add: got_def)
  ultimately show ?thesis using o'(2) cr by fastforce
qed

text \<open>C9: Looking up refines the map. \<open>item_get\<close> returns, without a fault and with every mutex free,
  null exactly when the key has no binding or one whose expiry has passed, and otherwise an item
  with the key, the value, the expiry and the version of its binding. An expired binding is
  removed, a live one stays; no other key gains or changes a binding.\<close>
theorem item_get_refines:
  assumes "mc_inv fl bl K s" and "unlocked s"
  shows "\<exists>r bl' s'. item_get k s = Some (Inr (r, s')) \<and> mc_inv fl bl' K s' \<and> unlocked s' \<and>
     (case live bl s k of None \<Rightarrow> r = 0
      | Some x \<Rightarrow> \<exists>c. r \<noteq> 0 \<and> heap s' r = Some c \<and> key_of c = k \<and> (value_of c, it_exptime c, it_cas c) = x) \<and>
     stored bl' s' k = live bl s k \<and>
     (\<forall>k'. apart s k k' \<longrightarrow> stored bl' s' k' = stored bl s k') \<and>
     stored bl' s' |` (- {k}) \<subseteq>\<^sub>m stored bl s"
proof -
  obtain r bl' s' where g: "item_get k s = Some (Inr (r, s'))" "outcome bl s k (live bl s k) fl bl' K s'"
     "case live bl s k of None \<Rightarrow> r = 0
      | Some x \<Rightarrow> entry bl' s' k = Some r \<and> r \<noteq> 0 \<and> (\<exists>c. heap s' r = Some c \<and> key_of c = k \<and> content c = x)"
    using item_get_found [OF assms] by blast
  show ?thesis
    using g assms(2) outcome_unlocked [OF g(2)]
    by (intro exI [of _ r] exI [of _ bl'] exI [of _ s'])
      (auto simp: outcome_def put_at_def content_def split: option.splits)
qed

text \<open>C10: A value set is the value got. After \<open>store_item\<close> for set with flags that leave bits 0 and 2
  clear, the next \<open>item_get\<close> of the key returns an item with that value, that expiry and a
  version no item had before, or nothing if the expiry has passed by then.\<close>
theorem get_after_set:
  assumes "mc_inv fl bl K s" and "pending fl bl s it c" and "unlocked s"
    and "it_flag c AND (ITEM_LINKED OR ITEM_SLABBED) = 0"
  shows "\<exists>v s1 r s2. store_item NREAD_SET it s = Some (Inr ((STORED, v), s1)) \<and>
     item_get (key_of c) s1 = Some (Inr (r, s2)) \<and>
     (if it_exptime c \<noteq> 0 \<and> it_exptime c \<le> clock s1 (clock_reads s1) then r = 0
      else \<exists>d. heap s2 r = Some d \<and> key_of d = key_of c \<and> value_of d = value_of c \<and>
             it_exptime d = it_exptime c \<and> it_cas d = last_cas_id s + 1)"
proof -
  let ?b = "(value_of c, it_exptime c, last_cas_id s + 1)"
  have S: "(STORED, Some ?b) = store_spec NREAD_SET (live bl s (key_of c)) c True (last_cas_id s + 1)"
    using assms(4) by (simp add: store_spec_def put_binding_def linkable_def)
  obtain v bl1 K1 s1 where s1: "store_item NREAD_SET it s = Some (Inr ((STORED, v), s1))"
     "outcome bl s (key_of c) (Some ?b) fl bl1 K1 s1"
    using store_item_plain [OF assms(1-3) _ _ S] by auto
  have i1: "mc_inv fl bl1 K1 s1" "unlocked s1" "stored bl1 s1 (key_of c) = Some ?b"
    using s1(2) outcome_unlocked [OF s1(2)] assms(3) by (simp_all add: outcome_def put_at_def)
  obtain r s2 where g: "item_get (key_of c) s1 = Some (Inr (r, s2))"
     "case live bl1 s1 (key_of c) of None \<Rightarrow> r = 0
      | Some x \<Rightarrow> \<exists>d. heap s2 r = Some d \<and> key_of d = key_of c \<and> content d = x"
    using item_get_found [OF i1(1,2), of "key_of c"] by (fastforce split: option.splits)
  have "live bl1 s1 (key_of c) = (if it_exptime c \<noteq> 0 \<and> it_exptime c \<le> clock s1 (clock_reads s1) then None
      else Some ?b)"
    using i1(3) by (simp add: live_def)
  with s1(1) g show ?thesis by (fastforce simp: content_def split: if_splits)
qed

section \<open>Closed instances\<close>

definition crlf :: "byte list" where
  "crlf = [CHR 0x0D, CHR 0x0A]"

lemma length_crlf [simp]: "length crlf = 2"
  by (simp add: crlf_def)

text \<open>A server with one key bound to a value.\<close>

lemma demo_bound:
  assumes "length v < 90000"
  obtains s fl bl K u where "mc_inv fl bl K s" "unlocked s" "roomy s" "stored bl s ''k'' = Some (v @ crlf, 0, u)"
proof -
  obtain s fl where s: "mc_inv fl (\<lambda>_. []) {} s" "stored (\<lambda>_. []) s = Map.empty" "unlocked s" "roomy s"
    by (rule demo_server)
  obtain fl1 s1 it c where s1: "mc_inv fl1 (\<lambda>_. []) {} s1" "unlocked s1" "roomy s1" "pending fl1 (\<lambda>_. []) s1 it c"
      "key_of c = ''k''" "value_of c = v @ crlf" "it_flag c = 0" "it_exptime c = 0" "it_cas c = 0"
      "stored (\<lambda>_. []) s1 = stored (\<lambda>_. []) s"
    using demo_item [OF s(1,3,4), of "v @ crlf" "''k''" 0 0 0] assms by auto
  have S: "(STORED, Some (v @ crlf, 0, last_cas_id s1 + 1)) =
      store_spec NREAD_SET (live (\<lambda>_. []) s1 (key_of c)) c True (last_cas_id s1 + 1)"
    using s1 by (simp add: store_spec_def put_binding_def linkable_def)
  obtain bl2 K2 s2 where o': "outcome (\<lambda>_. []) s1 (key_of c) (Some (v @ crlf, 0, last_cas_id s1 + 1)) fl1 bl2 K2 s2"
    using store_item_plain [OF s1(1,4,2) _ _ S] by auto
  have w: "world s1 s2" using o' by (simp add: outcome_def)
  show ?thesis
    by (rule that [of fl1 bl2 K2 s2 "last_cas_id s1 + 1"])
      (use o' s1 outcome_unlocked [OF o'] roomy_world [OF s1(3) w] in \<open>simp_all add: outcome_def put_at_def\<close>)
qed

lemma store_item_refines_witness:
  "\<exists>s it v s'. store_item NREAD_ADD it s = Some (Inr ((NOT_STORED, v), s')) \<and> unlocked s'"
proof -
  obtain s fl bl K u where s: "mc_inv fl bl K s" "unlocked s" "roomy s" "stored bl s ''k'' = Some (''ab'' @ crlf, 0, u)"
    by (rule demo_bound [of "''ab''"]) simp
  obtain fl1 s1 it c where s1: "mc_inv fl1 bl K s1" "unlocked s1" "pending fl1 bl s1 it c"
      "key_of c = ''k''" "stored bl s1 = stored bl s"
    using demo_item [OF s(1-3), of "''cd'' @ crlf" "''k''" 0 0 0] by auto
  have "live bl s1 ''k'' = Some (''ab'' @ crlf, 0, u)" using s1(5) s(4) by (simp add: live_def)
  then show ?thesis
    using store_item_refines [OF s1(1,3,2), of NREAD_ADD True] s1(4) by (auto simp: store_spec_def)
qed

lemma append_prepend_refine_witness:
  "\<exists>s it v s' bl. store_item NREAD_APPEND it s = Some (Inr ((STORED, v), s')) \<and>
     map_option fst (stored bl s' ''k'') = Some (''abcd'' @ crlf)"
proof -
  obtain s fl bl K u where s: "mc_inv fl bl K s" "unlocked s" "roomy s" "stored bl s ''k'' = Some (''ab'' @ crlf, 0, u)"
    by (rule demo_bound [of "''ab''"]) simp
  obtain fl1 s1 it c where s1: "mc_inv fl1 bl K s1" "unlocked s1" "roomy s1" "pending fl1 bl s1 it c"
      "key_of c = ''k''" "value_of c = ''cd'' @ crlf" "it_cas c = u" "stored bl s1 = stored bl s"
    using demo_item [OF s(1-3), of "''cd'' @ crlf" "''k''" 0 0 u] by auto
  have l: "live bl s1 (key_of c) = Some (''ab'' @ crlf, 0, u)" using s1(5,8) s(4) by (simp add: live_def)
  have co: "classes_ok (slab s1)" using s1(1) by (simp add: mc_inv_def base_inv_def slab_inv_def)
  have "alloc_size (length (key_of c)) (int (length (''ab'' @ crlf)) + int (length (value_of c)) - 2) = 64"
    using s1(5,6) by (simp add: alloc_size_eq)
  then have "join_room fl1 s1 (key_of c) (''ab'' @ crlf) (value_of c)"
    unfolding join_room_def by (simp add: roomy_room [OF s1(3) co])
  moreover have "\<forall>i. alloc_ok s1 i" using s1(3) by (simp add: roomy_def)
  moreover have sm: "length (''ab'' @ crlf) + length (value_of c) < 2 ^ 30" using s1(6) by simp
  moreover obtain ok st x v fl' bl' K' s' where r: "store_spec NREAD_APPEND (Some (''ab'' @ crlf, 0, u)) c ok
        (last_cas_id s1 + 1) = (st, x)" "store_item NREAD_APPEND it s1 = Some (Inr ((st, v), s'))"
      "stored bl' s' (key_of c) = x"
      "(\<forall>i. alloc_ok s1 i) \<and> join_room fl1 s1 (key_of c) (''ab'' @ crlf) (value_of c) \<longrightarrow> ok"
    using append_prepend_refine [OF s1(1,4,2) disjI1 [OF refl] l] sm by blast
  ultimately have "ok" by blast
  then have "st = STORED" "x = Some (''abcd'' @ crlf, 0, last_cas_id s1 + 1)"
    using r(1) s1(6,7) by (simp_all add: store_spec_def crlf_def)
  then show ?thesis using r(2,3) s1(5) by (intro exI [of _ s1] exI [of _ it] exI [of _ v] exI [of _ s'] exI [of _ bl']) simp
qed

lemma cas_missing_key_faults_witness:
  "\<exists>s it. unlocked s \<and> store_item NREAD_CAS it s = Some (Inl NullDeref)"
proof -
  obtain s fl where s: "mc_inv fl (\<lambda>_. []) {} s" "stored (\<lambda>_. []) s = Map.empty" "unlocked s" "roomy s"
    by (rule demo_server)
  obtain fl1 s1 it c where s1: "mc_inv fl1 (\<lambda>_. []) {} s1" "unlocked s1" "pending fl1 (\<lambda>_. []) s1 it c"
      "stored (\<lambda>_. []) s1 = stored (\<lambda>_. []) s"
    using demo_item [OF s(1,3,4), of "''ab'' @ crlf" "''k''" 0 0 0] by auto
  have "live (\<lambda>_. []) s1 (key_of c) = None" using s1(4) s(2) by (simp add: live_def)
  then show ?thesis using cas_missing_key_faults [OF s1(1,3,2)] s1(2) by blast
qed

lemma stored_but_lost_witness:
  "\<exists>s it v s'. store_item NREAD_SET it s = Some (Inr ((STORED, v), s')) \<and>
     map_option it_flag (heap s it) = Some 5"
proof -
  obtain s fl bl K u where s: "mc_inv fl bl K s" "unlocked s" "roomy s" "stored bl s ''k'' = Some (''ab'' @ crlf, 0, u)"
    by (rule demo_bound [of "''ab''"]) simp
  obtain fl1 s1 it c where s1: "mc_inv fl1 bl K s1" "unlocked s1" "pending fl1 bl s1 it c" "it_flag c = 5"
    using demo_item [OF s(1-3), of "''cd'' @ crlf" "''k''" 5 0 0] by auto
  have "it_flag c AND (ITEM_LINKED OR ITEM_SLABBED) \<noteq> 0" by (simp add: s1(4))
  then show ?thesis
    using stored_but_lost [OF s1(1,3,2)] s1(3,4) by (fastforce simp: pending_def)
qed

lemma item_get_refines_witness:
  "\<exists>s s' r c. item_get ''k'' s = Some (Inr (r, s')) \<and> heap s' r = Some c \<and> value_of c = ''ab'' @ crlf"
proof -
  obtain s fl bl K u where s: "mc_inv fl bl K s" "unlocked s" "roomy s" "stored bl s ''k'' = Some (''ab'' @ crlf, 0, u)"
    by (rule demo_bound [of "''ab''"]) simp
  have "live bl s ''k'' = Some (''ab'' @ crlf, 0, u)" using s(4) by (simp add: live_def)
  then show ?thesis using item_get_refines [OF s(1,2), of "''k''"] by fastforce
qed

lemma get_after_set_witness:
  "\<exists>s it v s1 r s2 d. store_item NREAD_SET it s = Some (Inr ((STORED, v), s1)) \<and>
     item_get ''k'' s1 = Some (Inr (r, s2)) \<and> heap s2 r = Some d \<and> value_of d = ''cd'' @ crlf"
proof -
  obtain s fl bl K u where s: "mc_inv fl bl K s" "unlocked s" "roomy s" "stored bl s ''k'' = Some (''ab'' @ crlf, 0, u)"
    by (rule demo_bound [of "''ab''"]) simp
  obtain fl1 s1 it c where s1: "mc_inv fl1 bl K s1" "unlocked s1" "pending fl1 bl s1 it c" "key_of c = ''k''"
      "value_of c = ''cd'' @ crlf" "it_flag c = 0" "it_exptime c = 0"
    using demo_item [OF s(1-3), of "''cd'' @ crlf" "''k''" 0 0 0] by auto
  show ?thesis using get_after_set [OF s1(1,3,2)] s1(4-7) by fastforce
qed

end
