(* ===== verification/Dispatch.thy ===== *)
theory Dispatch
  imports Machine
begin

text \<open>
  From the listening thread to the workers: the states of a connection (conn.h), the element of
  the hand-over queue and its dispatch (conn.cpp), the queue itself (threadsafe_queue.h), the
  worker threads (thread.cpp) and their start (memcached.cpp). Accepting a connection and a
  worker serving its pipe are the steps of a transition system.
\<close>

section \<open>The states of a connection\<close>

datatype conn_states =
    conn_listening | conn_parse_cmd | conn_waiting | conn_read | conn_write | conn_nread | conn_closed

text \<open>The numbers the compiler gives the enumeration, and their order.\<close>

fun state_number :: "conn_states \<Rightarrow> nat" where
  "state_number conn_listening = 0"
| "state_number conn_parse_cmd = 1"
| "state_number conn_waiting = 2"
| "state_number conn_read = 3"
| "state_number conn_write = 4"
| "state_number conn_nread = 5"
| "state_number conn_closed = 6"

lemma state_number_inj: "state_number a = state_number b \<Longrightarrow> a = b"
  by (cases a; cases b) simp_all

instantiation conn_states :: linorder
begin

definition less_eq_conn_states :: "conn_states \<Rightarrow> conn_states \<Rightarrow> bool" where
  "less_eq_conn_states a b \<longleftrightarrow> state_number a \<le> state_number b"

definition less_conn_states :: "conn_states \<Rightarrow> conn_states \<Rightarrow> bool" where
  "less_conn_states a b \<longleftrightarrow> state_number a < state_number b"

instance
  by standard (auto simp: less_eq_conn_states_def less_conn_states_def intro: state_number_inj)

end

section \<open>The thread-safe queue\<close>

record 'a threadsafe_queue =
  data_queue :: "'a list"
  mut :: bool

definition tsq_empty :: "'a threadsafe_queue" where
  "tsq_empty = \<lparr> data_queue = [], mut = False \<rparr>"

definition lock_mut :: "('a threadsafe_queue, unit) prog" where
  "lock_mut = bnd (gets mut) (\<lambda>held. if held then never else modify (\<lambda>q. q\<lparr>mut := True\<rparr>))"

definition unlock_mut :: "('a threadsafe_queue, unit) prog" where
  "unlock_mut = bnd (gets mut) (\<lambda>held.
     if held then modify (\<lambda>q. q\<lparr>mut := False\<rparr>) else fail UnlockNotHeld)"

interpretation queue_mutex: mutex "lock_mut :: ('a threadsafe_queue, unit) prog" unlock_mut
    "\<lambda>_. True" mut "\<lambda>q. q\<lparr>mut := True\<rparr>" "\<lambda>q. q\<lparr>mut := False\<rparr>"
  by unfold_locales (auto simp: lock_mut_def unlock_mut_def prog_defs)

definition tsq_push :: "'a \<Rightarrow> ('a threadsafe_queue, unit) prog" where
  "tsq_push v = seqs [lock_mut, modify (\<lambda>q. q\<lparr>data_queue := data_queue q @ [v]\<rparr>), unlock_mut]"

text \<open>\<open>wait_and_pop\<close> on an empty queue waits for a push by another thread.\<close>

definition wait_and_pop :: "('a threadsafe_queue, 'a) prog" where
  "wait_and_pop = thn lock_mut (bnd (gets data_queue) (\<lambda>xs. case xs of
       [] \<Rightarrow> never
     | x # ys \<Rightarrow> thn (modify (\<lambda>q. q\<lparr>data_queue := ys\<rparr>)) (thn unlock_mut (ret x))))"

definition try_pop :: "('a threadsafe_queue, 'a option) prog" where
  "try_pop = thn lock_mut (bnd (gets data_queue) (\<lambda>xs. case xs of
       [] \<Rightarrow> thn unlock_mut (ret None)
     | x # ys \<Rightarrow> thn (modify (\<lambda>q. q\<lparr>data_queue := ys\<rparr>)) (thn unlock_mut (ret (Some x)))))"

definition tsq_is_empty :: "('a threadsafe_queue, bool) prog" where
  "tsq_is_empty = thn lock_mut (bnd (gets data_queue) (\<lambda>xs. thn unlock_mut (ret (xs = []))))"

text \<open>The copy constructor: the elements of the other queue, and a mutex of its own.\<close>

definition tsq_copy :: "'a threadsafe_queue \<Rightarrow> 'a threadsafe_queue" where
  "tsq_copy other = \<lparr> data_queue = data_queue other, mut = False \<rparr>"

section \<open>The contract of the queue\<close>

text \<open>
  What the dispatch relies on: a queue whose contents are a list, to whose end a push adds and
  from whose front a pop takes; a pop of an empty queue waits.
\<close>

locale fifo =
  fixes idle :: "'q \<Rightarrow> bool" and elems :: "'q \<Rightarrow> 'a list"
    and push :: "'a \<Rightarrow> ('q, unit) prog" and pop :: "('q, 'a) prog"
  assumes push_law: "idle q \<Longrightarrow> \<exists>q'. push x q = Some (Inr ((), q')) \<and> idle q' \<and> elems q' = elems q @ [x]"
    and pop_law: "idle q \<Longrightarrow> elems q = x # xs \<Longrightarrow>
      \<exists>q'. pop q = Some (Inr (x, q')) \<and> idle q' \<and> elems q' = xs"
    and pop_waits: "idle q \<Longrightarrow> elems q = [] \<Longrightarrow> pop q = None"
begin

fun push_all :: "'a list \<Rightarrow> ('q, unit) prog" where
  "push_all [] = ret ()"
| "push_all (x # xs) = thn (push x) (push_all xs)"

fun pop_many :: "nat \<Rightarrow> ('q, 'a list) prog" where
  "pop_many 0 = ret []"
| "pop_many (Suc n) = bnd pop (\<lambda>x. bnd (pop_many n) (\<lambda>xs. ret (x # xs)))"

lemma push_all_elems:
  "idle q \<Longrightarrow> \<exists>q'. push_all xs q = Some (Inr ((), q')) \<and> idle q' \<and> elems q' = elems q @ xs"
proof (induction xs arbitrary: q)
  case Nil
  then show ?case by (auto simp: ret_def)
next
  case (Cons x xs)
  obtain q1 where q1: "push x q = Some (Inr ((), q1))" "idle q1" "elems q1 = elems q @ [x]"
    using push_law [OF Cons.prems] by blast
  from Cons.IH [OF q1(2)] q1 show ?case by (auto simp: thn_def bnd_def)
qed

lemma pop_many_elems:
  "idle q \<Longrightarrow> elems q = xs @ ys \<Longrightarrow>
   \<exists>q'. pop_many (length xs) q = Some (Inr (xs, q')) \<and> idle q' \<and> elems q' = ys"
proof (induction xs arbitrary: q)
  case Nil
  then show ?case by (auto simp: ret_def)
next
  case (Cons x xs)
  obtain q1 where q1: "pop q = Some (Inr (x, q1))" "idle q1" "elems q1 = xs @ ys"
    using pop_law [OF Cons.prems(1), of x "xs @ ys"] Cons.prems(2) by auto
  from Cons.IH [OF q1(2,3)] q1 show ?case by (auto simp: bnd_def ret_def)
qed

text \<open>First in, first out, and one pop more waits.\<close>

lemma fifo_order:
  assumes "idle q" and "elems q = []"
  shows "\<exists>q'. thn (push_all xs) (pop_many (length xs)) q = Some (Inr (xs, q')) \<and> idle q' \<and>
     elems q' = [] \<and> pop q' = None"
proof -
  obtain q1 where q1: "push_all xs q = Some (Inr ((), q1))" "idle q1" "elems q1 = xs @ []"
    using push_all_elems [OF assms(1), of xs] assms(2) by auto
  obtain q2 where q2: "pop_many (length xs) q1 = Some (Inr (xs, q2))" "idle q2" "elems q2 = []"
    using pop_many_elems [OF q1(2,3)] by blast
  show ?thesis using q1(1) q2 pop_waits [OF q2(2,3)] by (auto simp: thn_def bnd_def)
qed

end

lemma tsq_push_run: "\<not> mut q \<Longrightarrow>
    tsq_push v q = Some (Inr ((), q\<lparr>data_queue := data_queue q @ [v]\<rparr>))"
  by (cases q) (simp add: tsq_push_def lock_mut_def unlock_mut_def seqs.simps prog_defs)

lemma wait_and_pop_run: "\<not> mut q \<Longrightarrow> wait_and_pop q = (case data_queue q of [] \<Rightarrow> None
    | x # xs \<Rightarrow> Some (Inr (x, q\<lparr>data_queue := xs\<rparr>)))"
  by (cases q) (simp add: wait_and_pop_def lock_mut_def unlock_mut_def prog_defs split: list.splits)

lemma try_pop_run: "\<not> mut q \<Longrightarrow> try_pop q = (case data_queue q of [] \<Rightarrow> Some (Inr (None, q))
    | x # xs \<Rightarrow> Some (Inr (Some x, q\<lparr>data_queue := xs\<rparr>)))"
  by (cases q) (simp add: try_pop_def lock_mut_def unlock_mut_def prog_defs split: list.splits)

lemma tsq_is_empty_run: "\<not> mut q \<Longrightarrow> tsq_is_empty q = Some (Inr (data_queue q = [], q))"
  by (cases q) (simp add: tsq_is_empty_def lock_mut_def unlock_mut_def prog_defs)

interpretation tsq: fifo "\<lambda>q. \<not> mut q" data_queue tsq_push "wait_and_pop :: ('a threadsafe_queue, 'a) prog"
  by unfold_locales (simp_all add: tsq_push_run wait_and_pop_run)

section \<open>Workers and dispatch\<close>

text \<open>\<open>class Item\<close>: what the listening thread hands over. Event loops are numbered.\<close>

record conn_item =
  item_loop :: nat
  item_sfd :: int
  item_state :: conn_states
  item_evflag :: int

definition make_item :: "nat \<Rightarrow> int \<Rightarrow> conn_states \<Rightarrow> int \<Rightarrow> conn_item" where
  "make_item loop socketfd state_init event_flag = \<lparr> item_loop = loop, item_sfd = socketfd,
     item_state = state_init, item_evflag = event_flag \<rparr>"

text \<open>\<open>Item::operator=\<close> copies the four fields.\<close>

definition item_assign :: "conn_item \<Rightarrow> conn_item \<Rightarrow> conn_item" where
  "item_assign this other = this\<lparr> item_sfd := item_sfd other, item_state := item_state other,
     item_evflag := item_evflag other, item_loop := item_loop other \<rparr>"

lemma item_assign_copies [simp]: "item_assign this other = other"
  by (simp add: item_assign_def)

text \<open>
  A worker: its event loop, its queue, the connections it has created (oldest first) and
  whether it waits inside \<open>wait_and_pop\<close>. All workers read the one pipe of the dispatcher.
\<close>

record worker =
  w_loop :: nat
  item_queue :: "conn_item threadsafe_queue"
  w_conns :: "conn_item list"
  w_waits :: bool

record dispatcher =
  workthreads :: "worker list"
  last_threadid :: int
  d_num_threads :: int
  pipe :: "byte list"
  next_loop :: nat

definition new_worker :: worker where
  "new_worker = \<lparr> w_loop = 0, item_queue = tsq_empty, w_conns = [], w_waits = False \<rparr>"

text \<open>\<open>main_ev_init\<close> and \<open>setup_thread\<close> make event loops; \<open>work_libev\<close> then starts a thread
  that runs the loop of its worker.\<close>

definition setup_thread :: "nat \<Rightarrow> (dispatcher, unit) prog" where
  "setup_thread i = modify (\<lambda>d. d\<lparr>
     workthreads := (workthreads d)[i := (workthreads d ! i)\<lparr>w_loop := next_loop d\<rparr>],
     next_loop := Suc (next_loop d)\<rparr>)"

definition main_ev_init :: "(dispatcher, nat) prog" where
  "main_ev_init = bnd (gets next_loop) (\<lambda>l.
     thn (modify (\<lambda>d. d\<lparr>next_loop := Suc (next_loop d)\<rparr>)) (ret l))"

fun setup_all :: "nat list \<Rightarrow> (dispatcher, unit) prog" where
  "setup_all [] = ret ()"
| "setup_all (i # is) = thn (setup_thread i) (setup_all is)"

definition thread_init :: "int \<Rightarrow> bool \<Rightarrow> (dispatcher, unit) prog" where
  "thread_init num_worker_thread pipe_ok = seqs [
     modify (\<lambda>d. d\<lparr>workthreads := workthreads d @ replicate (nat num_worker_thread) new_worker\<rparr>),
     if pipe_ok then modify (\<lambda>d. d\<lparr>pipe := []\<rparr>) else fail (ExitProcess 1),
     bnd (gets (\<lambda>d. length (workthreads d))) (\<lambda>n. setup_all [0..<n])]"

text \<open>The globals \<open>workthreads\<close> and \<open>last_threadid\<close> as they are defined.\<close>

definition dispatcher_init :: dispatcher where
  "dispatcher_init = \<lparr> workthreads = [], last_threadid = - 1, d_num_threads = 4, pipe = [], next_loop = 0 \<rparr>"

definition on_queue :: "nat \<Rightarrow> (conn_item threadsafe_queue, 'a) prog \<Rightarrow> (dispatcher, 'a) prog" where
  "on_queue i m = (\<lambda>d. if i < length (workthreads d) then
       (case m (item_queue (workthreads d ! i)) of None \<Rightarrow> None | Some (Inl e) \<Rightarrow> Some (Inl e)
        | Some (Inr (x, q)) \<Rightarrow> Some (Inr (x, d\<lparr>workthreads := (workthreads d)
            [i := (workthreads d ! i)\<lparr>item_queue := q\<rparr>]\<rparr>)))
     else Some (Inl (IndexOutOfRange i)))"

text \<open>The remainder of C, whose sign is that of the dividend.\<close>

definition c_mod :: "int \<Rightarrow> int \<Rightarrow> int" where
  "c_mod a b = (if a < 0 then - ((- a) mod \<bar>b\<bar>) else a mod \<bar>b\<bar>)"

definition dispatch_conn_new :: "int \<Rightarrow> conn_states \<Rightarrow> int \<Rightarrow> (dispatcher, unit) prog" where
  "dispatch_conn_new sfd new_state event_flag = bnd (gets last_threadid) (\<lambda>last.
     bnd (gets d_num_threads) (\<lambda>n.
     let threadid = nat (c_mod (last + 1) n) in
     bnd (gets workthreads) (\<lambda>ws. bnd (idx ws threadid) (\<lambda>w. seqs [
       on_queue threadid (tsq_push (make_item (w_loop w) sfd new_state event_flag)),
       modify (\<lambda>d. d\<lparr>pipe := pipe d @ ''c''\<rparr>)]))))"

text \<open>
  A worker serves the pipe: it takes one byte, and for a \<open>c\<close> an item from its own queue, from
  which it makes a connection.
\<close>

definition read_pipe :: "(dispatcher, byte) prog" where
  "read_pipe = bnd (gets pipe) (\<lambda>bs. case bs of [] \<Rightarrow> never
     | b # bs' \<Rightarrow> thn (modify (\<lambda>d. d\<lparr>pipe := bs'\<rparr>)) (ret b))"

definition thread_libev_process :: "nat \<Rightarrow> (dispatcher, unit) prog" where
  "thread_libev_process i = bnd read_pipe (\<lambda>b.
     whenP (b = CHR ''c'') (bnd (on_queue i wait_and_pop) (\<lambda>item.
       modify (\<lambda>d. d\<lparr>workthreads := (workthreads d)
         [i := (workthreads d ! i)\<lparr>w_conns := w_conns (workthreads d ! i) @ [item]\<rparr>]\<rparr>))))"

text \<open>
  The runs: a connection is accepted (its socket is \<open>fd\<close>), or a worker that is not waiting is
  woken by the pipe and serves it, or finds its queue empty and waits for ever inside the call.
\<close>

definition EV_READ :: int where "EV_READ = 1"
definition EV_WRITE :: int where "EV_WRITE = 2"

inductive dispatch_run :: "dispatcher \<Rightarrow> int list \<Rightarrow> dispatcher \<Rightarrow> bool" for d0 where
  start: "dispatch_run d0 [] d0"
| accept: "dispatch_run d0 fds d \<Longrightarrow> dispatch_conn_new fd conn_read EV_READ d = Some (Inr ((), d')) \<Longrightarrow>
    dispatch_run d0 (fds @ [fd]) d'"
| serve: "dispatch_run d0 fds d \<Longrightarrow> i < length (workthreads d) \<Longrightarrow> \<not> w_waits (workthreads d ! i) \<Longrightarrow>
    thread_libev_process i d = Some (Inr ((), d')) \<Longrightarrow> dispatch_run d0 fds d'"
| stuck: "dispatch_run d0 fds d \<Longrightarrow> i < length (workthreads d) \<Longrightarrow> \<not> w_waits (workthreads d ! i) \<Longrightarrow>
    pipe d = CHR ''c'' # bs \<Longrightarrow> data_queue (item_queue (workthreads d ! i)) = [] \<Longrightarrow>
    dispatch_run d0 fds (d\<lparr>pipe := bs, workthreads := (workthreads d)
      [i := (workthreads d ! i)\<lparr>w_waits := True\<rparr>]\<rparr>)"

section \<open>What holds in every run\<close>

text \<open>The state after \<open>main_ev_init\<close> and \<open>thread_init\<close>.\<close>

definition started :: "int \<Rightarrow> dispatcher" where
  "started n = dispatcher_init\<lparr> d_num_threads := n,
     workthreads := map (\<lambda>i. new_worker\<lparr>w_loop := Suc i\<rparr>) [0..<nat n], next_loop := Suc (nat n)\<rparr>"

lemma setup_all_run:
  "k \<le> n \<Longrightarrow> length (workthreads d) = n \<Longrightarrow> setup_all [k..<n] d = Some (Inr ((), d\<lparr>
     workthreads := take k (workthreads d) @
       map (\<lambda>i. (workthreads d ! i)\<lparr>w_loop := next_loop d + i - k\<rparr>) [k..<n],
     next_loop := next_loop d + n - k\<rparr>))"
proof (induction "n - k" arbitrary: k d)
  case 0
  then show ?case by (simp add: ret_def)
next
  case (Suc m)
  let ?w = "(workthreads d ! k)\<lparr>w_loop := next_loop d\<rparr>"
  let ?d = "d\<lparr>workthreads := (workthreads d)[k := ?w], next_loop := Suc (next_loop d)\<rparr>"
  have k: "k < n" "m = n - Suc k" using Suc.hyps(2) by simp_all
  have split: "[k..<n] = k # [Suc k..<n]" using k(1) by (simp add: upt_conv_Cons)
  have "setup_all [k..<n] d = setup_all [Suc k..<n] ?d"
    unfolding split by (simp add: setup_thread_def modify_def thn_def bnd_def)
  also have "\<dots> = Some (Inr ((), ?d\<lparr>
     workthreads := take (Suc k) (workthreads ?d) @
       map (\<lambda>i. (workthreads ?d ! i)\<lparr>w_loop := next_loop ?d + i - Suc k\<rparr>) [Suc k..<n],
     next_loop := next_loop ?d + n - Suc k\<rparr>))"
    by (rule Suc.hyps(1) [OF k(2)]) (use k(1) Suc.prems in simp_all)
  also have "\<dots> = Some (Inr ((), d\<lparr>
     workthreads := take k (workthreads d) @
       map (\<lambda>i. (workthreads d ! i)\<lparr>w_loop := next_loop d + i - k\<rparr>) [k..<n],
     next_loop := next_loop d + n - k\<rparr>))"
    using k(1) Suc.prems(2) by (simp add: split take_Suc_conv_app_nth list_update_append nth_list_update cong: map_cong)
  finally show ?case .
qed

lemma start_run:
  "bnd main_ev_init (\<lambda>l. thread_init n True) (dispatcher_init\<lparr>d_num_threads := n\<rparr>) =
     Some (Inr ((), started n))"
proof -
  let ?d = "dispatcher_init\<lparr>d_num_threads := n, next_loop := 1, workthreads := replicate (nat n) new_worker\<rparr>"
  have "bnd main_ev_init (\<lambda>l. thread_init n True) (dispatcher_init\<lparr>d_num_threads := n\<rparr>) =
      setup_all [0..<nat n] ?d"
    by (simp add: main_ev_init_def thread_init_def seqs_run seqs_single gets_def modify_def ret_def thn_run bnd_run
        dispatcher_init_def)
  also have "\<dots> = Some (Inr ((), started n))"
    using setup_all_run [of 0 "nat n" ?d]
    by (simp add: started_def dispatcher_init_def cong: map_cong)
  finally show ?thesis .
qed

text \<open>\<open>last_threadid\<close> is never written, so that every connection goes to the first worker.\<close>

definition only_first :: "dispatcher \<Rightarrow> bool" where
  "only_first d \<longleftrightarrow> last_threadid d = - 1 \<and> 0 < d_num_threads d \<and> workthreads d \<noteq> [] \<and>
     list_all (\<lambda>w. \<not> mut (item_queue w)) (workthreads d) \<and>
     list_all (\<lambda>w. data_queue (item_queue w) = [] \<and> w_conns w = []) (tl (workthreads d))"

text \<open>The connections accepted are those the first worker has made and those in its queue, in the
  order in which they were accepted; there is at most one byte in the pipe for each in the queue.\<close>

definition handed :: "dispatcher \<Rightarrow> int list" where
  "handed d = map item_sfd (w_conns (hd (workthreads d)) @ data_queue (item_queue (hd (workthreads d))))"

lemma dispatch_run_first:
  assumes "only_first d"
  shows "dispatch_conn_new fd st ev d = Some (Inr ((), d\<lparr>
     workthreads := (workthreads d)[0 := (hd (workthreads d))\<lparr>item_queue := (item_queue (hd (workthreads d)))
       \<lparr>data_queue := data_queue (item_queue (hd (workthreads d))) @
          [make_item (w_loop (hd (workthreads d))) fd st ev]\<rparr>\<rparr>],
     pipe := pipe d @ ''c''\<rparr>))"
proof -
  have ws: "workthreads d \<noteq> []" "\<not> mut (item_queue (hd (workthreads d)))" "nat (c_mod (last_threadid d + 1) (d_num_threads d)) = 0"
    using assms by (cases "workthreads d"; simp add: only_first_def c_mod_def)+
  then have h: "workthreads d ! 0 = hd (workthreads d)" by (simp add: hd_conv_nth)
  show ?thesis
    using ws by (simp add: dispatch_conn_new_def gets_def idx_def bnd_def ret_def Let_def h seqs.simps thn_def
      on_queue_def tsq_push_run modify_def)
qed

lemma serve_run:
  assumes "list_all (\<lambda>w. \<not> mut (item_queue w)) (workthreads d)" and "i < length (workthreads d)"
  shows "thread_libev_process i d = (case pipe d of [] \<Rightarrow> None | b # bs \<Rightarrow>
     if b \<noteq> CHR ''c'' then Some (Inr ((), d\<lparr>pipe := bs\<rparr>))
     else case data_queue (item_queue (workthreads d ! i)) of [] \<Rightarrow> None
       | x # xs \<Rightarrow> Some (Inr ((), d\<lparr>pipe := bs, workthreads := (workthreads d)
           [i := (workthreads d ! i)\<lparr>item_queue := (item_queue (workthreads d ! i))\<lparr>data_queue := xs\<rparr>,
              w_conns := w_conns (workthreads d ! i) @ [x]\<rparr>]\<rparr>)))"
proof -
  have "\<not> mut (item_queue (workthreads d ! i))" using assms by (simp add: list_all_length)
  then show ?thesis
    using assms(2)
    by (simp add: thread_libev_process_def read_pipe_def bnd_def thn_def gets_def modify_def ret_def never_def
        whenP_def on_queue_def wait_and_pop_run split: list.splits)
qed

lemma only_first_queue:
  assumes "only_first d" and "i < length (workthreads d)" and "0 < i"
  shows "data_queue (item_queue (workthreads d ! i)) = []" "w_conns (workthreads d ! i) = []"
proof -
  obtain j where j: "i = Suc j" using assms(3) by (cases i) auto
  have "workthreads d ! i = tl (workthreads d) ! j" "j < length (tl (workthreads d))"
    using assms(1,2) j by (simp_all add: nth_tl only_first_def)
  then show "data_queue (item_queue (workthreads d ! i)) = []" "w_conns (workthreads d ! i) = []"
    using assms(1) by (simp_all add: only_first_def list_all_length)
qed

lemma only_first_update0:
  assumes "only_first d" and "\<not> mut (item_queue w)"
  shows "only_first (d\<lparr>workthreads := (workthreads d)[0 := w], pipe := bs\<rparr>)"
    and "only_first (d\<lparr>pipe := bs, workthreads := (workthreads d)[0 := w]\<rparr>)"
  using assms by (cases "workthreads d"; simp add: only_first_def)+

lemma only_first_started: "0 < n \<Longrightarrow> only_first (started n)"
  by (auto simp: only_first_def started_def dispatcher_init_def new_worker_def tsq_empty_def list_all_length nth_tl)

lemma hd_update0 [simp]: "xs \<noteq> [] \<Longrightarrow> hd (xs[0 := x]) = x"
  by (cases xs) simp_all

lemma serve_cases:
  assumes f: "only_first d" and i: "i < length (workthreads d)"
    and run: "thread_libev_process i d = Some (Inr ((), d'))"
  obtains b bs where "pipe d = b # bs" "b \<noteq> CHR ''c''" "d' = d\<lparr>pipe := bs\<rparr>"
  | bs x xs where "i = 0" "pipe d = CHR ''c'' # bs" "data_queue (item_queue (hd (workthreads d))) = x # xs"
      "d' = d\<lparr>workthreads := (workthreads d)[0 := (hd (workthreads d))\<lparr>
          item_queue := (item_queue (hd (workthreads d)))\<lparr>data_queue := xs\<rparr>,
          w_conns := w_conns (hd (workthreads d)) @ [x]\<rparr>], pipe := bs\<rparr>"
proof -
  have m: "list_all (\<lambda>w. \<not> mut (item_queue w)) (workthreads d)" "workthreads d \<noteq> []"
    using f by (simp_all add: only_first_def)
  note r = serve_run [OF m(1) i]
  obtain b bs where p: "pipe d = b # bs" using run r by (cases "pipe d") auto
  show ?thesis
  proof (cases "b = CHR ''c''")
    case False
    then show ?thesis using that(1) [OF p] run r p by auto
  next
    case True
    obtain x xs where q: "data_queue (item_queue (workthreads d ! i)) = x # xs"
      using run r p True by (cases "data_queue (item_queue (workthreads d ! i))") auto
    then have i0: "i = 0" using only_first_queue(1) [OF f i] by (cases i) auto
    have h: "workthreads d ! 0 = hd (workthreads d)" using m(2) by (simp add: hd_conv_nth)
    have "d' = d\<lparr>pipe := bs, workthreads := (workthreads d)[0 := (hd (workthreads d))\<lparr>
          item_queue := (item_queue (hd (workthreads d)))\<lparr>data_queue := xs\<rparr>,
          w_conns := w_conns (hd (workthreads d)) @ [x]\<rparr>]\<rparr>"
      using run r p True q i0 h by auto
    then show ?thesis using that(2) [OF i0] p True q i0 h by simp
  qed
qed

lemma run_only_first:
  assumes "dispatch_run (started n) fds d" and n: "0 < n"
  shows "only_first d \<and> handed d = fds"
  using assms(1)
proof induction
  case start
  have "workthreads (started n) \<noteq> []" using n by (simp add: started_def)
  then show ?case
    using only_first_started [OF n] n
    by (simp add: handed_def started_def hd_map new_worker_def tsq_empty_def)
next
  case (accept fds d fd d')
  then have f: "only_first d" and h: "handed d = fds" by simp_all
  have ws: "workthreads d \<noteq> []" "\<not> mut (item_queue (hd (workthreads d)))"
    using f by (cases "workthreads d"; simp add: only_first_def)+
  have d': "d' = d\<lparr>
     workthreads := (workthreads d)[0 := (hd (workthreads d))\<lparr>item_queue := (item_queue (hd (workthreads d)))
       \<lparr>data_queue := data_queue (item_queue (hd (workthreads d))) @
          [make_item (w_loop (hd (workthreads d))) fd conn_read EV_READ]\<rparr>\<rparr>],
     pipe := pipe d @ ''c''\<rparr>"
    using accept.hyps(2) dispatch_run_first [OF f] by simp
  have "only_first d'" unfolding d' by (rule only_first_update0(1) [OF f]) (use ws in simp)
  moreover have "handed d' = fds @ [fd]"
    using h ws(1) by (simp add: d' handed_def make_item_def)
  ultimately show ?case by simp
next
  case (serve fds d i d')
  then have f: "only_first d" and h: "handed d = fds" by simp_all
  have ws: "workthreads d \<noteq> []" "\<not> mut (item_queue (hd (workthreads d)))"
    using f by (cases "workthreads d"; simp add: only_first_def)+
  from f serve.hyps(2,4) show ?case
  proof (cases rule: serve_cases)
    case (1 b bs)
    then show ?thesis using f h by (simp add: only_first_def handed_def)
  next
    case (2 bs x xs)
    have "only_first d'" unfolding 2(4) by (rule only_first_update0(1) [OF f]) (use ws in simp)
    moreover have "handed d' = fds" using h ws(1) 2(3) by (simp add: 2(4) handed_def)
    ultimately show ?thesis by simp
  qed
next
  case (stuck fds d i bs)
  then have f: "only_first d" and h: "handed d = fds" by simp_all
  let ?d = "d\<lparr>pipe := bs, workthreads := (workthreads d)[i := (workthreads d ! i)\<lparr>w_waits := True\<rparr>]\<rparr>"
  have m: "list_all (\<lambda>w. \<not> mut (item_queue w)) (workthreads d)" "workthreads d \<noteq> []"
    using f by (simp_all add: only_first_def)
  have mi: "\<not> mut (item_queue (workthreads d ! i))" using m(1) stuck.hyps(2) by (simp add: list_all_length)
  show ?case
  proof (cases i)
    case 0
    have hd0: "workthreads d ! 0 = hd (workthreads d)" using m(2) by (simp add: hd_conv_nth)
    have "only_first (d\<lparr>pipe := bs, workthreads := (workthreads d)[0 := (hd (workthreads d))\<lparr>w_waits := True\<rparr>]\<rparr>)"
      by (rule only_first_update0(2) [OF f]) (use mi 0 hd0 in simp)
    then show ?thesis using h m(2) by (simp add: 0 hd0 handed_def)
  next
    case (Suc j)
    have "list_all (\<lambda>w. \<not> mut (item_queue w)) ((workthreads d)[i := (workthreads d ! i)\<lparr>w_waits := True\<rparr>])"
      using m(1) mi stuck.hyps(2) by (auto simp: list_all_length nth_list_update)
    moreover have "tl ((workthreads d)[i := w]) = (tl (workthreads d))[j := w]" "hd ((workthreads d)[i := w]) = hd (workthreads d)" for w
      using m(2) Suc by (cases "workthreads d"; simp)+
    moreover have "list_all (\<lambda>w. data_queue (item_queue w) = [] \<and> w_conns w = [])
        ((tl (workthreads d))[j := (workthreads d ! i)\<lparr>w_waits := True\<rparr>])"
      using f only_first_queue [OF f stuck.hyps(2)] Suc stuck.hyps(2)
      by (auto simp: only_first_def list_all_length nth_list_update)
    ultimately show ?thesis using f h m(2) by (simp add: only_first_def handed_def)
  qed
qed

section \<open>The one worker of the program\<close>

definition in_step :: "dispatcher \<Rightarrow> bool" where
  "in_step d \<longleftrightarrow> length (workthreads d) = 1 \<and> \<not> w_waits (hd (workthreads d)) \<and>
     pipe d = replicate (length (data_queue (item_queue (hd (workthreads d))))) (CHR ''c'')"

lemma run_in_step: "dispatch_run (started 1) fds d \<Longrightarrow> in_step d"
proof (induction rule: dispatch_run.induct)
  case start
  show ?case by (simp add: in_step_def started_def dispatcher_init_def new_worker_def tsq_empty_def)
next
  case (accept fds d fd d')
  then have f: "only_first d" using run_only_first by simp
  have ws: "workthreads d \<noteq> []" using f by (simp add: only_first_def)
  have "d' = d\<lparr>
     workthreads := (workthreads d)[0 := (hd (workthreads d))\<lparr>item_queue := (item_queue (hd (workthreads d)))
       \<lparr>data_queue := data_queue (item_queue (hd (workthreads d))) @
          [make_item (w_loop (hd (workthreads d))) fd conn_read EV_READ]\<rparr>\<rparr>],
     pipe := pipe d @ ''c''\<rparr>"
    using accept.hyps(2) dispatch_run_first [OF f] by simp
  then show ?case using accept.IH ws by (simp add: in_step_def replicate_append_same)
next
  case (serve fds d i d')
  then have f: "only_first d" using run_only_first by simp
  have ws: "workthreads d \<noteq> []" using f by (simp add: only_first_def)
  from f serve.hyps(2,4) show ?case
  proof (cases rule: serve_cases)
    case (1 b bs)
    then have "b \<in> set (pipe d)" by simp
    then show ?thesis using serve.IH 1(2) by (simp add: in_step_def)
  next
    case (2 bs x xs)
    then show ?thesis using serve.IH ws by (simp add: in_step_def)
  qed
next
  case (stuck fds d i bs)
  then have "i = 0" "workthreads d \<noteq> []" by (auto simp: in_step_def)
  then have "data_queue (item_queue (hd (workthreads d))) = []" using stuck.hyps(5) by (simp add: hd_conv_nth)
  then show ?case using stuck.IH stuck.hyps(4) by (simp add: in_step_def)
qed

lemma serve_one:
  assumes run: "dispatch_run (started 1) fds d" and q: "data_queue (item_queue (hd (workthreads d))) = x # xs"
  shows "\<exists>d'. thread_libev_process 0 d = Some (Inr ((), d')) \<and> dispatch_run (started 1) fds d' \<and>
     data_queue (item_queue (hd (workthreads d'))) = xs"
proof -
  have f: "only_first d" "in_step d" using run_only_first [OF run] run_in_step [OF run] by simp_all
  have l: "0 < length (workthreads d)" "workthreads d \<noteq> []" "workthreads d ! 0 = hd (workthreads d)"
    using f(2) by (cases "workthreads d"; simp add: in_step_def)+
  have m: "list_all (\<lambda>w. \<not> mut (item_queue w)) (workthreads d)" using f(1) by (simp add: only_first_def)
  have p: "pipe d = CHR ''c'' # replicate (length xs) (CHR ''c'')" using f(2) q by (simp add: in_step_def)
  let ?d = "d\<lparr>pipe := replicate (length xs) (CHR ''c''),
      workthreads := (workthreads d)[0 := (hd (workthreads d))\<lparr>item_queue :=
         (item_queue (hd (workthreads d)))\<lparr>data_queue := xs\<rparr>, w_conns := w_conns (hd (workthreads d)) @ [x]\<rparr>]\<rparr>"
  have t: "thread_libev_process 0 d = Some (Inr ((), ?d))"
    using serve_run [OF m l(1)] p q l(3) by simp
  have "\<not> w_waits (workthreads d ! 0)" using f(2) l(3) by (simp add: in_step_def)
  with t have "dispatch_run (started 1) fds ?d" using dispatch_run.serve [OF run l(1)] by blast
  with t l(2) show ?thesis by (intro exI [of _ ?d]) simp
qed

lemma serve_all:
  assumes "dispatch_run (started 1) fds d"
  shows "\<exists>d'. seqs (replicate (length (data_queue (item_queue (hd (workthreads d))))) (thread_libev_process 0)) d =
      Some (Inr ((), d')) \<and> dispatch_run (started 1) fds d' \<and> data_queue (item_queue (hd (workthreads d'))) = []"
  using assms
proof (induction "data_queue (item_queue (hd (workthreads d)))" arbitrary: d)
  case Nil
  then show ?case by (intro exI [of _ d]) (simp add: seqs_done)
next
  case (Cons x xs)
  obtain d1 where d1: "thread_libev_process 0 d = Some (Inr ((), d1))" "dispatch_run (started 1) fds d1"
      "data_queue (item_queue (hd (workthreads d1))) = xs"
    using serve_one [OF Cons.prems Cons.hyps(2) [symmetric]] by blast
  from Cons.hyps(1) [OF d1(3) [symmetric] d1(2)] obtain d' where
    "seqs (replicate (length xs) (thread_libev_process 0)) d1 = Some (Inr ((), d'))" "dispatch_run (started 1) fds d'"
    "data_queue (item_queue (hd (workthreads d'))) = []"
    unfolding d1(3) by blast
  moreover have "seqs (replicate (length (x # xs)) (thread_libev_process 0)) d =
      seqs (replicate (length xs) (thread_libev_process 0)) d1"
    using seqs_run [of "thread_libev_process 0" d, OF d1(1)] by simp
  ultimately show ?case unfolding Cons.hyps(2) [symmetric] by auto
qed

section \<open>Properties\<close>

text \<open>C20: With the one worker \<open>main\<close> configures, no connection is lost, duplicated or overtaken: in
  every run the connections the worker has made, followed by those in its queue, are exactly
  those accepted, in order, and the pipe holds one byte for each in the queue, so that the
  worker never blocks on an empty queue.\<close>
theorem hand_over_in_order:
  assumes "dispatch_run (started 1) fds d"
  shows "map item_sfd (w_conns (hd (workthreads d)) @ data_queue (item_queue (hd (workthreads d)))) = fds \<and>
     pipe d = replicate (length (data_queue (item_queue (hd (workthreads d))))) (CHR ''c'') \<and>
     \<not> w_waits (hd (workthreads d))"
  using run_only_first [OF assms] run_in_step [OF assms] by (simp add: handed_def in_step_def)

text \<open>C21: Every accepted connection is made: from every state a run with the one worker reaches, the
  worker's handler, run from that very state once for each byte in the pipe and with no accept in
  between, returns every time and ends with the pipe and the queue empty and a connection made
  for each accepted one, in the order of the accepts.\<close>
theorem every_connection_is_made:
  assumes "dispatch_run (started 1) fds d"
  shows "\<exists>d'. seqs (replicate (length (pipe d)) (thread_libev_process 0)) d = Some (Inr ((), d')) \<and>
     pipe d' = [] \<and> data_queue (item_queue (hd (workthreads d'))) = [] \<and>
     map item_sfd (w_conns (hd (workthreads d'))) = fds"
proof -
  have n: "length (pipe d) = length (data_queue (item_queue (hd (workthreads d))))"
    using run_in_step [OF assms] by (simp add: in_step_def)
  from serve_all [OF assms] obtain d' where d': "seqs (replicate (length (pipe d)) (thread_libev_process 0)) d = Some (Inr ((), d'))"
      "dispatch_run (started 1) fds d'" "data_queue (item_queue (hd (workthreads d'))) = []"
    unfolding n by blast
  then show ?thesis
    using run_in_step [OF d'(2)] run_only_first [OF d'(2)] by (simp add: in_step_def handed_def)
qed

text \<open>With more workers the first gets everything: \<open>last_threadid\<close> is read but never written,
  so that in every run with any number of workers no other worker ever has a connection.\<close>
theorem only_the_first_worker_serves:
  assumes "dispatch_run (started n) fds d" and "0 < n"
  shows "last_threadid d = - 1 \<and>
     list_all (\<lambda>w. data_queue (item_queue w) = [] \<and> w_conns w = []) (tl (workthreads d))"
  using run_only_first [OF assms] by (simp add: only_first_def)

text \<open>C35: With two workers an accepted connection can be left waiting: they share the pipe, the second
  takes the byte meant for the first and waits on its own queue, which is empty, and then neither
  worker can go on although a connection is queued. It is made only once another connection is
  accepted, which then is the one left in the queue, with the pipe empty again.\<close>
theorem shared_pipe_delays_connection:
  "\<exists>d d1 d2. dispatch_run (started 2) [7] d \<and> map item_sfd (data_queue (item_queue (hd (workthreads d)))) = [7] \<and>
     list_all (\<lambda>w. w_conns w = []) (workthreads d) \<and> w_waits (workthreads d ! 1) \<and>
     thread_libev_process 0 d = None \<and> thread_libev_process 1 d = None \<and>
     dispatch_conn_new 8 conn_read EV_READ d = Some (Inr ((), d1)) \<and>
     thread_libev_process 0 d1 = Some (Inr ((), d2)) \<and> pipe d2 = [] \<and>
     map item_sfd (w_conns (hd (workthreads d2))) = [7] \<and>
     map item_sfd (data_queue (item_queue (hd (workthreads d2)))) = [8]"
proof -
  let ?w0 = "new_worker\<lparr>w_loop := 1\<rparr>" and ?w1 = "new_worker\<lparr>w_loop := 2\<rparr>"
  have s: "started 2 = dispatcher_init\<lparr>d_num_threads := 2, workthreads := [?w0, ?w1], next_loop := 3\<rparr>"
    by (simp add: started_def upt_conv_Cons)
  have f: "only_first (started 2)" by (rule only_first_started) simp
  let ?q = "tsq_empty\<lparr>data_queue := [make_item 1 7 conn_read EV_READ]\<rparr>"
  let ?d1 = "(started 2)\<lparr>workthreads := [?w0\<lparr>item_queue := ?q\<rparr>, ?w1], pipe := ''c''\<rparr>"
  have r1: "dispatch_run (started 2) ([] @ [7]) ?d1"
    by (rule dispatch_run.accept [OF dispatch_run.start])
      (simp add: dispatch_run_first [OF f], simp add: s dispatcher_init_def new_worker_def tsq_empty_def)
  let ?d2 = "?d1\<lparr>pipe := [], workthreads := (workthreads ?d1)[1 := (workthreads ?d1 ! 1)\<lparr>w_waits := True\<rparr>]\<rparr>"
  have r2: "dispatch_run (started 2) [7] ?d2"
    using dispatch_run.stuck [OF r1, of 1 "[]"] by (simp add: new_worker_def tsq_empty_def)
  have f2: "only_first ?d2"
    by (simp add: s only_first_def dispatcher_init_def new_worker_def tsq_empty_def)
  let ?q1 = "tsq_empty\<lparr>data_queue := [make_item 1 7 conn_read EV_READ, make_item 1 8 conn_read EV_READ]\<rparr>"
  let ?d3 = "?d2\<lparr>workthreads := [?w0\<lparr>item_queue := ?q1\<rparr>, ?w1\<lparr>w_waits := True\<rparr>], pipe := ''c''\<rparr>"
  have acc: "dispatch_conn_new 8 conn_read EV_READ ?d2 = Some (Inr ((), ?d3))"
    unfolding dispatch_run_first [OF f2] by (simp add: new_worker_def tsq_empty_def)
  let ?q2 = "tsq_empty\<lparr>data_queue := [make_item 1 8 conn_read EV_READ]\<rparr>"
  let ?d4 = "?d3\<lparr>pipe := [], workthreads := [?w0\<lparr>item_queue := ?q2,
      w_conns := [make_item 1 7 conn_read EV_READ]\<rparr>, ?w1\<lparr>w_waits := True\<rparr>]\<rparr>"
  have srv: "thread_libev_process 0 ?d3 = Some (Inr ((), ?d4))"
    by (subst serve_run) (simp_all add: new_worker_def tsq_empty_def)
  have no: "thread_libev_process 0 ?d2 = None" "thread_libev_process 1 ?d2 = None"
    by (simp_all add: thread_libev_process_def read_pipe_def prog_defs)
  have st: "map item_sfd (data_queue (item_queue (hd (workthreads ?d2)))) = [7]"
      "list_all (\<lambda>w. w_conns w = []) (workthreads ?d2)" "w_waits (workthreads ?d2 ! 1)"
    by (simp_all add: new_worker_def make_item_def)
  have en: "pipe ?d4 = []" "map item_sfd (w_conns (hd (workthreads ?d4))) = [7]"
      "map item_sfd (data_queue (item_queue (hd (workthreads ?d4)))) = [8]"
    by (simp_all add: make_item_def)
  show ?thesis
    by (intro exI [of _ ?d2] exI [of _ ?d3] exI [of _ ?d4] conjI) (fact r2 st no acc srv en)+
qed

lemma one_accept: "dispatch_run (started 1) [7] ((started 1)\<lparr>
     workthreads := [new_worker\<lparr>w_loop := 1, item_queue := tsq_empty\<lparr>data_queue := [make_item 1 7 conn_read EV_READ]\<rparr>\<rparr>],
     pipe := ''c''\<rparr>)"
proof -
  have f: "only_first (started 1)" by (rule only_first_started) simp
  have "dispatch_run (started 1) ([] @ [7]) ((started 1)\<lparr>
     workthreads := [new_worker\<lparr>w_loop := 1, item_queue := tsq_empty\<lparr>data_queue := [make_item 1 7 conn_read EV_READ]\<rparr>\<rparr>],
     pipe := ''c''\<rparr>)"
    by (rule dispatch_run.accept [OF dispatch_run.start])
      (simp add: dispatch_run_first [OF f], simp add: started_def dispatcher_init_def new_worker_def tsq_empty_def)
  then show ?thesis by simp
qed

lemma hand_over_in_order_witness:
  "\<exists>d. dispatch_run (started 1) [7] d \<and> \<not> w_waits (hd (workthreads d)) \<and> pipe d = ''c''"
  using hand_over_in_order [OF one_accept] one_accept by fastforce

lemma every_connection_is_made_witness:
  "\<exists>d d'. dispatch_run (started 1) [7] d \<and> thread_libev_process 0 d = Some (Inr ((), d')) \<and>
     map item_sfd (w_conns (hd (workthreads d'))) = [7]"
proof -
  let ?d = "(started 1)\<lparr>
     workthreads := [new_worker\<lparr>w_loop := 1, item_queue := tsq_empty\<lparr>data_queue := [make_item 1 7 conn_read EV_READ]\<rparr>\<rparr>],
     pipe := ''c''\<rparr>"
  have n: "replicate (length (pipe ?d)) (thread_libev_process 0) = [thread_libev_process 0]" by simp
  obtain d' where d': "thread_libev_process 0 ?d = Some (Inr ((), d')) \<and> pipe d' = [] \<and>
      data_queue (item_queue (hd (workthreads d'))) = [] \<and> map item_sfd (w_conns (hd (workthreads d'))) = [7]"
    using every_connection_is_made [OF one_accept] unfolding n seqs_single by (rule exE)
  show ?thesis
    by (intro exI [of _ ?d] exI [of _ d'] conjI one_accept) (simp_all only: d')
qed

lemma only_the_first_worker_serves_witness:
  "\<exists>d. dispatch_run (started 3) [] d \<and> last_threadid d = - 1"
  using only_the_first_worker_serves [OF dispatch_run.start, of 3] dispatch_run.start by fastforce

end
