(* ===== verification/Conn.thy ===== *)
theory Conn
  imports Store Dispatch Tool
begin

text \<open>
  A client connection (class \<open>Conn\<close>): its buffers, its socket and its watchers, and the
  operations that move bytes: the constructor, \<open>out_string\<close>, \<open>try_read_tcp\<close> and
  \<open>write_activate_read\<close>. A buffer is the list of its bytes, its length the size it was
  allocated with; an access past it is a fault. A null or released buffer has no bytes. What the
  code prints to the standard streams is left out.
\<close>

section \<open>State\<close>

definition KEY_MAX_LENGTH :: nat where "KEY_MAX_LENGTH = 250"
definition REALTIME_MAXDELTA :: int where "REALTIME_MAXDELTA = 60*60*24*30"
definition READBUF_LEN :: int where "READBUF_LEN = 2048"
definition WRITEBUF_LEN :: int where "WRITEBUF_LEN = 2048"

record conn =
  sfd :: int
  c_state :: conn_states
  c_flag :: int
  noreply :: bool
  flag_stop :: bool
  flag_precmd :: bool
  flag_shake :: bool
  rbuf :: "byte list"
  rbuf_now :: nat
  rbuf_len :: int
  rbuf_rlen :: int
  rnbuf :: "byte list"
  rnbuf_now :: nat
  rnbuf_len :: int
  rnbuf_rlen :: int
  c_item :: addr
  c_cmd :: nread
  c_cas :: u64
  wbuf :: "byte list"
  wbuf_now :: nat
  wbuf_len :: int
  wbuf_wlen :: int
  read_watched :: bool
  write_watched :: bool
  fd_open :: bool

text \<open>
  What the calls on the sockets will find: data (a read takes at most what it asked for and
  leaves the rest), the end of the stream, nothing yet, or an error; a write of some bytes, of
  none, a full socket buffer or an error; a new client, with whether its socket could be made
  non-blocking, or an error. When the list has run out there is nothing more to read or accept
  and everything is written. \<open>junk n\<close> is what the n-th allocation leaves in its block.
\<close>

datatype rd_event = RdData "byte list" | RdEof | RdAgain | RdError
datatype wr_event = WrSome nat | WrAgain | WrError
datatype ac_event = AcClient int bool | AcNone

record net =
  mach :: machine
  con :: conn
  inp :: "rd_event list"
  outp :: "wr_event list"
  sent :: "byte list"
  accepts :: "ac_event list"
  disp :: dispatcher
  junk :: "nat \<Rightarrow> nat \<Rightarrow> byte"

section \<open>Primitive effects\<close>

definition getc :: "(conn \<Rightarrow> 'a) \<Rightarrow> (net, 'a) prog" where
  "getc f = gets (\<lambda>s. f (con s))"

definition modc :: "(conn \<Rightarrow> conn) \<Rightarrow> (net, unit) prog" where
  "modc f = modify (\<lambda>s. s\<lparr>con := f (con s)\<rparr>)"

text \<open>An operation of the item store, and of the dispatcher, on its part of the state.\<close>

definition on_mach :: "(machine, 'a) prog \<Rightarrow> (net, 'a) prog" where
  "on_mach m = (\<lambda>s. case m (mach s) of None \<Rightarrow> None | Some (Inl e) \<Rightarrow> Some (Inl e)
     | Some (Inr (x, m')) \<Rightarrow> Some (Inr (x, s\<lparr>mach := m'\<rparr>)))"

definition on_disp :: "(dispatcher, 'a) prog \<Rightarrow> (net, 'a) prog" where
  "on_disp m = (\<lambda>s. case m (disp s) of None \<Rightarrow> None | Some (Inl e) \<Rightarrow> Some (Inl e)
     | Some (Inr (x, d')) \<Rightarrow> Some (Inr (x, s\<lparr>disp := d'\<rparr>)))"

lemma wp_getc [wp_rules]: "wp (getc f) Q s = Q (f (con s)) s"
  by (simp add: getc_def wp_rules)

lemma wp_modc [wp_rules]: "wp (modc f) Q s = Q () (s\<lparr>con := f (con s)\<rparr>)"
  by (simp add: modc_def wp_rules)

lemma wp_on_mach [wp_rules]: "wp (on_mach m) Q s = wp m (\<lambda>x m'. Q x (s\<lparr>mach := m'\<rparr>)) (mach s)"
  by (simp add: wp_def on_mach_def split: option.splits sum.splits prod.splits)

lemma wp_on_disp [wp_rules]: "wp (on_disp m) Q s = wp m (\<lambda>x d'. Q x (s\<lparr>disp := d'\<rparr>)) (disp s)"
  by (simp add: wp_def on_disp_def split: option.splits sum.splits prod.splits)

lemma getc_run: "getc f s = Some (Inr (f (con s), s))"
  by (simp add: getc_def gets_def)

lemma modc_run: "modc f s = Some (Inr ((), s\<lparr>con := f (con s)\<rparr>))"
  by (simp add: modc_def modify_def)

lemma on_mach_run: "m (mach s) = Some (Inr (x, m')) \<Longrightarrow> on_mach m s = Some (Inr (x, s\<lparr>mach := m'\<rparr>))"
  by (simp add: on_mach_def)

lemma on_mach_fault: "m (mach s) = Some (Inl e) \<Longrightarrow> on_mach m s = Some (Inl e)"
  by (simp add: on_mach_def)

text \<open>A block of bytes from the system, with what was in it; none if it refuses.\<close>

definition new_buf :: "int \<Rightarrow> (net, byte list option) prog" where
  "new_buf n = bnd (gets (\<lambda>s. (alloc_ok (mach s) (alloc_calls (mach s)), alloc_calls (mach s)))) (\<lambda>(ok, k).
     thn (modify (\<lambda>s. s\<lparr>mach := (mach s)\<lparr>alloc_calls := Suc k\<rparr>\<rparr>))
       (bnd (gets junk) (\<lambda>j. ret (if ok then Some (map (j k) [0..<nat n]) else None))))"

text \<open>\<open>memcpy\<close>, \<open>memset\<close> and a single byte, into a buffer given by its bytes.\<close>

definition put_bytes :: "byte list \<Rightarrow> int \<Rightarrow> byte list \<Rightarrow> (net, byte list) prog" where
  "put_bytes buf off bs = (if 0 \<le> off \<and> nat off + length bs \<le> length buf
     then ret (blit buf (nat off) bs) else fail BufferOverrun)"

definition take_bytes :: "byte list \<Rightarrow> int \<Rightarrow> int \<Rightarrow> (net, byte list) prog" where
  "take_bytes buf off n = (if 0 \<le> off \<and> nat off + size_t n \<le> length buf
     then ret (take (size_t n) (drop (nat off) buf)) else fail BufferOverrun)"

lemma wp_put_bytes [wp_rules]: "wp (put_bytes buf off bs) Q s =
    (0 \<le> off \<and> nat off + length bs \<le> length buf \<and> Q (blit buf (nat off) bs) s)"
  by (auto simp: put_bytes_def wp_rules)

lemma wp_take_bytes [wp_rules]: "wp (take_bytes buf off n) Q s =
    (0 \<le> off \<and> nat off + size_t n \<le> length buf \<and> Q (take (size_t n) (drop (nat off) buf)) s)"
  by (auto simp: take_bytes_def wp_rules)

definition NUL :: byte where "NUL = CHR 0x00"
definition LF :: byte where "LF = CHR 0x0A"
definition CR :: byte where "CR = CHR 0x0D"

lemma crlf_bytes: "crlf = [CR, LF]"
  by (simp add: crlf_def CR_def LF_def)

definition clear_rbuf :: "(net, unit) prog" where
  "clear_rbuf = bnd (getc rbuf) (\<lambda>b. bnd (getc rbuf_len) (\<lambda>n.
     bnd (put_bytes b 0 (replicate (size_t n) NUL)) (\<lambda>b'. modc (\<lambda>c. c\<lparr>rbuf := b'\<rparr>))))"

definition conn_state_set :: "conn_states \<Rightarrow> (net, unit) prog" where
  "conn_state_set new_state = modc (\<lambda>c. c\<lparr>c_state := new_state\<rparr>)"

text \<open>\<open>ev_io_stop\<close>, \<open>ev_io_set\<close> and \<open>ev_io_start\<close>: from reading to writing, and back.\<close>

definition watch_write :: "(net, unit) prog" where
  "watch_write = modc (\<lambda>c. c\<lparr>read_watched := False, write_watched := True\<rparr>)"

definition watch_read :: "(net, unit) prog" where
  "watch_read = modc (\<lambda>c. c\<lparr>write_watched := False, read_watched := True\<rparr>)"

text \<open>The command a word names.\<close>

definition nread_of :: "string \<Rightarrow> nread" where
  "nread_of command = (
     if command = ''set'' then NREAD_SET
     else if command = ''add'' then NREAD_ADD
     else if command = ''replace'' then NREAD_REPLACE
     else if command = ''append'' then NREAD_APPEND
     else if command = ''prepend'' then NREAD_PREPEND
     else if command = ''cas'' then NREAD_CAS
     else NREAD_ERROR)"

definition nread_stat_set :: "string \<Rightarrow> (net, unit) prog" where
  "nread_stat_set command = modc (\<lambda>c. c\<lparr>c_cmd := nread_of command\<rparr>)"

text \<open>Expiry times: relative ones up to a month are added to the clock.\<close>

definition process_started :: int where "process_started = 0"

definition realtime :: "int \<Rightarrow> (machine, u32) prog" where
  "realtime exptime = (
     if exptime = 0 then ret 0
     else if exptime > REALTIME_MAXDELTA then
       (if exptime \<le> process_started then ret 1 else ret (of_int (exptime - process_started)))
     else bnd current_time (\<lambda>t. ret (of_int (exptime + uint t))))"

section \<open>The constructor\<close>

text \<open>The fields it does not set keep what was in memory (\<open>uninit\<close>).\<close>

definition conn_ctor :: "conn \<Rightarrow> conn_item \<Rightarrow> int \<Rightarrow> (net, unit) prog" where
  "conn_ctor uninit i read_len =
     bnd (new_buf read_len) (\<lambda>r. case r of None \<Rightarrow> fail (ExitProcess 134) | Some rb \<Rightarrow>
     bnd (new_buf WRITEBUF_LEN) (\<lambda>w. case w of None \<Rightarrow> fail (ExitProcess 134) | Some wb \<Rightarrow>
     modc (\<lambda>_. uninit\<lparr> sfd := item_sfd i, c_state := item_state i, c_flag := item_evflag i,
       rbuf_len := read_len, wbuf_len := WRITEBUF_LEN,
       rbuf := rb, rbuf_now := 0, rbuf_rlen := 0, rnbuf_rlen := 0, rnbuf_len := 0, rnbuf := [],
       wbuf := wb, wbuf_now := 0, wbuf_wlen := 0, flag_stop := False,
       read_watched := True, write_watched := False, fd_open := True \<rparr>)))"

section \<open>Answers\<close>

definition out_string :: "string \<Rightarrow> (net, unit) prog" where
  "out_string w_str = seqs [
     bnd (getc noreply) (\<lambda>nr. whenP nr (seqs [
       modc (\<lambda>c. c\<lparr>noreply := False\<rparr>),
       conn_state_set conn_read])),
     bnd (getc wbuf_len) (\<lambda>wl.
       let w = (if int (length w_str) + 2 \<ge> wl then ''SERVER_ERROR output line too long'' else w_str) in
       bnd (getc wbuf) (\<lambda>b. bnd (put_bytes b 0 w) (\<lambda>b'. bnd (put_bytes b' (int (length w)) crlf) (\<lambda>b''.
       modc (\<lambda>c. c\<lparr>wbuf := b'', wbuf_len := int (length w) + 2, wbuf_now := 0\<rparr>))))),
     conn_state_set conn_write]"

section \<open>Reading from the socket\<close>

datatype read_status = READ_DATA_RECEIVED | READ_NO_DATA_RECEIVED | READ_ERROR | READ_MEMORY_ERROR
datatype write_status = WRITE_DATA_ALL | WRITE_DATA_PART | WRITE_ERROR

datatype rd_result = Got "byte list" | Closed | Again | Failed

text \<open>\<open>read\<close> of at most \<open>n\<close> bytes; asked for none it returns none.\<close>

definition sock_read :: "nat \<Rightarrow> (net, rd_result) prog" where
  "sock_read n = (if n = 0 then ret Closed else bnd (gets inp) (\<lambda>es. case es of
       [] \<Rightarrow> ret Again
     | RdAgain # es' \<Rightarrow> thn (modify (\<lambda>s. s\<lparr>inp := es'\<rparr>)) (ret Again)
     | RdError # es' \<Rightarrow> thn (modify (\<lambda>s. s\<lparr>inp := es'\<rparr>)) (ret Failed)
     | RdEof # es' \<Rightarrow> thn (modify (\<lambda>s. s\<lparr>inp := es'\<rparr>)) (ret Closed)
     | RdData bs # es' \<Rightarrow>
         if length bs \<le> n then thn (modify (\<lambda>s. s\<lparr>inp := es'\<rparr>)) (ret (if bs = [] then Again else Got bs))
         else thn (modify (\<lambda>s. s\<lparr>inp := RdData (drop n bs) # es'\<rparr>)) (ret (Got (take n bs)))))"

text \<open>
  The loop of \<open>try_read_tcp\<close>, after how many extensions of the buffer and in which
  \<open>read_state\<close>; the buffer is doubled at most four times in a call.
\<close>

definition grow_rbuf :: "(net, bool) prog" where
  "grow_rbuf = bnd (getc rbuf) (\<lambda>b. bnd (getc rbuf_len) (\<lambda>n. bnd (new_buf (n * 2)) (\<lambda>nb. case nb of
     None \<Rightarrow> ret False
   | Some new_b \<Rightarrow> bnd (take_bytes b 0 n) (\<lambda>old. bnd (put_bytes new_b 0 old) (\<lambda>b'.
       thn (modc (\<lambda>c. c\<lparr>rbuf_len := n * 2, rbuf := b', rbuf_now := 0\<rparr>)) (ret True))))))"

partial_function (option) read_loop :: "nat \<Rightarrow> read_status \<Rightarrow> (net, read_status) prog" where
  "read_loop num_alloc read_state s =
     bnd (getc (\<lambda>c. rbuf_rlen c \<ge> rbuf_len c)) (\<lambda>full.
     if full \<and> num_alloc = 4 then ret read_state
     else bnd (if full then grow_rbuf else ret True) (\<lambda>ok.
     if \<not> ok then thn (seqs [modc (\<lambda>c. c\<lparr>rbuf_rlen := 0\<rparr>),
         out_string ''SERVER_ERROR out of memory reading request'']) (ret READ_MEMORY_ERROR)
     else bnd (getc id) (\<lambda>c.
       bnd (sock_read (size_t (rbuf_len c - rbuf_rlen c))) (\<lambda>r. case r of
         Got bs \<Rightarrow> bnd (put_bytes (rbuf c) (rbuf_rlen c) bs) (\<lambda>b'.
           thn (modc (\<lambda>c. c\<lparr>rbuf := b', rbuf_now := rbuf_now c + length bs,
                          rbuf_rlen := rbuf_rlen c + int (length bs)\<rparr>))
           (if int (length bs) = rbuf_len c - rbuf_rlen c
            then read_loop (if full then Suc num_alloc else num_alloc) READ_DATA_RECEIVED
            else ret READ_DATA_RECEIVED))
       | Closed \<Rightarrow> ret READ_ERROR
       | Again \<Rightarrow> ret read_state
       | Failed \<Rightarrow> ret READ_ERROR)))) s"

definition try_read_tcp :: "(net, read_status) prog" where
  "try_read_tcp = thn
     (bnd (getc id) (\<lambda>c. whenP (rbuf_now c \<noteq> 0) (seqs [
        whenP (rbuf_rlen c \<noteq> 0) (bnd (take_bytes (rbuf c) (int (rbuf_now c)) (rbuf_rlen c))
          (\<lambda>bs. bnd (put_bytes (rbuf c) 0 bs) (\<lambda>b'. modc (\<lambda>c. c\<lparr>rbuf := b'\<rparr>)))),
        modc (\<lambda>c. c\<lparr>rbuf_now := 0\<rparr>)])))
     (read_loop 0 READ_NO_DATA_RECEIVED)"

section \<open>Writing to the socket\<close>

datatype wr_result = Wrote nat | WAgain | WFailed

text \<open>\<open>write\<close> of a block of bytes: how many the socket takes, which are then on their way.\<close>

definition sock_write :: "byte list \<Rightarrow> (net, wr_result) prog" where
  "sock_write bs = bnd (gets outp) (\<lambda>es. case es of
       [] \<Rightarrow> thn (modify (\<lambda>s. s\<lparr>sent := sent s @ bs\<rparr>)) (ret (Wrote (length bs)))
     | WrAgain # es' \<Rightarrow> thn (modify (\<lambda>s. s\<lparr>outp := es'\<rparr>)) (ret WAgain)
     | WrError # es' \<Rightarrow> thn (modify (\<lambda>s. s\<lparr>outp := es'\<rparr>)) (ret WFailed)
     | WrSome n # es' \<Rightarrow> thn (modify (\<lambda>s. s\<lparr>outp := es', sent := sent s @ take n bs\<rparr>))
         (ret (Wrote (min n (length bs)))))"

definition write_done :: "(net, unit) prog" where
  "write_done = bnd (getc wbuf) (\<lambda>b. bnd (put_bytes b 0 (replicate (nat WRITEBUF_LEN) NUL)) (\<lambda>b'. seqs [
     modc (\<lambda>c. c\<lparr>wbuf_len := WRITEBUF_LEN, wbuf := b', wbuf_wlen := 0, wbuf_now := 0\<rparr>),
     watch_read]))"

partial_function (option) write_loop :: "(net, write_status) prog" where
  "write_loop s =
     bnd (getc id) (\<lambda>c.
     if wbuf_len c - wbuf_wlen c = 0 then thn watch_read (ret WRITE_DATA_ALL)
     else bnd (take_bytes (wbuf c) (int (wbuf_now c)) (wbuf_len c - wbuf_wlen c)) (\<lambda>bs.
       bnd (sock_write bs) (\<lambda>r. case r of
         Wrote n \<Rightarrow>
           if n = 0 then ret WRITE_ERROR
           else thn (modc (\<lambda>c. c\<lparr>wbuf_wlen := wbuf_wlen c + int n, wbuf_now := wbuf_now c + n\<rparr>))
             (if int n = wbuf_len c - wbuf_wlen c then thn write_done (ret WRITE_DATA_ALL)
              else write_loop)
       | WAgain \<Rightarrow> ret WRITE_DATA_PART
       | WFailed \<Rightarrow> ret WRITE_ERROR))) s"

definition write_activate_read :: "(net, write_status) prog" where
  "write_activate_read = write_loop"

declare read_loop.simps [code] write_loop.simps [code]

end
