(* ===== verification/Protocol.thy ===== *)
theory Protocol
  imports Conn
begin

text \<open>
  The text protocol: the splitting of a line into words, the commands of conn.cpp, the parsing of
  what was read (\<open>try_read_command\<close>, \<open>conn_shake\<close>) and the reading and storing of a value
  (\<open>read_value_stored\<close>).
\<close>

section \<open>Words\<close>

text \<open>The words of a line: the matches of \<open>[^\s+]+\<close>, maximal runs of characters that are neither
  white space nor a plus sign.\<close>

definition separates :: "byte \<Rightarrow> bool" where
  "separates c \<longleftrightarrow> is_space c \<or> c = CHR ''+''"

fun words_from :: "byte list \<Rightarrow> byte list \<Rightarrow> byte list list" where
  "words_from [] w = (if w = [] then [] else [w])"
| "words_from (c # cs) w =
     (if separates c then (if w = [] then words_from cs [] else w # words_from cs [])
      else words_from cs (w @ [c]))"

definition tokens :: "byte list \<Rightarrow> byte list list" where
  "tokens line = words_from line []"

text \<open>The string at the start of a buffer, up to its terminating zero.\<close>

definition c_string :: "byte list \<Rightarrow> (net, byte list) prog" where
  "c_string buf = (if NUL \<in> set buf then ret (takeWhile (\<lambda>c. c \<noteq> NUL) buf) else fail BufferOverrun)"

lemma wp_c_string [wp_rules]:
  "wp (c_string buf) Q s = (NUL \<in> set buf \<and> Q (takeWhile (\<lambda>c. c \<noteq> NUL) buf) s)"
  by (auto simp: c_string_def wp_rules)

text \<open>\<open>memchr\<close>: the first position of a byte among the next \<open>n\<close> from an offset. It reads in order
  and stops at the byte.\<close>

definition memchr :: "byte list \<Rightarrow> nat \<Rightarrow> byte \<Rightarrow> nat \<Rightarrow> (net, nat option) prog" where
  "memchr buf off b n = (let seen = takeWhile (\<lambda>c. c \<noteq> b) (take n (drop off buf)) in
     if length seen < length (take n (drop off buf)) then ret (Some (off + length seen))
     else if off + n \<le> length buf then ret None
     else fail BufferOverrun)"

section \<open>Commands of one and two words\<close>

definition clear_and_answer :: "string \<Rightarrow> (net, unit) prog" where
  "clear_and_answer w_str = seqs [
     clear_rbuf,
     modc (\<lambda>c. c\<lparr>rbuf_rlen := 0\<rparr>),
     watch_write,
     out_string w_str]"

definition command_one_para :: "string list \<Rightarrow> (net, unit) prog" where
  "command_one_para ts = (
     if ts ! 0 = ''quit'' then conn_state_set conn_closed
     else if ts ! 0 = ''version'' then clear_and_answer ''CGXR MEMCACHE version 1.0''
     else clear_and_answer ''CLIENT_BAD_COMMAND'')"

definition delete_command :: "string list \<Rightarrow> (net, unit) prog" where
  "delete_command ts = bnd (on_mach (item_get (ts ! 1))) (\<lambda>it.
     if it \<noteq> 0 then seqs [
       on_mach (item_unlink it),
       on_mach (item_remove it),
       clear_and_answer ''DELETED'']
     else clear_and_answer ''NOT_FOUND'')"

text \<open>The number of bytes for which \<open>get_command\<close> makes room, and the line before the value.\<close>

definition get_ntotal :: "base_item \<Rightarrow> int" where
  "get_ntotal it = c_int (5 + int (unat (it_nkey it)) + 1 + 4 + 2 + it_nbytes it)"

definition get_line :: "base_item \<Rightarrow> string" where
  "get_line it = '' '' @ dec (unat (it_flag it)) @ '' '' @ dec_int (it_nbytes it) @ '' '' @
     dec (unat (it_cas it)) @ [LF]"

text \<open>\<open>sprintf\<close> into a buffer at an offset, with the terminating zero.\<close>

definition sprintf :: "byte list \<Rightarrow> int \<Rightarrow> string \<Rightarrow> (net, byte list) prog" where
  "sprintf buf off str = put_bytes buf off (str @ [NUL])"

text \<open>\<open>strchr\<close> of a newline: where the first one is, in the string at the start of the buffer.\<close>

definition strchr_LF :: "byte list \<Rightarrow> (net, int) prog" where
  "strchr_LF buf = (let seen = takeWhile (\<lambda>c. c \<noteq> LF \<and> c \<noteq> NUL) buf in
     if length seen = length buf then fail BufferOverrun
     else if buf ! length seen = LF then ret (int (length seen)) else fail NullDeref)"

text \<open>The larger buffer is too small for every reply that needs it, which \<open>fill_reply\<close> finds out; so the
  pointer \<open>wbuf_now\<close>, which still points into the released buffer, is never used.\<close>

definition grow_wbuf :: "int \<Rightarrow> (net, bool) prog" where
  "grow_wbuf ntotal = bnd (getc wbuf_len) (\<lambda>wl.
     if ntotal > wl then
       bnd (new_buf ntotal) (\<lambda>nb. case nb of
         None \<Rightarrow> thn (seqs [
             modc (\<lambda>c. c\<lparr>wbuf := []\<rparr>),
             out_string ''SERVER_ERROR memory is full'',
             modc (\<lambda>c. c\<lparr>wbuf_len := 0\<rparr>)]) (ret False)
       | Some b \<Rightarrow> thn (modc (\<lambda>c. c\<lparr>wbuf := b, wbuf_len := ntotal\<rparr>)) (ret True))
     else ret True)"

definition fill_reply :: "addr \<Rightarrow> (net, unit) prog" where
  "fill_reply it = bnd (on_mach (rd it)) (\<lambda>c.
     bnd (getc wbuf) (\<lambda>b. bnd (put_bytes b 0 ''VALUE '') (\<lambda>b.
     bnd (on_mach (rd_data it 0 (unat (it_nkey c)))) (\<lambda>key. bnd (put_bytes b 6 key) (\<lambda>b.
     bnd (sprintf b (6 + int (unat (it_nkey c))) (get_line c)) (\<lambda>b.
     bnd (strchr_LF b) (\<lambda>lf.
     bnd (on_mach (rd_data it (unat (it_nkey c) + 1) (size_t (it_nbytes c)))) (\<lambda>val.
     bnd (put_bytes b (lf + 1) val) (\<lambda>b.
     bnd (sprintf b (lf + 1 + it_nbytes c) (''END'' @ crlf)) (\<lambda>b.
     modc (\<lambda>c. c\<lparr>wbuf := b\<rparr>)))))))))))"

definition get_command :: "string list \<Rightarrow> (net, unit) prog" where
  "get_command ts = (
     if length (ts ! 1) > KEY_MAX_LENGTH
     then out_string ''CLIENT_ERROR bad command line format''
     else bnd (on_mach (item_get (ts ! 1))) (\<lambda>it.
       if it = 0 then clear_and_answer ''END''
       else bnd (on_mach (rd it)) (\<lambda>c. bnd (grow_wbuf (get_ntotal c)) (\<lambda>ok.
         if \<not> ok then ret ()
         else seqs [
           fill_reply it,
           conn_state_set conn_write,
           watch_write,
           clear_rbuf,
           modc (\<lambda>c. c\<lparr>rbuf_rlen := 0\<rparr>)]))))"

definition command_two_para :: "string list \<Rightarrow> (net, unit) prog" where
  "command_two_para ts = (
     if ts ! 0 = ''get'' then get_command ts
     else if ts ! 0 = ''delete'' then delete_command ts
     else clear_and_answer ''CLIENT_BAD_COMMAND'')"

definition command_three_para :: "string list \<Rightarrow> (net, unit) prog" where
  "command_three_para ts = ret ()"

section \<open>Storage commands\<close>

definition bad_line :: "(net, unit) prog" where
  "bad_line = out_string ''CLIENT_ERROR bad command line format''"

text \<open>What is done when no chunk can be had: an answer, and after a failed set the old item goes.\<close>

definition no_chunk :: "string \<Rightarrow> int \<Rightarrow> (net, unit) prog" where
  "no_chunk key vlen = seqs [
     bnd (on_mach (item_size_ok (length key) vlen)) (\<lambda>ok.
       out_string (if ok then ''SERVER_ERROR out of memory storing object''
                   else ''SERVER_ERROR object too large for cache'')),
     bnd (getc c_cmd) (\<lambda>cmd. whenP (cmd = NREAD_SET)
       (bnd (on_mach (item_get key)) (\<lambda>it. seqs [
         modc (\<lambda>c. c\<lparr>c_item := it\<rparr>),
         whenP (it \<noteq> 0) (seqs [on_mach (item_unlink it), on_mach (item_remove it)])])))]"

definition fill_item :: "addr \<Rightarrow> string \<Rightarrow> u32 \<Rightarrow> int \<Rightarrow> int \<Rightarrow> u64 \<Rightarrow> (machine, unit) prog" where
  "fill_item it key flags exptime vlen cas_id = seqs [
     set_cas it cas_id,
     upd it (\<lambda>c. c\<lparr>it_nkey := of_nat (length key)\<rparr>),
     upd it (\<lambda>c. c\<lparr>it_flag := ucast flags\<rparr>),
     bnd (realtime exptime) (\<lambda>t. upd it (\<lambda>c. c\<lparr>it_exptime := t\<rparr>)),
     upd it (\<lambda>c. c\<lparr>it_nbytes := vlen\<rparr>),
     wr_data it 0 key]"

definition new_value_buf :: "int \<Rightarrow> (net, unit) prog" where
  "new_value_buf vlen = seqs [
     modc (\<lambda>c. c\<lparr>rnbuf_len := vlen\<rparr>),
     bnd (new_buf (vlen + 3)) (\<lambda>nb. modc (\<lambda>c. c\<lparr>rnbuf := (case nb of None \<Rightarrow> [] | Some b \<Rightarrow> b), rnbuf_now := 0\<rparr>))]"

text \<open>The storage line after its numbers have been read.\<close>

definition store_line :: "string \<Rightarrow> u32 \<Rightarrow> int \<Rightarrow> int \<Rightarrow> u64 \<Rightarrow> (net, unit) prog" where
  "store_line key flags exptime_int vlen0 cas_id =
     (let exptime = (if exptime_int < 0 then REALTIME_MAXDELTA - 1 else exptime_int) in
      bnd (on_mach (int_add vlen0 2)) (\<lambda>vlen.
      if vlen < 0 \<or> vlen - 2 < 0 then bad_line
      else bnd (on_mach (realtime exptime)) (\<lambda>_.
        bnd (on_mach (item_alloc (length key) vlen)) (\<lambda>it.
        thn (modc (\<lambda>c. c\<lparr>c_item := it\<rparr>))
        (if it = 0 then no_chunk key vlen
         else seqs [
           on_mach (fill_item it key flags exptime vlen cas_id),
           new_value_buf vlen,
           conn_state_set conn_nread])))))"

definition command_five_six_para :: "string list \<Rightarrow> bool \<Rightarrow> (net, unit) prog" where
  "command_five_six_para ts cas = thn (nread_stat_set (ts ! 0)) (
     if length (ts ! 1) > KEY_MAX_LENGTH then bad_line
     else if \<not> (fst (safe_strtoul (ts ! 2)) \<and> fst (safe_strtol (ts ! 3)) \<and> fst (safe_strtol (ts ! 4)))
     then bad_line
     else if cas \<and> \<not> fst (safe_strtoull (ts ! 5)) then bad_line
     else store_line (ts ! 1) (snd (safe_strtoul (ts ! 2))) (sint (snd (safe_strtol (ts ! 3))))
            (sint (snd (safe_strtol (ts ! 4)))) (if cas then snd (safe_strtoull (ts ! 5)) else 0))"

definition process_command :: "(net, unit) prog" where
  "process_command = bnd (getc rbuf) (\<lambda>b. bnd (c_string b) (\<lambda>line.
     let ts = tokens line in
     if length ts = 1 then command_one_para ts
     else if length ts = 2 then command_two_para ts
     else if length ts = 3 then command_three_para ts
     else if length ts = 5 then thn (command_five_six_para ts False) (modc (\<lambda>c. c\<lparr>flag_precmd := True\<rparr>))
     else if length ts = 6 then command_five_six_para ts True
     else seqs [
       clear_rbuf,
       modc (\<lambda>c. c\<lparr>rbuf_rlen := 0, rbuf_now := 0\<rparr>),
       conn_state_set conn_read,
       modc (\<lambda>c. c\<lparr>flag_precmd := False\<rparr>)]))"

section \<open>What was read with the line\<close>

definition shake_value :: "nat \<Rightarrow> int \<Rightarrow> (net, unit) prog" where
  "shake_value temp_end value_len = bnd (getc id) (\<lambda>c.
     bnd (take_bytes (rbuf c) (int temp_end) (value_len - 2)) (\<lambda>bs.
     bnd (put_bytes (rnbuf c) 0 bs) (\<lambda>b. bnd (put_bytes b (value_len - 2) [NUL]) (\<lambda>b'. seqs [
       modc (\<lambda>c. c\<lparr>rnbuf := b', rnbuf_rlen := value_len - 2, rnbuf_now := 0\<rparr>),
       conn_state_set conn_nread,
       modc (\<lambda>c. c\<lparr>flag_precmd := False\<rparr>)]))))"

definition shake_command :: "nat \<Rightarrow> int \<Rightarrow> (net, unit) prog" where
  "shake_command temp_end value_len = bnd (getc id) (\<lambda>c.
     bnd (take_bytes (rbuf c) (int temp_end) value_len) (\<lambda>bs.
     bnd (put_bytes (rbuf c) 0 bs) (\<lambda>b. bnd (put_bytes b value_len [NUL]) (\<lambda>b'. seqs [
       modc (\<lambda>c. c\<lparr>rbuf := b', rbuf_now := 0, rbuf_rlen := value_len\<rparr>),
       conn_state_set conn_parse_cmd]))))"

definition conn_shake :: "nat \<Rightarrow> int \<Rightarrow> (net, unit) prog" where
  "conn_shake temp_end value_len = bnd (getc id) (\<lambda>c.
     bnd (memchr (rbuf c) temp_end CR (size_t value_len)) (\<lambda>end_value.
     if end_value = None then ret ()
     else thn (if flag_precmd c then shake_value temp_end value_len
               else shake_command temp_end value_len)
       (modc (\<lambda>c. c\<lparr>flag_shake := True\<rparr>))))"

section \<open>Reading a command\<close>

text \<open>
  Without a newline \<open>endflag\<close> is null and the code reads the byte at address 1 before it tests
  for that; what follows the test in this case (closing the connection after 1024 bytes) is
  never reached.
\<close>

definition try_read_command :: "(net, nat) prog" where
  "try_read_command = bnd (getc id) (\<lambda>c.
     if rbuf_rlen c = 0 then ret 0
     else bnd (memchr (rbuf c) 0 LF (size_t (rbuf_rlen c))) (\<lambda>r. case r of
       None \<Rightarrow> fail (WildPointer 1)
     | Some endflag \<Rightarrow>
       bnd (take_bytes (rbuf c) (int endflag + 1) 1) (\<lambda>nxt.
       thn (modc (\<lambda>c. c\<lparr>flag_shake := (nxt \<noteq> [NUL])\<rparr>))
       (let endp = endflag + 1;
            ef = (if int endflag - int (rbuf_now c) > 1 \<and> rbuf c ! (endflag - 1) = CR
                  then endflag - 1 else endflag) in
        bnd (put_bytes (rbuf c) (int ef) [NUL]) (\<lambda>b. thn (seqs [
          modc (\<lambda>c. c\<lparr>rbuf := b\<rparr>),
          process_command,
          bnd (getc id) (\<lambda>c. if flag_shake c then conn_shake endp (rbuf_rlen c - int endp)
            else seqs [
              whenP (rbuf_rlen c \<noteq> 0)
                (modc (\<lambda>c. c\<lparr>rbuf_rlen := rbuf_rlen c - (int endp - int (rbuf_now c))\<rparr>)),
              whenP (rbuf_now c \<noteq> 0) (modc (\<lambda>c. c\<lparr>rbuf_now := endp\<rparr>))])])
        (ret 1))))))"

section \<open>Reading and storing a value\<close>

definition clear_value_bufs :: "(net, unit) prog" where
  "clear_value_bufs = seqs [
     bnd (getc id) (\<lambda>c. bnd (put_bytes (rnbuf c) 0 (replicate (size_t (rnbuf_len c + 3)) NUL))
       (\<lambda>b. modc (\<lambda>c. c\<lparr>rnbuf := b\<rparr>))),
     clear_rbuf,
     modc (\<lambda>c. c\<lparr>rnbuf_rlen := 0, rbuf_rlen := 0, rnbuf := []\<rparr>)]"

definition store_value :: "string \<Rightarrow> (net, unit) prog" where
  "store_value failure = bnd (getc id) (\<lambda>c.
     bnd (on_mach (rd (c_item c))) (\<lambda>it. thn (seqs [
       on_mach (wr_data (c_item c) (unat (it_nkey it)) [CHR ''0'']),
       bnd (take_bytes (rnbuf c) 0 (rnbuf_len c)) (\<lambda>bs.
         on_mach (wr_data (c_item c) (unat (it_nkey it) + 1) bs))])
     (bnd (on_mach (store_item (c_cmd c) (c_item c))) (\<lambda>(st, v). seqs [
       modc (\<lambda>c. c\<lparr>c_cas := (case v of None \<Rightarrow> c_cas c | Some u \<Rightarrow> u)\<rparr>),
       clear_value_bufs,
       out_string (if st = STORED then ''STORED'' else failure)]))))"

definition finish_value :: "(net, unit) prog" where
  "finish_value = seqs [
     bnd (getc c_cmd) (\<lambda>cmd. case cmd of
       NREAD_CAS \<Rightarrow> store_value ''EXISTS''
     | NREAD_ERROR \<Rightarrow> ret ()
     | _ \<Rightarrow> store_value ''NOT_STORED''),
     watch_write]"

definition finish_if_complete :: "(net, unit) prog" where
  "finish_if_complete = bnd (getc (\<lambda>c. rnbuf_len c = rnbuf_rlen c)) (\<lambda>complete. whenP complete finish_value)"

text \<open>A later part of a value is read to the start of the buffer, too. When the buffer could not be
  allocated \<open>read\<close> fails (\<open>EFAULT\<close>), which the code takes for nothing at all.\<close>

definition read_value_stored :: "(net, unit) prog" where
  "read_value_stored = bnd (getc id) (\<lambda>c.
     if flag_shake c then finish_if_complete
     else bnd (if rnbuf c = [] \<and> rnbuf_len c \<noteq> rnbuf_rlen c then ret Failed
               else sock_read (size_t (rnbuf_len c - rnbuf_rlen c))) (\<lambda>r. case r of
       Closed \<Rightarrow> if rnbuf_rlen c \<noteq> rnbuf_len c then conn_state_set conn_closed else finish_if_complete
     | Got bs \<Rightarrow> thn (bnd (put_bytes (rnbuf c) 0 bs) (\<lambda>b.
           modc (\<lambda>c. c\<lparr>rnbuf := b, rnbuf_rlen := rnbuf_rlen c + int (length bs)\<rparr>))) finish_if_complete
     | Again \<Rightarrow> ret ()
     | Failed \<Rightarrow> finish_if_complete))"

end
