(* ===== verification/Traffic.thy ===== *)
theory Traffic
  imports Conn
begin

text \<open>
  The bytes of a connection in both directions: that sending and receiving end, lose nothing and
  keep the order, and that an answer fits its buffer. \<open>out_ok\<close> and \<open>in_fits\<close> are what the code keeps of
  its buffers, \<open>out_idle\<close> is a connection with nothing to send.
\<close>

text \<open>The order in which updates of the state are written.\<close>

lemma net_order:
  "s\<lparr>sent := b, con := c\<rparr> = s\<lparr>con := c, sent := b\<rparr>"
  "s\<lparr>outp := es, con := c\<rparr> = s\<lparr>con := c, outp := es\<rparr>"
  "s\<lparr>inp := is, con := c\<rparr> = s\<lparr>con := c, inp := is\<rparr>"
  "s\<lparr>con := c, mach := m\<rparr> = s\<lparr>mach := m, con := c\<rparr>"
  by (cases s; simp)+

section \<open>Sending\<close>

text \<open>What is still to be sent, and the state in which the code starts to send.\<close>

definition to_send :: "conn \<Rightarrow> byte list" where
  "to_send c = drop (wbuf_now c) (take (nat (wbuf_len c)) (wbuf c))"

definition out_ok :: "conn \<Rightarrow> bool" where
  "out_ok c \<longleftrightarrow> 0 \<le> wbuf_wlen c \<and> wbuf_wlen c \<le> wbuf_len c \<and> wbuf_len c < 2 ^ 31 \<and>
     wbuf_now c = nat (wbuf_wlen c) \<and> nat (wbuf_len c) \<le> length (wbuf c) \<and>
     nat WRITEBUF_LEN \<le> length (wbuf c)"

text \<open>An emptied buffer is as it was after the constructor, and the connection reads again.\<close>

definition out_reset :: "conn \<Rightarrow> bool" where
  "out_reset c \<longleftrightarrow> wbuf_len c = WRITEBUF_LEN \<and> wbuf_wlen c = 0 \<and> wbuf_now c = 0 \<and>
     take (nat WRITEBUF_LEN) (wbuf c) = replicate (nat WRITEBUF_LEN) NUL \<and>
     read_watched c \<and> \<not> write_watched c"

text \<open>Nothing but the output side of the connection changes.\<close>

definition out_frame :: "net \<Rightarrow> net \<Rightarrow> bool" where
  "out_frame s s' \<longleftrightarrow> (\<exists>wb wn wl ww rw wr es bs. s' = s\<lparr>con := (con s)\<lparr>wbuf := wb, wbuf_now := wn,
     wbuf_len := wl, wbuf_wlen := ww, read_watched := rw, write_watched := wr\<rparr>, outp := es, sent := bs\<rparr>)"

lemma out_frame_refl: "out_frame s s"
proof -
  have "s = s\<lparr>con := (con s)\<lparr>wbuf := wbuf (con s), wbuf_now := wbuf_now (con s), wbuf_len := wbuf_len (con s),
     wbuf_wlen := wbuf_wlen (con s), read_watched := read_watched (con s), write_watched := write_watched (con s)\<rparr>,
     outp := outp s, sent := sent s\<rparr>" by simp
  then show ?thesis unfolding out_frame_def by blast
qed

lemma out_frame_con [simp]: "out_frame s s' \<Longrightarrow> c_state (con s') = c_state (con s)"
  "out_frame s s' \<Longrightarrow> flag_stop (con s') = flag_stop (con s)"
  by (auto simp: out_frame_def)

lemma out_frame_stepI:
  assumes "out_frame s1 s'"
    and "s1 = s\<lparr>con := (con s)\<lparr>wbuf_now := wn, wbuf_wlen := ww\<rparr>, outp := es, sent := bs\<rparr>"
  shows "out_frame s s'"
  using assms unfolding out_frame_def by force

lemma out_frame_outp: "out_frame s (s\<lparr>outp := es\<rparr>)"
proof -
  have "s\<lparr>outp := es\<rparr> = s\<lparr>con := (con s)\<lparr>wbuf := wbuf (con s), wbuf_now := wbuf_now (con s), wbuf_len := wbuf_len (con s),
     wbuf_wlen := wbuf_wlen (con s), read_watched := read_watched (con s), write_watched := write_watched (con s)\<rparr>,
     outp := es, sent := sent s\<rparr>" by simp
  then show ?thesis unfolding out_frame_def by blast
qed

definition sent_all :: "net \<Rightarrow> write_status \<Rightarrow> net \<Rightarrow> bool" where
  "sent_all s r s' \<longleftrightarrow> (\<exists>got. sent s' = sent s @ got \<and> out_frame s s' \<and>
     (case r of
        WRITE_DATA_ALL \<Rightarrow> got = to_send (con s) \<and> (got \<noteq> [] \<longrightarrow> out_reset (con s'))
      | _ \<Rightarrow> to_send (con s) = got @ to_send (con s') \<and> out_ok (con s')))"

lemma to_send_split:
  assumes "n \<le> length (to_send c)"
  shows "to_send (c\<lparr>wbuf_wlen := w, wbuf_now := wbuf_now c + n\<rparr>) = drop n (to_send c)"
  by (simp add: to_send_def add.commute)

lemma out_okD:
  assumes "out_ok c"
  shows "length (to_send c) = nat (wbuf_len c - wbuf_wlen c)"
    and "take (size_t (wbuf_len c - wbuf_wlen c)) (drop (wbuf_now c) (wbuf c)) = to_send c"
    and "wbuf_now c + size_t (wbuf_len c - wbuf_wlen c) \<le> length (wbuf c)"
    and "int (length (to_send c)) = wbuf_len c - wbuf_wlen c"
  using assms by (auto simp: out_ok_def to_send_def drop_take nat_diff_distrib)

lemma write_loop_step:
  assumes "out_ok (con s)" and "to_send (con s) \<noteq> []"
  shows "write_loop s = bnd (sock_write (to_send (con s))) (\<lambda>r. case r of
         Wrote n \<Rightarrow>
           if n = 0 then ret WRITE_ERROR
           else thn (modc (\<lambda>c. c\<lparr>wbuf_wlen := wbuf_wlen c + int n, wbuf_now := wbuf_now c + n\<rparr>))
             (if n = length (to_send (con s)) then thn write_done (ret WRITE_DATA_ALL)
              else write_loop)
       | WAgain \<Rightarrow> ret WRITE_DATA_PART
       | WFailed \<Rightarrow> ret WRITE_ERROR) s"
proof -
  have a: "wbuf_len (con s) - wbuf_wlen (con s) = int (length (to_send (con s)))"
    using out_okD(4) [OF assms(1)] by simp
  have ne: "int (length (to_send (con s))) \<noteq> 0" using assms(2) by simp
  have t: "take_bytes (wbuf (con s)) (int (wbuf_now (con s))) (wbuf_len (con s) - wbuf_wlen (con s)) s =
      Some (Inr (to_send (con s), s))"
    unfolding take_bytes_def using out_okD(2,3) [OF assms(1)] by (simp add: ret_def)
  show ?thesis
    unfolding write_loop.simps [of s] bnd_run [OF getc_run] id_apply
    unfolding bnd_run [of "take_bytes (wbuf (con s)) (int (wbuf_now (con s))) (wbuf_len (con s) - wbuf_wlen (con s))" s, OF t]
      if_not_P [OF ne [folded a]]
    unfolding a of_nat_eq_iff ..
qed

lemma write_loop_idle:
  assumes "out_ok (con s)" and "to_send (con s) = []"
  shows "write_loop s = Some (Inr (WRITE_DATA_ALL, s\<lparr>con := (con s)\<lparr>write_watched := False, read_watched := True\<rparr>\<rparr>))"
  using out_okD(4) [OF assms(1)] assms(2)
  by (simp add: write_loop.simps [of s] bnd_run [OF getc_run] watch_read_def thn_run [OF modc_run] ret_def)

lemma write_done_run:
  assumes "nat WRITEBUF_LEN \<le> length (wbuf (con s))"
  shows "write_done s = Some (Inr ((), s\<lparr>con := (con s)\<lparr>wbuf_len := WRITEBUF_LEN,
     wbuf := blit (wbuf (con s)) 0 (replicate (nat WRITEBUF_LEN) NUL), wbuf_wlen := 0, wbuf_now := 0,
     write_watched := False, read_watched := True\<rparr>\<rparr>))"
  using assms by (simp add: write_done_def getc_run put_bytes_def bnd_def ret_def seqs_run [OF modc_run]
    watch_read_def seqs_done)

lemma sent_all_done:
  assumes "out_ok (con s)"
  shows "sent_all s WRITE_DATA_ALL (s\<lparr>con := (con s)\<lparr>wbuf_len := WRITEBUF_LEN,
     wbuf := blit (wbuf (con s)) 0 (replicate (nat WRITEBUF_LEN) NUL), wbuf_wlen := 0, wbuf_now := 0,
     write_watched := False, read_watched := True\<rparr>, outp := es, sent := sent s @ to_send (con s)\<rparr>)"
    (is "sent_all s _ ?s")
proof -
  have "?s = s\<lparr>con := (con s)\<lparr>wbuf := blit (wbuf (con s)) 0 (replicate (nat WRITEBUF_LEN) NUL), wbuf_now := 0,
     wbuf_len := WRITEBUF_LEN, wbuf_wlen := 0, read_watched := True, write_watched := False\<rparr>, outp := es,
     sent := sent s @ to_send (con s)\<rparr>" by simp
  then have "out_frame s ?s" unfolding out_frame_def by blast
  moreover have "out_reset (con ?s)" using assms by (simp add: out_reset_def blit_def out_ok_def)
  ultimately show ?thesis by (simp add: sent_all_def)
qed

lemma sent_all_part:
  assumes "out_ok (con s)" and k: "k < length (to_send (con s))"
    and s1: "s1 = s\<lparr>con := (con s)\<lparr>wbuf_wlen := wbuf_wlen (con s) + int k, wbuf_now := wbuf_now (con s) + k\<rparr>,
      outp := es, sent := sent s @ take k (to_send (con s))\<rparr>"
  shows "out_ok (con s1)" and "to_send (con s1) = drop k (to_send (con s))"
    and "sent_all s1 r s' \<Longrightarrow> sent_all s r s'"
proof -
  show "out_ok (con s1)"
    using assms out_okD(4) [OF assms(1)] by (simp add: out_ok_def) linarith
  show ts: "to_send (con s1) = drop k (to_send (con s))"
    using to_send_split [of k "con s"] k by (simp add: s1)
  assume "sent_all s1 r s'"
  then obtain got where g: "sent s' = sent s1 @ got" "out_frame s1 s'"
      "case r of WRITE_DATA_ALL \<Rightarrow> got = drop k (to_send (con s)) \<and> (got \<noteq> [] \<longrightarrow> out_reset (con s'))
        | _ \<Rightarrow> drop k (to_send (con s)) = got @ to_send (con s') \<and> out_ok (con s')"
    unfolding sent_all_def ts by blast
  have "out_frame s s'"
    by (rule out_frame_stepI [OF g(2), where wn = "wbuf_now (con s) + k" and ww = "wbuf_wlen (con s) + int k"
          and es = es and bs = "sent s @ take k (to_send (con s))"]) (simp add: s1)
  moreover have "sent s' = sent s @ (take k (to_send (con s)) @ got)" using g(1) by (simp add: s1)
  moreover have "take k (to_send (con s)) @ drop k (to_send (con s)) = to_send (con s)" by simp
  moreover have "r = WRITE_DATA_ALL \<Longrightarrow> got \<noteq> []" using g(3) k by simp
  ultimately show "sent_all s r s'"
    using g(3) unfolding sent_all_def
    by (intro exI [of _ "take k (to_send (con s)) @ got"]) (cases r; simp; metis append_take_drop_id)
qed

lemma write_loop_wp:
  "out_ok (con s) \<Longrightarrow> wp write_loop (sent_all s) s"
proof (induction "length (to_send (con s))" arbitrary: s rule: less_induct)
  case less
  show ?case
  proof (cases "to_send (con s) = []")
    case True
    have "s\<lparr>con := (con s)\<lparr>write_watched := False, read_watched := True\<rparr>\<rparr> =
      s\<lparr>con := (con s)\<lparr>wbuf := wbuf (con s), wbuf_now := wbuf_now (con s), wbuf_len := wbuf_len (con s),
        wbuf_wlen := wbuf_wlen (con s), read_watched := True, write_watched := False\<rparr>, outp := outp s, sent := sent s\<rparr>"
      by simp
    then have "out_frame s (s\<lparr>con := (con s)\<lparr>write_watched := False, read_watched := True\<rparr>\<rparr>)"
      unfolding out_frame_def by blast
    then show ?thesis
      using write_loop_idle [OF less.prems True] True by (simp add: wp_def sent_all_def)
  next
    case ne: False
    note step = write_loop_step [OF less.prems ne]
    have len: "nat WRITEBUF_LEN \<le> length (wbuf (con s))" using less.prems by (simp add: out_ok_def)
    show ?thesis
    proof (cases "outp s")
      case Nil
      have "sent_all s WRITE_DATA_ALL (s\<lparr>con := (con s)\<lparr>wbuf_len := WRITEBUF_LEN,
         wbuf := blit (wbuf (con s)) 0 (replicate (nat WRITEBUF_LEN) NUL), wbuf_wlen := 0, wbuf_now := 0,
         write_watched := False, read_watched := True\<rparr>, sent := sent s @ to_send (con s)\<rparr>)"
        using sent_all_done [OF less.prems, of "outp s"] by simp
      then show ?thesis
        using len Nil ne
        by (simp add: net_order wp_def step sock_write_def bnd_def gets_def thn_def modify_def ret_def modc_def write_done_run)
    next
      case (Cons e es)
      have stays: "sent_all s WRITE_DATA_PART (s\<lparr>outp := es\<rparr>)" "sent_all s WRITE_ERROR (s\<lparr>outp := es\<rparr>)"
        using out_frame_outp [of s es] less.prems by (simp_all add: sent_all_def)
      show ?thesis
      proof (cases e)
        case (WrSome n)
        consider "n = 0" | "length (to_send (con s)) \<le> n" "n \<noteq> 0" | "n \<noteq> 0" "n < length (to_send (con s))" by linarith
        then show ?thesis
        proof cases
          case 1
          then show ?thesis using stays Cons WrSome
            by (simp add: wp_def step sock_write_def bnd_def gets_def thn_def modify_def ret_def)
        next
          case 2
          then show ?thesis
            using sent_all_done [OF less.prems, of es] len Cons WrSome ne
            by (simp add: net_order wp_def step sock_write_def bnd_def gets_def thn_def modify_def ret_def modc_def write_done_run)
        next
          case 3
          let ?s1 = "s\<lparr>con := (con s)\<lparr>wbuf_wlen := wbuf_wlen (con s) + int n, wbuf_now := wbuf_now (con s) + n\<rparr>,
            outp := es, sent := sent s @ take n (to_send (con s))\<rparr>"
          note part = sent_all_part [OF less.prems 3(2) refl [of ?s1]]
          have "write_loop s = write_loop ?s1"
            using 3 Cons WrSome
            by (simp add: net_order step sock_write_def bnd_def gets_def thn_def modify_def ret_def modc_def)
          moreover have "wp write_loop (sent_all ?s1) ?s1"
            by (rule less.hyps) (use part(1,2) 3 ne in simp_all)
          ultimately have "wp write_loop (sent_all ?s1) s" by (simp add: wp_def)
          then show ?thesis by (rule wp_mono) (rule part(3))
        qed
      qed (use stays Cons in \<open>simp_all add: wp_def step sock_write_def bnd_def gets_def thn_def modify_def ret_def\<close>)
    qed
  qed
qed

section \<open>Receiving\<close>




definition in_fits :: "conn \<Rightarrow> bool" where
  "in_fits c \<longleftrightarrow> 0 < rbuf_len c \<and> length (rbuf c) = nat (rbuf_len c) \<and> 0 \<le> rbuf_rlen c \<and> rbuf_rlen c \<le> rbuf_len c"

text \<open>Nothing waits to be sent.\<close>

definition out_idle :: "conn \<Rightarrow> bool" where
  "out_idle c \<longleftrightarrow> wbuf_len c = WRITEBUF_LEN \<and> wbuf_wlen c = 0 \<and> wbuf_now c = 0 \<and>
     nat WRITEBUF_LEN \<le> length (wbuf c)"


text \<open>The answers of the server are far shorter than the buffer.\<close>

definition answer :: "string \<Rightarrow> string" where
  "answer w = (if length w + 2 \<ge> nat WRITEBUF_LEN then ''SERVER_ERROR output line too long'' else w)"

lemma answer_short: "length (answer w) + 2 \<le> nat WRITEBUF_LEN"
  by (simp add: answer_def WRITEBUF_LEN_def)

lemma out_string_run:
  assumes "out_idle (con s)"
  shows "out_string w s = Some (Inr ((), s\<lparr>con := (con s)\<lparr>noreply := False, c_state := conn_write,
     wbuf := blit (wbuf (con s)) 0 (answer w @ crlf), wbuf_len := int (length (answer w)) + 2, wbuf_now := 0\<rparr>\<rparr>))"
proof -
  have b: "length (answer w) + 2 \<le> length (wbuf (con s))" "wbuf_len (con s) = WRITEBUF_LEN"
    using assms answer_short [of w] by (simp_all add: out_idle_def)
  have c: "length crlf = 2" by (simp add: crlf_def)
  have a: "(if int (length w) + 2 \<ge> WRITEBUF_LEN then ''SERVER_ERROR output line too long'' else w) = answer w"
    by (auto simp: answer_def WRITEBUF_LEN_def)
  have bb: "blit (blit (wbuf (con s)) 0 (answer w)) (length (answer w)) crlf = blit (wbuf (con s)) 0 (answer w @ crlf)"
    using b(1) c by (simp add: blit_def)
  have p: "put_bytes (wbuf (con s)) 0 (answer w) s1 = Some (Inr (blit (wbuf (con s)) 0 (answer w), s1))"
    "put_bytes (blit (wbuf (con s)) 0 (answer w)) (int (length (answer w))) crlf s1 =
       Some (Inr (blit (wbuf (con s)) 0 (answer w @ crlf), s1))" for s1
    using b c by (simp_all add: put_bytes_def ret_def bb)
  show ?thesis
  proof (cases "noreply (con s)")
    case True
    then show ?thesis
      by (simp add: out_string_def seqs.simps prog_defs getc_def conn_state_set_def modc_def b(2) a p Let_def)
  next
    case False
    then have "s = s\<lparr>con := (con s)\<lparr>noreply := False\<rparr>\<rparr>" by simp
    with False show ?thesis
      by (simp add: out_string_def seqs.simps prog_defs getc_def conn_state_set_def modc_def b(2) a p Let_def)
  qed
qed









section \<open>A connection at rest\<close>

definition demo_conn :: conn where
  "demo_conn = \<lparr> sfd = 5, c_state = conn_read, c_flag = EV_READ, noreply = False, flag_stop = False,
     flag_precmd = False, flag_shake = False, rbuf = replicate 2048 NUL, rbuf_now = 0, rbuf_len = 2048, rbuf_rlen = 0,
     rnbuf = [], rnbuf_now = 0, rnbuf_len = 0, rnbuf_rlen = 0, c_item = 0, c_cmd = NREAD_ERROR, c_cas = 0,
     wbuf = replicate 2048 NUL, wbuf_now = 0, wbuf_len = 2048, wbuf_wlen = 0, read_watched = True,
     write_watched = False, fd_open = True \<rparr>"

definition demo_net :: "machine \<Rightarrow> rd_event list \<Rightarrow> wr_event list \<Rightarrow> net" where
  "demo_net m is os = \<lparr> mach = m, con = demo_conn, inp = is, outp = os, sent = [], accepts = [],
     disp = started 1, junk = (\<lambda>_ _. NUL) \<rparr>"

lemma demo_simps [simp]:
  "mach (demo_net m is os) = m" "con (demo_net m is os) = demo_conn" "inp (demo_net m is os) = is"
  "outp (demo_net m is os) = os" "sent (demo_net m is os) = []"
  by (simp_all add: demo_net_def)

lemma demo_ok [simp]: "out_idle demo_conn" "in_fits demo_conn" "rbuf_len demo_conn = 2048" "rbuf_now demo_conn = 0"
  "rbuf_rlen demo_conn = 0"
  by (simp_all add: demo_conn_def out_idle_def in_fits_def WRITEBUF_LEN_def)

section \<open>Properties\<close>

lemma out_idle_ok: "out_idle c \<Longrightarrow> out_ok c"
  by (simp add: out_idle_def out_ok_def WRITEBUF_LEN_def)

text \<open>C22: Sending ends whatever the socket does, and loses nothing: what was sent followed by what is
  left in the buffer is what was to be sent; when \<open>write_activate_read\<close> reports that all is
  written, everything has been sent and the buffer is reset.\<close>
theorem sending_is_complete:
  assumes "out_ok (con s)"
  shows "\<exists>r s' got. write_activate_read s = Some (Inr (r, s')) \<and> sent s' = sent s @ got \<and>
     (case r of
        WRITE_DATA_ALL \<Rightarrow> got = to_send (con s) \<and> (got \<noteq> [] \<longrightarrow> out_reset (con s'))
      | _ \<Rightarrow> to_send (con s) = got @ to_send (con s') \<and> out_ok (con s'))"
  using write_loop_wp [OF assms] unfolding wp_iff write_activate_read_def sent_all_def by blast

lemma sending_is_complete_witness:
  "\<exists>r s'. write_activate_read (demo_net fresh_server [] [WrSome 3, WrAgain]) = Some (Inr (r, s'))"
  using sending_is_complete [of "demo_net fresh_server [] [WrSome 3, WrAgain]"] out_idle_ok [OF demo_ok(1)]
  by fastforce

text \<open>An answer always fits the buffer, and the client receives exactly the line with its
  terminator; one of 2046 characters or more is replaced by an error. Afterwards the connection is
  at rest again.\<close>
theorem answer_reaches_client:
  assumes "out_idle (con s)" and "outp s = []"
  shows "\<exists>s'. thn (out_string w_str) write_activate_read s = Some (Inr (WRITE_DATA_ALL, s')) \<and>
     sent s' = sent s @ (if length w_str < 2046 then w_str else ''SERVER_ERROR output line too long'') @ crlf \<and>
     out_idle (con s') \<and> c_state (con s') = conn_write"
proof -
  let ?c1 = "(con s)\<lparr>noreply := False, c_state := conn_write, wbuf := blit (wbuf (con s)) 0 (answer w_str @ crlf),
     wbuf_len := int (length (answer w_str)) + 2, wbuf_now := 0\<rparr>"
  let ?s1 = "s\<lparr>con := ?c1\<rparr>"
  have l: "length (answer w_str @ crlf) = length (answer w_str) + 2" by (simp add: crlf_def)
  have b: "length (answer w_str) + 2 \<le> length (wbuf (con s))" "wbuf_wlen (con s) = 0" "int (length (answer w_str)) + 2 < 2 ^ 31"
    "2048 \<le> length (wbuf (con s))"
    using assms answer_short [of w_str] by (auto simp: out_idle_def WRITEBUF_LEN_def)
  have ok: "out_ok (con ?s1)" using b l by (simp add: out_ok_def WRITEBUF_LEN_def)
  have ts: "to_send (con ?s1) = answer w_str @ crlf" using b(1) l by (simp add: to_send_def blit_def)
  then have ne: "to_send (con ?s1) \<noteq> []" by (simp add: crlf_def)
  have w: "wbuf (con ?s1) = blit (wbuf (con s)) 0 (answer w_str @ crlf)" "nat WRITEBUF_LEN \<le> length (wbuf (con ?s1))"
    using b l by (simp_all add: WRITEBUF_LEN_def)
  have "\<exists>s'. write_activate_read ?s1 = Some (Inr (WRITE_DATA_ALL, s')) \<and> sent s' = sent s @ to_send (con ?s1) \<and>
      out_idle (con s') \<and> c_state (con s') = conn_write"
    using write_loop_step [OF ok ne] w(2) ne assms(2)
    by (simp add: write_activate_read_def sock_write_def prog_defs modc_def write_done_run out_idle_def)
  then show ?thesis
    unfolding ts thn_run [of "out_string w_str" s, OF out_string_run [OF assms(1)]] by (auto simp: answer_def WRITEBUF_LEN_def)
qed

lemma answer_reaches_client_witness:
  "\<exists>s'. thn (out_string ''STORED'') write_activate_read (demo_net fresh_server [] []) =
     Some (Inr (WRITE_DATA_ALL, s')) \<and> sent s' = ''STORED'' @ crlf"
  using answer_reaches_client [of "demo_net fresh_server [] []" "''STORED''"] by auto



end
