(* ===== verification/Drive.thy ===== *)
theory Drive
  imports Protocol Traffic
begin

text \<open>
  The state machine of a connection (\<open>drive_machine\<close>) and the events that start it
  (\<open>conn_handler\<close>): one step per state, and the loop, which need not end.
\<close>

section \<open>Accepting and closing\<close>

definition conn_close :: "(net, unit) prog" where
  "conn_close = modc (\<lambda>c. c\<lparr>read_watched := False, write_watched := False, fd_open := False\<rparr>)"

definition set_stop :: "bool \<Rightarrow> (net, unit) prog" where
  "set_stop b = modc (\<lambda>c. c\<lparr>flag_stop := b\<rparr>)"

text \<open>\<open>accept\<close>, which fails on a socket that has been closed.\<close>

definition sock_accept :: "(net, ac_event) prog" where
  "sock_accept = bnd (getc fd_open) (\<lambda>op. if \<not> op then ret AcNone
     else bnd (gets accepts) (\<lambda>es. case es of [] \<Rightarrow> ret AcNone
       | e # es' \<Rightarrow> thn (modify (\<lambda>s. s\<lparr>accepts := es'\<rparr>)) (ret e)))"

text \<open>When the new socket cannot be made non-blocking it is the listening one that is closed.\<close>

definition listen_step :: "(net, unit) prog" where
  "listen_step = bnd sock_accept (\<lambda>e. case e of
       AcNone \<Rightarrow> set_stop True
     | AcClient accept_sfd nonblock \<Rightarrow>
         if \<not> nonblock then modc (\<lambda>c. c\<lparr>fd_open := False\<rparr>)
         else seqs [on_disp (dispatch_conn_new accept_sfd conn_read EV_READ), set_stop True])"

section \<open>The other states\<close>

definition parse_step :: "(net, unit) prog" where
  "parse_step = seqs [
     bnd try_read_command (\<lambda>r. whenP (r = 0) (conn_state_set conn_waiting)),
     bnd (getc flag_shake) (\<lambda>b. whenP (\<not> b) (set_stop True)),
     bnd (getc c_state) (\<lambda>st. whenP (st = conn_closed) (set_stop False))]"

definition read_step :: "(net, unit) prog" where
  "read_step = bnd try_read_tcp (\<lambda>res. case res of
       READ_NO_DATA_RECEIVED \<Rightarrow> conn_state_set conn_waiting
     | READ_DATA_RECEIVED \<Rightarrow> conn_state_set conn_parse_cmd
     | READ_ERROR \<Rightarrow> conn_state_set conn_closed
     | READ_MEMORY_ERROR \<Rightarrow> ret ())"

definition write_step :: "(net, unit) prog" where
  "write_step = bnd write_activate_read (\<lambda>r. case r of
       WRITE_DATA_PART \<Rightarrow> ret ()
     | WRITE_DATA_ALL \<Rightarrow> conn_state_set conn_waiting
     | WRITE_ERROR \<Rightarrow> conn_state_set conn_closed)"

section \<open>The machine\<close>

definition drive_step :: "(net, unit) prog" where
  "drive_step = bnd (getc c_state) (\<lambda>st. case st of
       conn_listening \<Rightarrow> listen_step
     | conn_parse_cmd \<Rightarrow> parse_step
     | conn_read \<Rightarrow> read_step
     | conn_write \<Rightarrow> write_step
     | conn_nread \<Rightarrow> read_value_stored
     | conn_waiting \<Rightarrow> seqs [conn_state_set conn_read, set_stop True]
     | conn_closed \<Rightarrow> seqs [conn_close, set_stop True])"

partial_function (option) drive_loop :: "(net, unit) prog" where
  "drive_loop s = bnd (getc flag_stop) (\<lambda>stop.
     if stop then ret () else thn drive_step drive_loop) s"

definition drive_machine :: "(net, unit) prog" where
  "drive_machine = thn drive_loop (set_stop False)"

declare drive_loop.simps [code]

text \<open>An event on a descriptor; the result is whether the connection still exists.\<close>

definition conn_handler :: "int \<Rightarrow> (net, bool) prog" where
  "conn_handler watcher_fd = bnd (getc sfd) (\<lambda>fd.
     if watcher_fd \<noteq> fd then ret False else thn drive_machine (ret True))"

text \<open>A loop that is entered again and again never returns.\<close>

lemma drive_loop_diverges:
  assumes step: "\<And>s. I s \<Longrightarrow> \<not> flag_stop (con s) \<and> (\<exists>s'. drive_step s = Some (Inr ((), s')) \<and> I s')"
    and I: "I s"
  shows "drive_loop s = None"
proof (rule ccontr)
  assume "drive_loop s \<noteq> None"
  then obtain y where y: "drive_loop s = Some y" by blast
  have "\<not> I s"
  proof (rule drive_loop.raw_induct [where P = "\<lambda>s y. \<not> I s", OF _ y])
    fix f :: "net \<Rightarrow> (fault + unit \<times> net) option" and x z
    assume IH: "\<And>x y. f x = Some y \<Longrightarrow> \<not> I x"
      and eq: "bnd (getc flag_stop) (\<lambda>stop. if stop then ret () else thn drive_step f) x = Some z"
    show "\<not> I x"
    proof
      assume "I x"
      with step obtain x' where "\<not> flag_stop (con x)" "drive_step x = Some (Inr ((), x'))" "I x'" by blast
      then have "f x' = Some z" using eq by (simp add: bnd_def thn_def getc_def gets_def)
      then show False using IH \<open>I x'\<close> by blast
    qed
  qed
  with I show False by blast
qed

end
