(* ===== verification/States.thy ===== *)
theory States
  imports Drive
begin

text \<open>
  The state graph of a connection: which state \<open>drive_machine\<close> can take a connection to from
  each, as a relation, and that no step leaves it.
\<close>

section \<open>Programs with an effect\<close>

text \<open>All runs of a program that return are related by \<open>R\<close>; \<open>R\<close> composes, so the effect of a
  program follows from the effects of its parts.\<close>

definition within :: "('s \<Rightarrow> 's \<Rightarrow> bool) \<Rightarrow> ('s, 'a) prog \<Rightarrow> bool" where
  "within R p \<longleftrightarrow> (\<forall>s r s'. p s = Some (Inr (r, s')) \<longrightarrow> R s s')"

lemma withinD: "within R p \<Longrightarrow> p s = Some (Inr (r, s')) \<Longrightarrow> R s s'"
  by (simp add: within_def)

lemma within_runs: "bnd m k s = Some (Inr (r, s')) \<Longrightarrow> within R (bnd m k) \<Longrightarrow> R s s'"
  by (rule withinD)

lemma bnd_returns: "bnd m k s = Some (Inr (r, s')) \<longleftrightarrow> (\<exists>x t. m s = Some (Inr (x, t)) \<and> k x t = Some (Inr (r, s')))"
  by (cases "m s") (auto simp: bnd_def split: sum.splits)

lemma thn_returns: "thn m k s = Some (Inr (r, s')) \<longleftrightarrow> (\<exists>x t. m s = Some (Inr (x, t)) \<and> k t = Some (Inr (r, s')))"
  by (simp add: thn_def bnd_returns)

locale effect =
  fixes R :: "'s \<Rightarrow> 's \<Rightarrow> bool"
  assumes refl: "R s s"
    and trans: "R s t \<Longrightarrow> R t u \<Longrightarrow> R s u"
begin

lemma within_ret: "within R (ret x)" "within R (fail e)" "within R never" "within R (gets f)"
  by (simp_all add: within_def prog_defs refl)

lemma within_modify: "(\<And>s. R s (f s)) \<Longrightarrow> within R (modify f)"
  by (simp add: within_def prog_defs)

lemma within_bnd: "within R m \<Longrightarrow> (\<And>x. within R (k x)) \<Longrightarrow> within R (bnd m k)"
  unfolding within_def bnd_returns using trans by blast

lemma within_thn: "within R m \<Longrightarrow> within R k \<Longrightarrow> within R (thn m k)"
  unfolding thn_def by (rule within_bnd)

lemma within_seqs: "within R (seqs [])" "within R m \<Longrightarrow> within R (seqs ms) \<Longrightarrow> within R (seqs (m # ms))"
  by (simp_all add: seqs.simps within_ret within_thn)

lemma within_option: "within R m \<Longrightarrow> (\<And>x. within R (k x)) \<Longrightarrow> within R (case x of None \<Rightarrow> m | Some y \<Rightarrow> k y)"
  by (simp split: option.split)

lemma within_prod: "(\<And>x y. within R (k x y)) \<Longrightarrow> within R (case z of (x, y) \<Rightarrow> k x y)"
  by (simp split: prod.split)

lemma within_if: "(b \<Longrightarrow> within R m) \<Longrightarrow> (\<not> b \<Longrightarrow> within R k) \<Longrightarrow> within R (if b then m else k)"
  by simp

lemma within_whenP: "within R m \<Longrightarrow> within R (whenP b m)"
  by (simp add: whenP_def within_ret)

lemmas rules = within_ret within_bnd within_thn within_if within_whenP within_seqs within_option within_prod

end

section \<open>Where a connection may go\<close>

inductive moves :: "conn_states \<Rightarrow> conn_states \<Rightarrow> bool" where
  listening: "moves conn_listening conn_listening"
| parsing: "st \<noteq> conn_listening \<Longrightarrow> moves conn_parse_cmd st"
| reading: "st \<in> {conn_waiting, conn_parse_cmd, conn_closed, conn_write} \<Longrightarrow> moves conn_read st"
| writing: "st \<in> {conn_write, conn_waiting, conn_closed} \<Longrightarrow> moves conn_write st"
| storing: "st \<in> {conn_nread, conn_write, conn_closed} \<Longrightarrow> moves conn_nread st"
| resting: "moves conn_waiting conn_read"
| closed: "moves conn_closed conn_closed"

code_pred moves .

inductive_cases from_closed: "moves conn_closed st"
inductive_cases from_listening: "moves conn_listening st"
inductive_cases into_listening: "moves st conn_listening"
inductive_simps moves_simps: "moves conn_closed st" "moves conn_waiting st" "moves conn_listening st"

section \<open>What each operation does to the state of the connection\<close>

text \<open>The state stays or becomes one of \<open>T\<close>.\<close>

definition stays :: "conn_states set \<Rightarrow> net \<Rightarrow> net \<Rightarrow> bool" where
  "stays T s s' \<longleftrightarrow> c_state (con s') = c_state (con s) \<or> c_state (con s') \<in> T"

interpretation st: effect "stays T" for T
  by unfold_locales (auto simp: stays_def)

lemma stays_mono: "within (stays T) p \<Longrightarrow> T \<subseteq> U \<Longrightarrow> within (stays U) p"
  unfolding within_def stays_def by blast

lemma within_getc: "within (stays T) (getc f)"
  by (simp add: getc_def st.within_ret)

lemma within_modc: "(\<And>c. c_state (f c) = c_state c) \<Longrightarrow> within (stays T) (modc f)"
  unfolding modc_def by (rule st.within_modify) (simp add: stays_def)

lemma within_state_set: "st \<in> T \<Longrightarrow> within (stays T) (conn_state_set st)"
  by (simp add: within_def conn_state_set_def modc_run stays_def)

lemma within_on_mach: "within (stays T) (on_mach m)"
  by (auto simp: within_def on_mach_def stays_def split: option.splits sum.splits)

lemma within_bytes: "within (stays T) (put_bytes b off bs)" "within (stays T) (take_bytes b off n)"
  "within (stays T) (c_string b)" "within (stays T) (memchr b off' x n')" "within (stays T) (strchr_LF b)"
  "within (stays T) (sprintf b off str)"
  by (simp_all add: put_bytes_def take_bytes_def c_string_def memchr_def strchr_LF_def sprintf_def Let_def st.within_ret)

lemma within_new_buf: "within (stays T) (new_buf n)"
  unfolding new_buf_def by (intro st.rules st.within_modify) (simp add: stays_def)

lemmas effects = st.rules within_getc within_modc within_state_set within_on_mach within_bytes within_new_buf

text \<open>An answer leaves the connection writing.\<close>

lemma within_last: "within (\<lambda>_. Q) k \<Longrightarrow> within (\<lambda>_. Q) (thn m k)"
  by (auto simp: within_def thn_returns)

lemma out_string_writes: "within (\<lambda>_ s'. c_state (con s') = conn_write) (out_string w)"
  unfolding out_string_def seqs.simps
  by (rule within_last, rule within_last) (simp add: within_def thn_returns conn_state_set_def modc_run ret_def)

lemma within_out_string: "within (stays {conn_write}) (out_string w)"
  using out_string_writes [of w] by (simp add: within_def stays_def)

lemma within_clear_rbuf: "within (stays T) clear_rbuf"
  unfolding clear_rbuf_def by (intro effects) simp

lemma within_watch: "within (stays T) watch_write" "within (stays T) watch_read"
  unfolding watch_write_def watch_read_def by (intro effects; simp)+

lemma within_answer: "conn_write \<in> T \<Longrightarrow> within (stays T) (out_string w)" "conn_write \<in> T \<Longrightarrow> within (stays T) (clear_and_answer w)"
proof -
  assume T: "conn_write \<in> T"
  show o: "within (stays T) (out_string w)" using stays_mono [OF within_out_string] T by simp
  show "within (stays T) (clear_and_answer w)"
    unfolding clear_and_answer_def by (intro effects within_clear_rbuf within_watch o) simp
qed

section \<open>Parsing\<close>

text \<open>The states a command can lead to.\<close>

definition after_parse :: "conn_states set" where
  "after_parse = {conn_parse_cmd, conn_read, conn_write, conn_nread, conn_closed}"

lemma within_grow: "within (stays after_parse) (grow_wbuf n)"
  unfolding grow_wbuf_def by (intro effects within_answer) (simp_all add: after_parse_def)

lemma within_fill_reply: "within (stays T) (fill_reply it)"
  unfolding fill_reply_def by (intro effects) simp

lemma within_lookups: "within (stays after_parse) (get_command ts)" "within (stays after_parse) (delete_command ts)"
  unfolding get_command_def delete_command_def
  by (intro effects within_answer within_grow within_fill_reply within_watch within_clear_rbuf; simp add: after_parse_def)+

lemma within_storage: "within (stays after_parse) (command_five_six_para ts b)"
  unfolding command_five_six_para_def store_line_def bad_line_def no_chunk_def new_value_buf_def nread_stat_set_def Let_def
  by (intro effects within_answer; simp add: after_parse_def)

lemma within_process_command: "within (stays after_parse) process_command"
  unfolding process_command_def command_one_para_def command_two_para_def command_three_para_def Let_def
  by (intro effects within_answer within_lookups within_storage within_clear_rbuf; simp add: after_parse_def)

lemma within_shake: "within (stays after_parse) (conn_shake e n)"
  unfolding conn_shake_def shake_value_def shake_command_def
  by (intro effects; simp add: after_parse_def)

lemma within_try_read_command: "within (stays after_parse) try_read_command"
  unfolding try_read_command_def Let_def
  by (intro effects within_process_command within_shake; simp)

lemma parse_step_moves:
  assumes "parse_step s = Some (Inr ((), s'))" and "c_state (con s) = conn_parse_cmd"
  shows "moves conn_parse_cmd (c_state (con s'))"
proof -
  have "within (stays (insert conn_waiting after_parse)) parse_step"
    unfolding parse_step_def set_stop_def
    by (intro effects stays_mono [OF within_try_read_command]) auto
  from withinD [OF this assms(1)] assms(2) have "c_state (con s') \<noteq> conn_listening"
    by (auto simp: stays_def after_parse_def)
  then show ?thesis by (rule moves.parsing)
qed

section \<open>Reading and writing\<close>

lemma within_sock_read: "within (stays T) (sock_read n)"
proof -
  have "within (stays T) (case es of [] \<Rightarrow> ret Again
     | RdAgain # es' \<Rightarrow> thn (modify (\<lambda>s. s\<lparr>inp := es'\<rparr>)) (ret Again)
     | RdError # es' \<Rightarrow> thn (modify (\<lambda>s. s\<lparr>inp := es'\<rparr>)) (ret Failed)
     | RdEof # es' \<Rightarrow> thn (modify (\<lambda>s. s\<lparr>inp := es'\<rparr>)) (ret Closed)
     | RdData bs # es' \<Rightarrow>
         if length bs \<le> n then thn (modify (\<lambda>s. s\<lparr>inp := es'\<rparr>)) (ret (if bs = [] then Again else Got bs))
         else thn (modify (\<lambda>s. s\<lparr>inp := RdData (drop n bs) # es'\<rparr>)) (ret (Got (take n bs))))" for es
    by (auto intro!: effects st.within_modify simp: stays_def split: list.split rd_event.split)
  then show ?thesis unfolding sock_read_def by (intro effects)
qed

lemma within_grow_rbuf: "within (stays T) grow_rbuf"
  unfolding grow_rbuf_def by (intro effects) simp

text \<open>The loop that reads stays in its state, except that a failure to grow the buffer is answered.\<close>

definition reads :: "(net, read_status) prog \<Rightarrow> bool" where
  "reads p \<longleftrightarrow> (\<forall>s r s'. p s = Some (Inr (r, s')) \<longrightarrow>
     c_state (con s') = (if r = READ_MEMORY_ERROR then conn_write else c_state (con s)))"

lemma reads_runs: "bnd m k s = Some (Inr (r, s')) \<Longrightarrow> reads (bnd m k) \<Longrightarrow>
    c_state (con s') = (if r = READ_MEMORY_ERROR then conn_write else c_state (con s))"
  by (simp add: reads_def)

lemma reads_ret: "r \<noteq> READ_MEMORY_ERROR \<Longrightarrow> reads (ret r)"
  by (simp add: reads_def ret_def)

lemma reads_bnd: "within (stays {}) m \<Longrightarrow> (\<And>x. reads (k x)) \<Longrightarrow> reads (bnd m k)"
  by (auto simp: reads_def within_def stays_def bnd_returns)

lemma reads_thn: "within (stays {}) m \<Longrightarrow> reads k \<Longrightarrow> reads (thn m k)"
  unfolding thn_def by (rule reads_bnd)

lemma reads_refused: "reads (thn (seqs [m, out_string w]) (ret READ_MEMORY_ERROR))"
  using withinD [OF out_string_writes [of w]]
  by (auto simp: reads_def thn_returns seqs.simps ret_def)

lemma reads_if: "(b \<Longrightarrow> reads m) \<Longrightarrow> (\<not> b \<Longrightarrow> reads k) \<Longrightarrow> reads (if b then m else k)"
  by simp

lemma reads_case: "(\<And>bs. reads (m bs)) \<Longrightarrow> reads c \<Longrightarrow> reads a \<Longrightarrow> reads f \<Longrightarrow>
    reads (case r of Got bs \<Rightarrow> m bs | Closed \<Rightarrow> c | Again \<Rightarrow> a | Failed \<Rightarrow> f)"
  by (simp split: rd_result.split)

lemma read_loop_reads: "st \<noteq> READ_MEMORY_ERROR \<Longrightarrow> reads (read_loop n st)"
proof -
  have "st \<noteq> READ_MEMORY_ERROR \<longrightarrow> (\<forall>r s'. y = Inr (r, s') \<longrightarrow>
      c_state (con s') = (if r = READ_MEMORY_ERROR then conn_write else c_state (con s)))"
    if "read_loop n st s = Some y" for n st s y
  proof (rule read_loop.raw_induct [where P = "\<lambda>n st s y. st \<noteq> READ_MEMORY_ERROR \<longrightarrow> (\<forall>r s'. y = Inr (r, s') \<longrightarrow>
      c_state (con s') = (if r = READ_MEMORY_ERROR then conn_write else c_state (con s)))", OF _ that], intro impI allI, goal_cases)
    case (1 loop n st s y r s')
    have loop: "reads (loop k st')" if "st' \<noteq> READ_MEMORY_ERROR" for k st'
      using 1(1) that unfolding reads_def by blast
    note run = 1(2) [unfolded 1(4)]
    show ?case
      by (rule reads_runs [OF run])
        (intro reads_bnd reads_if reads_ret reads_thn reads_refused reads_case loop 1(3) effects within_grow_rbuf within_sock_read; simp)
  qed
  then show "st \<noteq> READ_MEMORY_ERROR \<Longrightarrow> reads (read_loop n st)" unfolding reads_def by blast
qed

lemma try_read_tcp_reads: "reads try_read_tcp"
  unfolding try_read_tcp_def
  by (intro reads_thn read_loop_reads effects; simp)

lemma read_step_moves:
  assumes "read_step s = Some (Inr ((), s'))" and "c_state (con s) = conn_read"
  shows "moves conn_read (c_state (con s'))"
proof -
  obtain r s1 where r: "try_read_tcp s = Some (Inr (r, s1))"
     and k: "(case r of
       READ_NO_DATA_RECEIVED \<Rightarrow> conn_state_set conn_waiting
     | READ_DATA_RECEIVED \<Rightarrow> conn_state_set conn_parse_cmd
     | READ_ERROR \<Rightarrow> conn_state_set conn_closed
     | READ_MEMORY_ERROR \<Rightarrow> ret ()) s1 = Some (Inr ((), s'))"
    using assms(1) unfolding read_step_def bnd_returns by blast
  have "c_state (con s1) = (if r = READ_MEMORY_ERROR then conn_write else conn_read)"
    using try_read_tcp_reads r assms(2) unfolding reads_def by metis
  then show ?thesis
    using k by (cases r) (auto simp: conn_state_set_def modc_run ret_def intro!: moves.reading)
qed

text \<open>Writing and the value.\<close>

lemma within_write_loop: "within (stays T) write_loop"
proof -
  have "\<forall>r s'. y = Inr (r, s') \<longrightarrow> stays T s s'" if "write_loop s = Some y" for s y
  proof (rule write_loop.raw_induct [where P = "\<lambda>s y. \<forall>r s'. y = Inr (r, s') \<longrightarrow> stays T s s'", OF _ that], intro allI impI, goal_cases)
    case (1 loop s y r s')
    have loop: "within (stays T) loop" using 1(1) unfolding within_def by blast
    have sw: "within (stays T) (sock_write bs)" for bs
    proof -
      have "within (stays T) (case es of [] \<Rightarrow> thn (modify (\<lambda>s. s\<lparr>sent := sent s @ bs\<rparr>)) (ret (Wrote (length bs)))
     | WrAgain # es' \<Rightarrow> thn (modify (\<lambda>s. s\<lparr>outp := es'\<rparr>)) (ret WAgain)
     | WrError # es' \<Rightarrow> thn (modify (\<lambda>s. s\<lparr>outp := es'\<rparr>)) (ret WFailed)
     | WrSome n # es' \<Rightarrow> thn (modify (\<lambda>s. s\<lparr>outp := es', sent := sent s @ take n bs\<rparr>))
         (ret (Wrote (min n (length bs)))))" for es
        by (auto intro!: effects st.within_modify simp: stays_def split: list.split wr_event.split)
      then show ?thesis unfolding sock_write_def by (intro effects)
    qed
    have wd: "within (stays T) write_done"
      unfolding write_done_def by (intro effects within_watch; simp)
    have cs: "within (stays T) (case r of
         Wrote n \<Rightarrow>
           if n = 0 then ret WRITE_ERROR
           else thn (modc (\<lambda>c. c\<lparr>wbuf_wlen := wbuf_wlen c + int n, wbuf_now := wbuf_now c + n\<rparr>))
             (if int n = wbuf_len c - wbuf_wlen c then thn write_done (ret WRITE_DATA_ALL)
              else loop)
       | WAgain \<Rightarrow> ret WRITE_DATA_PART
       | WFailed \<Rightarrow> ret WRITE_ERROR)" for r c
      by (auto intro!: effects wd loop split: wr_result.split)
    show ?case
      by (rule within_runs [OF 1(2) [unfolded 1(3)]]) (intro effects within_watch sw cs)
  qed
  then show ?thesis unfolding within_def by blast
qed

lemma write_step_moves:
  assumes "write_step s = Some (Inr ((), s'))" and "c_state (con s) = conn_write"
  shows "moves conn_write (c_state (con s'))"
proof -
  obtain r s1 where r: "write_loop s = Some (Inr (r, s1))"
     and k: "(case r of
       WRITE_DATA_PART \<Rightarrow> ret ()
     | WRITE_DATA_ALL \<Rightarrow> conn_state_set conn_waiting
     | WRITE_ERROR \<Rightarrow> conn_state_set conn_closed) s1 = Some (Inr ((), s'))"
    using assms(1) unfolding write_step_def write_activate_read_def bnd_returns by blast
  have "stays {} s s1" by (rule withinD [OF within_write_loop r])
  then show ?thesis
    using k assms(2) by (cases r) (auto simp: conn_state_set_def modc_run ret_def stays_def intro!: moves.writing)
qed

lemma within_clear_value: "within (stays T) clear_value_bufs"
  unfolding clear_value_bufs_def by (intro effects within_clear_rbuf; simp)

lemma within_store_value: "within (stays {conn_write}) (store_value w)"
  unfolding store_value_def by (intro effects within_answer within_clear_value; simp)

lemma within_finish: "within (stays {conn_write}) finish_if_complete"
proof -
  have "within (stays {conn_write}) (case cmd of
       NREAD_CAS \<Rightarrow> store_value ''EXISTS''
     | NREAD_ERROR \<Rightarrow> ret ()
     | _ \<Rightarrow> store_value ''NOT_STORED'')" for cmd
    by (simp add: within_store_value st.within_ret split: nread.split)
  then show ?thesis unfolding finish_if_complete_def finish_value_def by (intro effects within_watch)
qed

lemma read_value_moves:
  assumes "read_value_stored s = Some (Inr ((), s'))" and "c_state (con s) = conn_nread"
  shows "moves conn_nread (c_state (con s'))"
proof -
  let ?T = "{conn_write, conn_closed}"
  have f: "within (stays ?T) finish_if_complete" by (rule stays_mono [OF within_finish]) simp
  have "within (stays ?T) (case r of
       Closed \<Rightarrow> if rnbuf_rlen c \<noteq> rnbuf_len c then conn_state_set conn_closed else finish_if_complete
     | Got bs \<Rightarrow> thn (bnd (put_bytes (rnbuf c) 0 bs) (\<lambda>b.
           modc (\<lambda>c. c\<lparr>rnbuf := b, rnbuf_rlen := rnbuf_rlen c + int (length bs)\<rparr>))) finish_if_complete
     | Again \<Rightarrow> ret ()
     | Failed \<Rightarrow> finish_if_complete)" for r c
    by (auto intro!: effects f split: rd_result.split)
  then have "within (stays ?T) read_value_stored"
    unfolding read_value_stored_def by (intro effects f within_sock_read)
  from withinD [OF this assms(1)] assms(2) show ?thesis by (auto simp: stays_def intro!: moves.storing)
qed

section \<open>Every step follows the graph\<close>

lemma within_listen_step: "within (stays T) listen_step"
proof -
  have d: "within (stays T) (on_disp m)" for m :: "(dispatcher, unit) prog"
    by (auto simp: within_def on_disp_def stays_def split: option.splits sum.splits)
  have "within (stays T) (case es of [] \<Rightarrow> ret AcNone
       | e # es' \<Rightarrow> thn (modify (\<lambda>s. s\<lparr>accepts := es'\<rparr>)) (ret e))" for es
    by (auto intro!: effects st.within_modify simp: stays_def split: list.split)
  then have a: "within (stays T) sock_accept" unfolding sock_accept_def by (intro effects)
  have "within (stays T) (case e of
       AcNone \<Rightarrow> set_stop True
     | AcClient accept_sfd nonblock \<Rightarrow>
         if \<not> nonblock then modc (\<lambda>c. c\<lparr>fd_open := False\<rparr>)
         else seqs [on_disp (dispatch_conn_new accept_sfd conn_read EV_READ), set_stop True])" for e
    by (auto intro!: effects d simp: set_stop_def split: ac_event.split)
  then show ?thesis unfolding listen_step_def by (intro effects a)
qed

lemma step_moves:
  assumes "drive_step s = Some (Inr ((), s'))"
  shows "moves (c_state (con s)) (c_state (con s'))"
proof (cases "c_state (con s)")
  case conn_listening
  then have "listen_step s = Some (Inr ((), s'))" using assms by (simp add: drive_step_def bnd_run [OF getc_run])
  from withinD [OF within_listen_step [of "{}"] this] show ?thesis using conn_listening by (simp add: stays_def moves.listening)
next
  case conn_parse_cmd
  then show ?thesis using assms parse_step_moves [of s s'] by (simp add: drive_step_def bnd_run [OF getc_run])
next
  case conn_waiting
  then have "c_state (con s') = conn_read"
    using assms by (auto simp: drive_step_def bnd_run [OF getc_run] seqs.simps conn_state_set_def set_stop_def modc_run thn_returns ret_def)
  then show ?thesis using conn_waiting moves.resting by simp
next
  case conn_read
  then show ?thesis using assms read_step_moves [of s s'] by (simp add: drive_step_def bnd_run [OF getc_run])
next
  case conn_write
  then show ?thesis using assms write_step_moves [of s s'] by (simp add: drive_step_def bnd_run [OF getc_run])
next
  case conn_nread
  then show ?thesis using assms read_value_moves [of s s'] by (simp add: drive_step_def bnd_run [OF getc_run])
next
  case conn_closed
  then have "c_state (con s') = conn_closed"
    using assms by (auto simp: drive_step_def bnd_run [OF getc_run] seqs.simps conn_close_def set_stop_def modc_run thn_returns ret_def)
  then show ?thesis using conn_closed moves.closed by simp
qed

text \<open>C12: Every step of the state machine that returns takes the connection along the state graph:
  a listening connection only listens, a command is parsed after bytes were read, a value is read
  after a line was parsed, an answer is written before the next read, and a closed connection
  stays closed.\<close>
theorem steps_follow_graph:
  assumes "drive_step s = Some (Inr ((), s'))"
  shows "moves (c_state (con s)) (c_state (con s'))"
  by (rule step_moves [OF assms])

section \<open>The life of a connection\<close>

text \<open>The states a connection passes through: bytes may arrive and room to write may come and go
  between the events.\<close>

inductive becomes :: "net \<Rightarrow> net \<Rightarrow> bool" where
  start: "becomes s s"
| event: "becomes s t \<Longrightarrow> drive_machine t = Some (Inr ((), u)) \<Longrightarrow> becomes s u"
| arrival: "becomes s t \<Longrightarrow> becomes s (t\<lparr>inp := is, outp := os\<rparr>)"

lemma drive_loop_path:
  assumes "drive_loop s = Some (Inr ((), s'))"
  shows "moves\<^sup>*\<^sup>* (c_state (con s)) (c_state (con s'))"
proof -
  have "\<forall>s'. y = Inr ((), s') \<longrightarrow> moves\<^sup>*\<^sup>* (c_state (con s)) (c_state (con s'))" if "drive_loop s = Some y" for s y
  proof (rule drive_loop.raw_induct [where P = "\<lambda>s y. \<forall>s'. y = Inr ((), s') \<longrightarrow> moves\<^sup>*\<^sup>* (c_state (con s)) (c_state (con s'))",
      OF _ that], intro allI impI, goal_cases)
    case (1 loop s y s')
    show ?case
    proof (cases "flag_stop (con s)")
      case True
      then show ?thesis using 1(2,3) by (simp add: bnd_run [OF getc_run] ret_def)
    next
      case False
      then obtain t where t: "drive_step s = Some (Inr ((), t))" "loop t = Some (Inr ((), s'))"
        using 1(2,3) by (auto simp: bnd_run [OF getc_run] thn_returns)
      have "moves\<^sup>*\<^sup>* (c_state (con t)) (c_state (con s'))" using 1(1) [OF t(2)] by simp
      with step_moves [OF t(1)] show ?thesis by (rule converse_rtranclp_into_rtranclp)
    qed
  qed
  with assms show ?thesis by blast
qed

lemma path_closed: "moves\<^sup>*\<^sup>* conn_closed st \<Longrightarrow> st = conn_closed"
  by (induction rule: rtranclp_induct) (auto elim: from_closed)

lemma path_listening: "moves\<^sup>*\<^sup>* st st' \<Longrightarrow> st = conn_listening \<longleftrightarrow> st' = conn_listening"
  by (induction rule: rtranclp_induct) (auto elim: from_listening into_listening)

lemma machine_path: "drive_machine s = Some (Inr ((), s')) \<Longrightarrow> moves\<^sup>*\<^sup>* (c_state (con s)) (c_state (con s'))"
  using drive_loop_path by (fastforce simp: drive_machine_def thn_returns set_stop_def modc_run)

text \<open>An event on a closed connection closes it again and does nothing else.\<close>

lemma closed_event:
  assumes "c_state (con s) = conn_closed" and "drive_machine s = Some (Inr ((), s'))"
  shows "c_state (con s') = conn_closed \<and> mach s' = mach s \<and> sent s' = sent s \<and> disp s' = disp s"
proof (cases "flag_stop (con s)")
  case True
  then have "drive_loop s = Some (Inr ((), s))"
    by (subst drive_loop.simps) (simp add: bnd_run [OF getc_run] ret_def)
  then show ?thesis using assms by (auto simp: drive_machine_def thn_returns set_stop_def modc_run)
next
  case False
  let ?t = "s\<lparr>con := (con s)\<lparr>read_watched := False, write_watched := False, fd_open := False, flag_stop := True\<rparr>\<rparr>"
  have "drive_step s = Some (Inr ((), ?t))"
    using assms(1) by (simp add: drive_step_def bnd_run [OF getc_run] conn_close_def set_stop_def seqs_run [OF modc_run] seqs_done)
  then have "drive_loop s = drive_loop ?t"
    using False by (subst drive_loop.simps) (simp add: bnd_run [OF getc_run] thn_run)
  also have "\<dots> = Some (Inr ((), ?t))"
    by (subst drive_loop.simps) (simp add: bnd_run [OF getc_run] ret_def)
  finally show ?thesis using assms by (auto simp: drive_machine_def thn_returns set_stop_def modc_run)
qed

text \<open>C13: Whatever a connection is sent, in whatever pieces, and whatever the socket takes: a connection
  of a client never becomes a listening one nor the listening one a client's, and once closed it
  stays closed and no later event reads or changes the store, sends a byte or hands over a client.\<close>
theorem connection_roles:
  assumes "becomes s t"
  shows "(c_state (con t) = conn_listening \<longleftrightarrow> c_state (con s) = conn_listening) \<and>
     (c_state (con s) = conn_closed \<longrightarrow>
       c_state (con t) = conn_closed \<and> mach t = mach s \<and> sent t = sent s \<and> disp t = disp s)"
  using assms
proof (induction rule: becomes.induct)
  case (event s t u)
  then show ?case using path_listening [OF machine_path [OF event.hyps(2)]] closed_event [OF _ event.hyps(2)] by auto
qed simp_all

lemma steps_follow_graph_witness:
  "moves conn_waiting (c_state (con ((demo_net fresh_server [] [])\<lparr>con := demo_conn\<lparr>c_state := conn_read, flag_stop := True\<rparr>\<rparr>)))"
  using steps_follow_graph [of "(demo_net fresh_server [] [])\<lparr>con := demo_conn\<lparr>c_state := conn_waiting\<rparr>\<rparr>"
    "(demo_net fresh_server [] [])\<lparr>con := demo_conn\<lparr>c_state := conn_read, flag_stop := True\<rparr>\<rparr>"]
  by (simp add: drive_step_def bnd_run [OF getc_run] seqs.simps conn_state_set_def set_stop_def thn_run [OF modc_run] ret_def)

lemma connection_roles_witness:
  "\<exists>t. becomes ((demo_net fresh_server [RdEof] [])\<lparr>con := demo_conn\<lparr>c_state := conn_closed\<rparr>\<rparr>) t \<and>
     inp t = [RdData ''late''] \<and> c_state (con t) = conn_closed \<and> sent t = []"
proof -
  let ?s = "(demo_net fresh_server [RdEof] [])\<lparr>con := demo_conn\<lparr>c_state := conn_closed\<rparr>\<rparr>"
  have "becomes ?s (?s\<lparr>inp := [RdData ''late''], outp := []\<rparr>)" by (intro becomes.arrival becomes.start)
  from this connection_roles [OF this] show ?thesis by (intro exI [of _ "?s\<lparr>inp := [RdData ''late''], outp := []\<rparr>"]) simp
qed

end
