(* ===== verification/Dialogue.thy ===== *)
theory Dialogue
  imports Drive
begin

text \<open>
  A client's lines, one at a time: the splitting of a line into words, what the state machine does
  with a line that arrives in one segment, from a connection \<open>at_rest\<close> between two commands to the
  answer and back, and the lines it cannot cope with.
\<close>

section \<open>Words\<close>

definition word :: "byte list \<Rightarrow> bool" where
  "word w \<longleftrightarrow> w \<noteq> [] \<and> list_all (\<lambda>c. \<not> separates c) w"

lemma words_from_word: "list_all (\<lambda>c. \<not> separates c) w \<Longrightarrow> words_from (w @ l) u = words_from l (u @ w)"
  by (induction w arbitrary: u) simp_all

lemma tokens_Nil [simp]: "tokens [] = []"
  by (simp add: tokens_def)

lemma tokens_sep [simp]: "separates c \<Longrightarrow> tokens (c # l) = tokens l"
  by (simp add: tokens_def)

lemma tokens_word: "word w \<Longrightarrow> separates c \<Longrightarrow> tokens (w @ c # l) = w # tokens l"
  using words_from_word [of w "c # l" "[]"] by (simp add: tokens_def word_def)

lemma tokens_last: "word w \<Longrightarrow> tokens w = [w]"
  using words_from_word [of w "[]" "[]"] by (simp add: tokens_def word_def)

lemma separates_blank [simp]: "separates (CHR '' '')" "separates CR" "separates LF"
  by (simp_all add: separates_def is_space_def char_val_def CR_def LF_def)

text \<open>The line of some words.\<close>

fun unwords :: "byte list list \<Rightarrow> byte list" where
  "unwords [] = []"
| "unwords [w] = w"
| "unwords (w # ws) = w @ CHR '' '' # unwords ws"

lemma tokens_unwords_tail:
  "list_all word ws \<Longrightarrow> separates c \<Longrightarrow> tokens (unwords ws @ c # l) = ws @ tokens l"
  by (induction ws rule: unwords.induct) (simp_all add: tokens_word)

text \<open>
  What a line is made of: a gap, and words each followed by a gap. A gap consists of blanks,
  tabs, line feeds, vertical tabs, form feeds, carriage returns and plus signs, a word has at
  least one character and none of these, and only the first and the last gap may be empty.
\<close>

definition gap :: "byte list \<Rightarrow> bool" where
  "gap g \<longleftrightarrow> set g \<subseteq> {CHR '' '', CHR 0x09, CHR 0x0A, CHR 0x0B, CHR 0x0C, CHR 0x0D, CHR ''+''}"

definition solid :: "byte list \<Rightarrow> bool" where
  "solid w \<longleftrightarrow> w \<noteq> [] \<and>
     set w \<inter> {CHR '' '', CHR 0x09, CHR 0x0A, CHR 0x0B, CHR 0x0C, CHR 0x0D, CHR ''+''} = {}"

definition made_of :: "byte list \<Rightarrow> byte list list \<Rightarrow> bool" where
  "made_of line ws \<longleftrightarrow> (\<exists>lead gaps. line = lead @ concat (map2 (@) ws gaps) \<and> length gaps = length ws \<and>
     gap lead \<and> list_all gap gaps \<and> [] \<notin> set (butlast gaps) \<and> list_all solid ws)"

lemma separates_chars:
  "separates c \<longleftrightarrow> c \<in> {CHR '' '', CHR 0x09, CHR 0x0A, CHR 0x0B, CHR 0x0C, CHR 0x0D, CHR ''+''}"
proof -
  have v: "c = d \<longleftrightarrow> char_val c = char_val d" for d by (simp add: char_val_def)
  have "9 \<le> n \<and> n \<le> 13 \<longleftrightarrow> n = 9 \<or> n = 10 \<or> n = 11 \<or> n = 12 \<or> n = (13 :: nat)" for n by auto
  then show ?thesis
    unfolding separates_def is_space_def insert_iff empty_iff v by (auto simp: char_val_def)
qed

lemma gap_separates: "gap g \<longleftrightarrow> list_all separates g"
  unfolding gap_def list_all_iff by (auto simp: separates_chars)

lemma solid_word: "solid w \<longleftrightarrow> word w"
  unfolding solid_def word_def list_all_iff by (auto simp: separates_chars)

lemma tokens_gap: "gap g \<Longrightarrow> tokens (g @ l) = tokens l"
  unfolding gap_separates by (induction g) simp_all

lemma tokens_pieces:
  assumes "length gaps = length ws" and "list_all gap gaps" and "[] \<notin> set (butlast gaps)" and "list_all word ws"
  shows "tokens (concat (map2 (@) ws gaps)) = ws"
  using assms
proof (induction gaps ws rule: list_induct2)
  case Nil
  then show ?case by simp
next
  case (Cons g gaps w ws)
  let ?r = "concat (map2 (@) ws gaps)"
  have "[] \<notin> set (butlast gaps)" using Cons.prems(2) by (cases gaps) simp_all
  then have ih: "tokens ?r = ws" using Cons.IH Cons.prems(1,3) by simp
  have w: "word w" and g: "gap g" using Cons.prems(1,3) by simp_all
  have "tokens (w @ g @ ?r) = w # tokens ?r"
  proof (cases g)
    case Nil
    then have "gaps = []" using Cons.prems(2) by (cases gaps) simp_all
    then have "ws = []" using Cons.hyps by simp
    then show ?thesis using Nil tokens_last [OF w] by simp
  next
    case (Cons c cs)
    then have "separates c" "gap cs" using g by (simp_all add: gap_separates)
    then show ?thesis using tokens_word [OF w, of c "cs @ ?r"] tokens_gap [of cs ?r] Cons by simp
  qed
  then show ?case using ih by simp
qed

lemma made_of_tokens: "made_of l (tokens l)"
proof (induction l rule: length_induct)
  case (1 l)
  define lead where "lead = takeWhile separates l"
  define r where "r = dropWhile separates l"
  have lr: "l = lead @ r" by (simp add: lead_def r_def)
  have lead: "gap lead" unfolding gap_separates lead_def list_all_iff using set_takeWhileD by fastforce
  have tl: "tokens l = tokens r" unfolding lr by (rule tokens_gap [OF lead])
  show ?case
  proof (cases r)
    case Nil
    then show ?thesis
      using lr lead tl unfolding made_of_def by (intro exI [of _ lead] exI [of _ "[]"]) simp
  next
    case (Cons c cs)
    define w where "w = takeWhile (\<lambda>c. \<not> separates c) r"
    define q where "q = dropWhile (\<lambda>c. \<not> separates c) r"
    have rq: "r = w @ q" by (simp add: w_def q_def)
    have "\<not> separates c" using Cons unfolding r_def by (metis dropWhile_eq_Cons_conv)
    then have "w \<noteq> []" using Cons by (simp add: w_def)
    moreover have "list_all (\<lambda>c. \<not> separates c) w"
      unfolding w_def list_all_iff using set_takeWhileD by fastforce
    ultimately have w: "word w" by (simp add: word_def)
    have "length q < length l" using lr rq \<open>w \<noteq> []\<close> by (cases w) simp_all
    with "1.IH" obtain g gs where q: "q = g @ concat (map2 (@) (tokens q) gs)" "length gs = length (tokens q)"
        "gap g" "list_all gap gs" "[] \<notin> set (butlast gs)" "list_all solid (tokens q)"
      unfolding made_of_def by blast
    have q0: "separates d" if "q = d # ds" for d ds
      using that unfolding q_def by (metis dropWhile_eq_Cons_conv)
    have tq: "tokens (w @ q) = w # tokens q"
    proof (cases q)
      case Nil
      then show ?thesis using tokens_last [OF w] by simp
    next
      case (Cons d ds)
      then show ?thesis using tokens_word [OF w q0 [OF Cons], of ds] q0 [OF Cons] by simp
    qed
    have "[] \<notin> set (butlast (g # gs))"
    proof (cases "tokens q")
      case Nil
      then show ?thesis using q(2) by simp
    next
      case (Cons v vs)
      then obtain h hs where gs: "gs = h # hs" using q(2) by (cases gs) simp_all
      have "word v" using q(6) Cons by (simp add: solid_word)
      then obtain d ds where d: "v = d # ds" "\<not> separates d" by (cases v) (simp_all add: word_def)
      have "g \<noteq> []"
      proof
        assume "g = []"
        then have "q = d # ds @ h @ concat (map2 (@) vs hs)" using q(1) Cons gs d(1) by simp
        then show False using q0 d(2) by blast
      qed
      then show ?thesis using q(5) gs by simp
    qed
    moreover have "l = lead @ concat (map2 (@) (w # tokens q) (g # gs))"
      using lr rq q(1) by simp
    ultimately show ?thesis
      using lead q(2-4,6) w tl rq tq unfolding made_of_def
      by (intro exI [of _ lead] exI [of _ "g # gs"]) (simp add: solid_word)
  qed
qed

text \<open>C24: The words the server makes of a line are exactly the words the line is made of: whatever the
  blanks, tabs, line ends and plus signs before, between and behind them and however many, and
  whatever else the words contain, a line made of the words \<open>ws\<close> is split into \<open>ws\<close>, and every
  line is made of the words it is split into.\<close>
theorem words_of_line: "tokens line = ws \<longleftrightarrow> made_of line ws"
proof
  assume "made_of line ws"
  then obtain lead gaps where "line = lead @ concat (map2 (@) ws gaps)" "length gaps = length ws"
     "gap lead" "list_all gap gaps" "[] \<notin> set (butlast gaps)" "list_all word ws"
    unfolding made_of_def solid_word by blast
  then show "tokens line = ws" using tokens_gap tokens_pieces by simp
qed (use made_of_tokens [of line] in auto)

text \<open>Splitting inverts joining: the words of a line made of words with blanks between them and
  a carriage return at its end are these words, if none is empty or contains white space or a
  plus sign.\<close>
theorem words_of_joined_line:
  assumes "list_all word ws"
  shows "tokens (unwords ws @ [CR]) = ws"
  using tokens_unwords_tail [OF assms, of CR "[]"] by simp

lemma words_of_joined_line_witness:
  "tokens (''get k'' @ [CR]) = [''get'', ''k''] \<and> tokens ''get a+b'' = [''get'', ''a'', ''b'']"
proof -
  have "list_all word [''get'', ''k'']" by (simp add: word_def separates_def is_space_def char_val_def)
  from words_of_joined_line [OF this] show ?thesis
    by (simp add: tokens_def separates_def is_space_def char_val_def)
qed

section \<open>Running the machine\<close>

lemma drive_loop_go:
  "\<not> flag_stop (con s) \<Longrightarrow> drive_step s = Some (Inr ((), s1)) \<Longrightarrow> drive_loop s = drive_loop s1"
  by (subst drive_loop.simps) (simp add: bnd_run [OF getc_run] thn_run)

lemma drive_loop_stop: "flag_stop (con s) \<Longrightarrow> drive_loop s = Some (Inr ((), s))"
  by (subst drive_loop.simps) (simp add: bnd_run [OF getc_run] ret_def)

lemma drive_loop_fault:
  "\<not> flag_stop (con s) \<Longrightarrow> drive_step s = Some (Inl e) \<Longrightarrow> drive_loop s = Some (Inl e)"
  by (subst drive_loop.simps) (simp add: getc_run thn_def bnd_def)

lemma drive_machine_stops:
  "drive_loop s = Some (Inr ((), s1)) \<Longrightarrow>
     drive_machine s = Some (Inr ((), s1\<lparr>con := (con s1)\<lparr>flag_stop := False\<rparr>\<rparr>))"
  by (simp add: drive_machine_def thn_run set_stop_def modc_run)

lemma drive_step_state: "drive_step s = (case c_state (con s) of
       conn_listening \<Rightarrow> listen_step
     | conn_parse_cmd \<Rightarrow> parse_step
     | conn_read \<Rightarrow> read_step
     | conn_write \<Rightarrow> write_step
     | conn_nread \<Rightarrow> read_value_stored
     | conn_waiting \<Rightarrow> seqs [conn_state_set conn_read, set_stop True]
     | conn_closed \<Rightarrow> seqs [conn_close, set_stop True]) s"
  by (simp add: drive_step_def bnd_run [OF getc_run])

section \<open>A connection between two commands\<close>

text \<open>
  Between two commands: nothing read and nothing to send, and the buffer for lines has been
  cleared. This holds after every command that is answered as it should be.
\<close>

definition at_rest :: "conn \<Rightarrow> bool" where
  "at_rest c \<longleftrightarrow> c_state c = conn_read \<and> \<not> flag_stop c \<and> out_idle c \<and> length (wbuf c) = 2048 \<and> rbuf_rlen c = 0 \<and>
     rnbuf_rlen c = 0 \<and>     0 < rbuf_len c \<and> rbuf_len c < 2 ^ 27 \<and> rbuf c = replicate (nat (rbuf_len c)) NUL"

text \<open>
  A new connection has the same state, but its buffer holds whatever was in the memory it was
  given. It takes a line as it should when the byte behind the line is 0.
\<close>

definition resting :: "conn \<Rightarrow> bool" where
  "resting c \<longleftrightarrow> c_state c = conn_read \<and> \<not> flag_stop c \<and> out_idle c \<and> length (wbuf c) = 2048 \<and> rbuf_rlen c = 0 \<and>
     rnbuf_rlen c = 0 \<and> 0 < rbuf_len c \<and> rbuf_len c < 2 ^ 27 \<and> length (rbuf c) = nat (rbuf_len c)"

definition ready :: "byte list \<Rightarrow> conn \<Rightarrow> bool" where
  "ready w c \<longleftrightarrow> resting c \<and> rbuf c ! Suc (length w) = NUL"

text \<open>The connection when a line \<open>w\<close> and its newline have been read, and when the newline has been
  replaced.\<close>

definition with_line :: "byte list \<Rightarrow> conn \<Rightarrow> conn" where
  "with_line w c = c\<lparr>rbuf := w @ LF # drop (Suc (length w)) (rbuf c),
     rbuf_now := Suc (length w), rbuf_rlen := int (Suc (length w)), c_state := conn_parse_cmd\<rparr>"

definition with_command :: "byte list \<Rightarrow> conn \<Rightarrow> conn" where
  "with_command w c = c\<lparr>rbuf := w @ NUL # drop (Suc (length w)) (rbuf c),
     rbuf_now := Suc (length w), rbuf_rlen := int (Suc (length w)), c_state := conn_parse_cmd, flag_shake := False\<rparr>"

definition plain_line :: "byte list \<Rightarrow> conn \<Rightarrow> bool" where
  "plain_line w c \<longleftrightarrow> LF \<notin> set w \<and> NUL \<notin> set w \<and> int (length w) + 1 < rbuf_len c \<and> rbuf_len c < 2 ^ 27"

text \<open>The connection after one segment has been read.\<close>

definition with_bytes :: "byte list \<Rightarrow> conn \<Rightarrow> conn" where
  "with_bytes bs c = c\<lparr>rbuf := bs @ drop (length bs) (rbuf c),
     rbuf_now := length bs, rbuf_rlen := int (length bs), c_state := conn_parse_cmd\<rparr>"

lemma at_rest_resting: "at_rest c \<Longrightarrow> resting c"
  by (simp add: at_rest_def resting_def)

lemma at_rest_ready: "at_rest c \<Longrightarrow> plain_line w c \<Longrightarrow> ready w c"
  by (simp add: ready_def at_rest_resting) (simp add: at_rest_def plain_line_def zless_nat_eq_int_zless)

lemma ready_simps:
  assumes "ready w c"
  shows "c_state c = conn_read" "\<not> flag_stop c" "out_idle c" "rbuf_rlen c = 0" "0 < rbuf_len c" "rbuf_len c < 2 ^ 27"
    "rbuf c ! Suc (length w) = NUL" "length (rbuf c) = nat (rbuf_len c)" "length (wbuf c) = 2048"
    "rnbuf_rlen c = 0" "resting c"
  using assms by (simp_all add: ready_def resting_def)

lemma bytes_read:
  assumes rest: "resting (con s)" and bs: "bs \<noteq> []" "int (length bs) < rbuf_len (con s)" and i: "inp s = RdData bs # is"
  shows "read_step s = Some (Inr ((), s\<lparr>inp := is, con := with_bytes bs (con s)\<rparr>))"
proof -
  let ?c = "con s" and ?n = "length bs"
  have c: "rbuf_rlen ?c = 0" "0 < rbuf_len ?c" "rbuf_len ?c < 2 ^ 27" "length (rbuf ?c) = nat (rbuf_len ?c)"
    using rest by (simp_all add: resting_def)
  let ?s0 = "s\<lparr>con := ?c\<lparr>rbuf_now := 0\<rparr>\<rparr>"
  have n: "?n < nat (rbuf_len ?c)" using bs(2) by simp
  have b: "blit (rbuf ?c) 0 bs = bs @ drop ?n (rbuf ?c)"
    by (simp add: blit_def)
  have loop: "read_loop 0 READ_NO_DATA_RECEIVED ?s0 = Some (Inr (READ_DATA_RECEIVED,
      s\<lparr>inp := is, con := ?c\<lparr>rbuf := bs @ drop ?n (rbuf ?c), rbuf_now := ?n, rbuf_rlen := int ?n\<rparr>\<rparr>))"
    using c n i b bs
    by (subst read_loop.simps) (simp add: prog_defs getc_def sock_read_def put_bytes_def modc_def)
  have "try_read_tcp s = read_loop 0 READ_NO_DATA_RECEIVED ?s0"
  proof (cases "rbuf_now ?c = 0")
    case True
    then have "?c\<lparr>rbuf_now := 0\<rparr> = ?c" by (intro conn.equality) simp_all
    then have "?s0 = s" by (intro net.equality) simp_all
    then show ?thesis using True by (simp only: try_read_tcp_def prog_defs getc_def id_apply) simp
  next
    case False
    then show ?thesis using c(1) by (simp add: try_read_tcp_def prog_defs getc_def modc_def seqs.simps)
  qed
  with loop show ?thesis
    by (simp add: read_step_def bnd_def conn_state_set_def modc_run with_bytes_def)
qed

lemma with_line_bytes: "with_line w c = with_bytes (w @ [LF]) c"
  by (simp add: with_line_def with_bytes_def)

lemma line_read:
  assumes "resting (con s)" and "plain_line w (con s)" and "inp s = RdData (w @ [LF]) # is"
  shows "read_step s = Some (Inr ((), s\<lparr>inp := is, con := with_line w (con s)\<rparr>))"
  unfolding with_line_bytes using assms(2,3) by (intro bytes_read assms(1)) (simp_all add: plain_line_def)

text \<open>A segment of a line and what follows it, when the newline has been replaced.\<close>

definition with_segment :: "byte list \<Rightarrow> byte list \<Rightarrow> conn \<Rightarrow> conn" where
  "with_segment w x c = c\<lparr>rbuf := w @ NUL # x @ drop (Suc (length w + length x)) (rbuf c),
     rbuf_now := Suc (length w + length x), rbuf_rlen := int (Suc (length w + length x)),
     c_state := conn_parse_cmd, flag_shake := (hd (x @ drop (Suc (length w + length x)) (rbuf c)) \<noteq> NUL)\<rparr>"

lemma with_segment_none:
  "ready w c \<Longrightarrow> plain_line w c \<Longrightarrow> with_segment w [] c = with_command w c"
  by (simp add: with_segment_def with_command_def ready_def resting_def plain_line_def hd_drop_conv_nth zless_nat_eq_int_zless)

definition after_command :: "nat \<Rightarrow> (net, unit) prog" where
  "after_command endp = bnd (getc id) (\<lambda>c. if flag_shake c then conn_shake endp (rbuf_rlen c - int endp)
     else seqs [
       whenP (rbuf_rlen c \<noteq> 0) (modc (\<lambda>c. c\<lparr>rbuf_rlen := rbuf_rlen c - (int endp - int (rbuf_now c))\<rparr>)),
       whenP (rbuf_now c \<noteq> 0) (modc (\<lambda>c. c\<lparr>rbuf_now := endp\<rparr>))])"

lemma bind_unit: "Option.bind m (case_sum (\<lambda>e. Some (Inl e)) (\<lambda>(x :: unit, s'). Some (Inr ((), s')))) = m"
  by (cases m) (auto split: sum.splits)

lemma command_start:
  assumes w: "LF \<notin> set w" and lr: "length (rbuf c) = nat (rbuf_len c)"
    and l: "int (length w + length x) + 1 < rbuf_len c" "rbuf_len c < 2 ^ 27"
  shows "try_read_command (s\<lparr>con := with_bytes (w @ LF # x) c\<rparr>) =
     thn (thn process_command (after_command (length w + 1))) (ret 1) (s\<lparr>con := with_segment w x c\<rparr>)"
proof -
  let ?b = "with_bytes (w @ LF # x) c" and ?n = "length w"
  define N where "N = Suc (length w + length x)"
  have n: "N < nat (rbuf_len c)" using l(1) by (simp add: zless_nat_eq_int_zless N_def)
  define z where "z = drop N (rbuf c)"
  have z: "z \<noteq> []" using n lr by (simp add: z_def)
  have fl: "rbuf_rlen ?b = int N" "rbuf_now ?b = N" "rbuf ?b = w @ LF # x @ z"
    by (simp_all add: with_bytes_def N_def z_def)
  have sz: "size_t (int N) = N" using l n by simp
  have tk: "take N (w @ LF # x @ z) = w @ LF # x" by (simp add: N_def)
  have "takeWhile (\<lambda>b. b \<noteq> LF) (w @ LF # x) = w @ takeWhile (\<lambda>b. b \<noteq> LF) (LF # x)"
    using w by (intro takeWhile_append2) blast
  then have tw: "takeWhile (\<lambda>b. b \<noteq> LF) (w @ LF # x) = w" by simp
  have mem: "memchr (rbuf ?b) 0 LF N t = Some (Inr (Some ?n, t))" for t
    unfolding memchr_def fl(3) drop_0 tk tw by (simp add: ret_def)
  have nx: "take_bytes (rbuf ?b) (int ?n + 1) 1 t = Some (Inr ([hd (x @ z)], t))" for t
    unfolding take_bytes_def fl(3) using z by (cases "x @ z") (auto simp: ret_def nat_add_distrib)
  have put: "put_bytes (rbuf ?b) (int ?n) [NUL] t = Some (Inr (rbuf (with_segment w x c), t))" for t
    unfolding put_bytes_def fl(3) with_segment_def by (simp add: ret_def blit_def N_def z_def)
  have ws: "?b\<lparr>flag_shake := (hd (x @ z) \<noteq> NUL), rbuf := rbuf (with_segment w x c)\<rparr> = with_segment w x c"
    by (simp add: with_bytes_def with_segment_def N_def z_def)
  have r0: "N \<noteq> 0" by (simp add: N_def)
  have ef: "int ?n - int N \<le> 1" by (simp add: N_def)
  show ?thesis
    using r0 ef by (simp add: bind_unit try_read_command_def getc_run ws sz fl(1,2) bnd_def mem nx thn_def modc_run put Let_def seqs.simps
        after_command_def ret_def split: option.splits sum.splits prod.splits)
qed

lemma line_parsed:
  assumes rd: "ready w c" and w: "plain_line w c"
    and p: "process_command (s\<lparr>con := with_command w c\<rparr>) = Some (Inr ((), s2))" and sh: "\<not> flag_shake (con s2)"
  shows "parse_step (s\<lparr>con := with_line w c\<rparr>) = Some (Inr ((), s2\<lparr>con := (con s2)\<lparr>
     rbuf_rlen := (if rbuf_rlen (con s2) = 0 then 0 else rbuf_rlen (con s2) - int (Suc (length w)) + int (rbuf_now (con s2))),
     rbuf_now := (if rbuf_now (con s2) = 0 then 0 else Suc (length w)),
     flag_stop := (c_state (con s2) \<noteq> conn_closed)\<rparr>\<rparr>))"
proof -
  let ?s = "s\<lparr>con := with_line w c\<rparr>" and ?n = "Suc (length w)"
  let ?e = "(con s2)\<lparr>rbuf_rlen := (if rbuf_rlen (con s2) = 0 then 0 else rbuf_rlen (con s2) - int ?n + int (rbuf_now (con s2))),
     rbuf_now := (if rbuf_now (con s2) = 0 then 0 else ?n)\<rparr>"
  have cs: "try_read_command ?s = thn (thn process_command (after_command (length w + 1))) (ret 1)
      (s\<lparr>con := with_command w c\<rparr>)"
    unfolding with_line_bytes with_segment_none [OF rd w, symmetric]
    by (rule command_start) (use w ready_simps(8) [OF rd] in \<open>simp_all add: plain_line_def\<close>)
  have fin: "seqs [whenP (rbuf_rlen (con s2) \<noteq> 0)
      (modc (\<lambda>c. c\<lparr>rbuf_rlen := rbuf_rlen c - (int (length w + 1) - int (rbuf_now c))\<rparr>)),
      whenP (rbuf_now (con s2) \<noteq> 0) (modc (\<lambda>c. c\<lparr>rbuf_now := length w + 1\<rparr>))] s2 =
    Some (Inr ((), s2\<lparr>con := ?e\<rparr>))"
  proof -
    have "(con s2)\<lparr>rbuf_rlen := 0\<rparr> = con s2" if "rbuf_rlen (con s2) = 0" using that by (intro conn.equality) simp_all
    moreover have "(con s2)\<lparr>rbuf_rlen := x, rbuf_now := 0\<rparr> = (con s2)\<lparr>rbuf_rlen := x\<rparr>" if "rbuf_now (con s2) = 0" for x
      using that by (intro conn.equality) simp_all
    moreover have "(con s2)\<lparr>rbuf_now := 0\<rparr> = con s2" if "rbuf_now (con s2) = 0"
      using that by (intro conn.equality) simp_all
    ultimately show ?thesis
      by (cases "rbuf_rlen (con s2) = 0"; cases "rbuf_now (con s2) = 0")
        (simp_all add: seqs.simps prog_defs modc_def algebra_simps)
  qed
  have cmd: "try_read_command ?s = Some (Inr (1, s2\<lparr>con := ?e\<rparr>))"
    unfolding cs using p sh fin by (simp add: after_command_def thn_def bnd_def getc_run ret_def)
  show ?thesis
    using sh by (simp add: parse_step_def seqs.simps prog_defs cmd getc_def set_stop_def modc_def)
qed

section \<open>A line, and the answer to it\<close>

lemma at_rest_simps:
  assumes "at_rest c"
  shows "c_state c = conn_read" "\<not> flag_stop c" "out_idle c" "rbuf_rlen c = 0" "0 < rbuf_len c" "rbuf_len c < 2 ^ 27"
    "rbuf c = replicate (nat (rbuf_len c)) NUL" "length (rbuf c) = nat (rbuf_len c)" "length (wbuf c) = 2048"
    "rnbuf_rlen c = 0"
  using assms by (simp_all add: at_rest_def)

lemma with_command_simps [simp]:
  "rbuf_len (with_command w c) = rbuf_len c" "flag_stop (with_command w c) = flag_stop c"
  "out_idle (with_command w c) = out_idle c" "flag_shake (with_command w c) = False"
  "rbuf_now (with_command w c) = Suc (length w)" "wbuf (with_command w c) = wbuf c"
  "c_state (with_command w c) = conn_parse_cmd" "rbuf_rlen (with_command w c) = int (Suc (length w))"
  "rnbuf_rlen (with_command w c) = rnbuf_rlen c"
  by (simp_all add: with_command_def out_idle_def)

lemma length_with_command: "ready w c \<Longrightarrow> plain_line w c \<Longrightarrow> length (rbuf (with_command w c)) = nat (rbuf_len c)"
  by (simp add: with_command_def plain_line_def ready_def resting_def zless_nat_eq_int_zless) linarith

text \<open>The event in which a line arrives runs its command and ends.\<close>

lemma command_event:
  assumes rest: "ready w (con s)" and w: "plain_line w (con s)" and i: "inp s = RdData (w @ [LF]) # is"
    and p: "process_command (s\<lparr>inp := is, con := with_command w (con s)\<rparr>) = Some (Inr ((), s2))"
    and s2: "\<not> flag_shake (con s2)" "c_state (con s2) \<noteq> conn_closed"
  shows "drive_machine s = Some (Inr ((), s2\<lparr>con := (con s2)\<lparr>
     rbuf_rlen := (if rbuf_rlen (con s2) = 0 then 0 else rbuf_rlen (con s2) - int (Suc (length w)) + int (rbuf_now (con s2))),
     rbuf_now := (if rbuf_now (con s2) = 0 then 0 else Suc (length w)), flag_stop := False\<rparr>\<rparr>))"
proof -
  note r = ready_simps [OF rest]
  let ?s1 = "s\<lparr>inp := is, con := with_line w (con s)\<rparr>"
  have "drive_step s = Some (Inr ((), ?s1))"
    using line_read [OF r(11) w i] r(1) by (simp add: drive_step_state)
  then have 1: "drive_loop s = drive_loop ?s1" by (rule drive_loop_go [OF r(2)])
  have "drive_step ?s1 = parse_step ?s1" by (simp add: drive_step_state with_line_def)
  then have 2: "drive_loop ?s1 = drive_loop (s2\<lparr>con := (con s2)\<lparr>
     rbuf_rlen := (if rbuf_rlen (con s2) = 0 then 0 else rbuf_rlen (con s2) - int (Suc (length w)) + int (rbuf_now (con s2))),
     rbuf_now := (if rbuf_now (con s2) = 0 then 0 else Suc (length w)), flag_stop := (c_state (con s2) \<noteq> conn_closed)\<rparr>\<rparr>)"
    using line_parsed [OF rest w, of "s\<lparr>inp := is\<rparr>" s2] p s2(1) r(2)
    by (intro drive_loop_go) (simp_all add: with_line_def)
  show ?thesis
    using drive_machine_stops [OF drive_loop_stop [of "s2\<lparr>con := (con s2)\<lparr>
     rbuf_rlen := (if rbuf_rlen (con s2) = 0 then 0 else rbuf_rlen (con s2) - int (Suc (length w)) + int (rbuf_now (con s2))),
     rbuf_now := (if rbuf_now (con s2) = 0 then 0 else Suc (length w)), flag_stop := (c_state (con s2) \<noteq> conn_closed)\<rparr>\<rparr>"]] 1 2 s2(2)
    by (simp add: drive_machine_def thn_def bnd_def)
qed

lemma command_faults:
  assumes rest: "ready w (con s)" and w: "plain_line w (con s)" and i: "inp s = RdData (w @ [LF]) # is"
    and p: "process_command (s\<lparr>inp := is, con := with_command w (con s)\<rparr>) = Some (Inl e)"
  shows "drive_machine s = Some (Inl e)"
proof -
  note r = ready_simps [OF rest]
  let ?s1 = "s\<lparr>inp := is, con := with_line w (con s)\<rparr>"
  have "drive_step s = Some (Inr ((), ?s1))"
    using line_read [OF r(11) w i] r(1) by (simp add: drive_step_state)
  then have 1: "drive_loop s = drive_loop ?s1" by (rule drive_loop_go [OF r(2)])
  have "try_read_command ?s1 = thn (thn process_command (after_command (length w + 1))) (ret 1)
      (s\<lparr>inp := is, con := with_command w (con s)\<rparr>)"
    unfolding with_line_bytes with_segment_none [OF rest w, symmetric]
    using command_start [of w "con s" "[]" "s\<lparr>inp := is\<rparr>"] w r(8) by (simp add: plain_line_def)
  then have "parse_step ?s1 = Some (Inl e)"
    using p by (simp add: parse_step_def seqs.simps thn_def bnd_def)
  then have "drive_loop ?s1 = Some (Inl e)"
    by (intro drive_loop_fault) (use r(2) in \<open>simp_all add: drive_step_state with_line_def\<close>)
  with 1 show ?thesis by (simp add: drive_machine_def thn_def bnd_def)
qed

text \<open>The event in which the socket takes what is to be sent.\<close>

lemma flush_event:
  assumes c: "c_state (con s) = conn_write" "\<not> flag_stop (con s)" "out_ok (con s)" "to_send (con s) \<noteq> []" and o: "outp s = []"
  shows "drive_machine s = Some (Inr ((), s\<lparr>con := (con s)\<lparr>wbuf_len := WRITEBUF_LEN,
     wbuf := blit (wbuf (con s)) 0 (replicate (nat WRITEBUF_LEN) NUL), wbuf_wlen := 0, wbuf_now := 0,
     write_watched := False, read_watched := True, c_state := conn_read, flag_stop := False\<rparr>,
     sent := sent s @ to_send (con s)\<rparr>))"
proof -
  let ?s1 = "s\<lparr>con := (con s)\<lparr>wbuf_len := WRITEBUF_LEN,
     wbuf := blit (wbuf (con s)) 0 (replicate (nat WRITEBUF_LEN) NUL), wbuf_wlen := 0, wbuf_now := 0,
     write_watched := False, read_watched := True\<rparr>, sent := sent s @ to_send (con s)\<rparr>"
  let ?s2 = "?s1\<lparr>con := (con ?s1)\<lparr>c_state := conn_waiting\<rparr>\<rparr>"
  let ?s3 = "?s1\<lparr>con := (con ?s1)\<lparr>c_state := conn_read, flag_stop := True\<rparr>\<rparr>"
  have w: "write_activate_read s = Some (Inr (WRITE_DATA_ALL, ?s1))"
    using write_loop_step [OF c(3,4)] c(3,4) o
    by (simp add: write_activate_read_def sock_write_def prog_defs modc_def write_done_run out_ok_def net_order)
  have "drive_step s = Some (Inr ((), ?s2))"
    using c(1) w by (simp add: drive_step_state write_step_def bnd_def conn_state_set_def modc_def modify_def)
  then have 1: "drive_loop s = drive_loop ?s2" by (rule drive_loop_go [OF c(2)])
  have 2: "drive_loop ?s2 = drive_loop ?s3"
    by (rule drive_loop_go) (use c(2) in \<open>simp_all add: drive_step_state seqs.simps prog_defs conn_state_set_def set_stop_def modc_def\<close>)
  show ?thesis
    using drive_machine_stops [OF drive_loop_stop [of ?s3]] 1 2 by (simp add: drive_machine_def thn_def bnd_def)
qed

text \<open>A connection whose line has been answered and cleared.\<close>

definition answered :: "string \<Rightarrow> conn \<Rightarrow> conn" where
  "answered msg c = c\<lparr>rbuf := replicate (nat (rbuf_len c)) NUL, rbuf_rlen := 0, read_watched := False,
     write_watched := True, noreply := False, c_state := conn_write, wbuf := blit (wbuf c) 0 (answer msg @ crlf),
     wbuf_len := int (length (answer msg)) + 2, wbuf_now := 0\<rparr>"

lemma clear_rbuf_run:
  assumes "length (rbuf (con s)) = nat (rbuf_len (con s))" "0 < rbuf_len (con s)" "rbuf_len (con s) < 2 ^ 27"
  shows "clear_rbuf s = Some (Inr ((), s\<lparr>con := (con s)\<lparr>rbuf := replicate (nat (rbuf_len (con s))) NUL\<rparr>\<rparr>))"
  using assms by (simp add: clear_rbuf_def bnd_run [OF getc_run] put_bytes_def bnd_def getc_run ret_def modc_run blit_def)

lemma clear_and_answer_run:
  assumes "length (rbuf (con s)) = nat (rbuf_len (con s))" "0 < rbuf_len (con s)" "rbuf_len (con s) < 2 ^ 27"
    and "out_idle (con s)"
  shows "clear_and_answer msg s = Some (Inr ((), s\<lparr>con := answered msg (con s)\<rparr>))"
proof -
  let ?s1 = "s\<lparr>con := (con s)\<lparr>rbuf := replicate (nat (rbuf_len (con s))) NUL, rbuf_rlen := 0, read_watched := False,
     write_watched := True\<rparr>\<rparr>"
  have "out_idle (con ?s1)" using assms(4) by (simp add: out_idle_def)
  from out_string_run [OF this, of msg] show ?thesis
    by (simp add: clear_and_answer_def seqs_run [of clear_rbuf s, OF clear_rbuf_run [OF assms(1-3)]] seqs_run [OF modc_run] watch_write_def
        seqs_single answered_def)
qed

text \<open>A command that leaves a reply, and the event in which it is sent.\<close>

lemma reply_events:
  assumes rest: "ready w (con s)" and w: "plain_line w (con s)" and i: "inp s = RdData (w @ [LF]) # is"
    and p: "process_command (s\<lparr>inp := is, con := with_command w (con s)\<rparr>) = Some (Inr ((), s2))"
    and c: "c_state (con s2) = conn_write" "\<not> flag_shake (con s2)" "out_ok (con s2)" "to_send (con s2) \<noteq> []"
      "rbuf_rlen (con s2) = 0" "0 < rbuf_len (con s2)" "rbuf_len (con s2) < 2 ^ 27"
      "rbuf (con s2) = replicate (nat (rbuf_len (con s2))) NUL" "length (wbuf (con s2)) = 2048" "rnbuf_rlen (con s2) = 0"
    and o: "outp s2 = []"
  shows "\<exists>s'. thn drive_machine drive_machine s = Some (Inr ((), s')) \<and> at_rest (con s') \<and>
     sent s' = sent s2 @ to_send (con s2) \<and> mach s' = mach s2 \<and> inp s' = inp s2 \<and> outp s' = [] \<and>
     rbuf_len (con s') = rbuf_len (con s2)"
proof -
  let ?c = "(con s2)\<lparr>rbuf_rlen := 0, rbuf_now := (if rbuf_now (con s2) = 0 then 0 else Suc (length w)), flag_stop := False\<rparr>"
  let ?s1 = "s2\<lparr>con := ?c\<rparr>"
  have e1: "drive_machine s = Some (Inr ((), ?s1))"
    using command_event [OF rest w i p c(2)] c(1,5) by simp
  have ok: "out_ok ?c" "to_send ?c = to_send (con s2)" using c(3) by (simp_all add: out_ok_def to_send_def)
  have len: "nat WRITEBUF_LEN \<le> length (wbuf (con s2))" using c(3) by (simp add: out_ok_def)
  let ?s' = "?s1\<lparr>con := ?c\<lparr>wbuf_len := WRITEBUF_LEN, wbuf := blit (wbuf ?c) 0 (replicate (nat WRITEBUF_LEN) NUL),
     wbuf_wlen := 0, wbuf_now := 0, write_watched := False, read_watched := True, c_state := conn_read, flag_stop := False\<rparr>,
     sent := sent s2 @ to_send (con s2)\<rparr>"
  have "drive_machine ?s1 = Some (Inr ((), ?s'))"
    using flush_event [of ?s1] ok c(1,4) o by simp
  then have "thn drive_machine drive_machine s = Some (Inr ((), ?s'))"
    by (simp add: thn_run [of drive_machine s, OF e1])
  moreover have "at_rest (con ?s')"
    using c(5-10) by (simp add: at_rest_def out_idle_def WRITEBUF_LEN_def)
  ultimately show ?thesis using o by (intro exI [of _ ?s']) simp
qed

lemma answered_events:
  assumes rest: "ready w (con s)" and w: "plain_line w (con s)" and i: "inp s = RdData (w @ [LF]) # is" and o: "outp s = []"
    and p: "process_command (s\<lparr>inp := is, con := with_command w (con s)\<rparr>) =
      Some (Inr ((), s\<lparr>mach := m, inp := is, con := answered msg (with_command w (con s))\<rparr>))"
  shows "\<exists>s'. thn drive_machine drive_machine s = Some (Inr ((), s')) \<and> at_rest (con s') \<and>
     sent s' = sent s @ answer msg @ crlf \<and> mach s' = m \<and> inp s' = is \<and> outp s' = [] \<and>
     rbuf_len (con s') = rbuf_len (con s)"
proof -
  note r = ready_simps [OF rest]
  let ?c = "answered msg (with_command w (con s))"
  have len: "length (answer msg) + 2 \<le> 2048" "length (wbuf (con s)) = 2048" "wbuf_wlen (con s) = 0"
    using answer_short [of msg] r(3,9) by (simp_all add: out_idle_def WRITEBUF_LEN_def)
  have ok: "out_ok ?c" using len by (simp add: answered_def out_ok_def WRITEBUF_LEN_def with_command_def)
  have ts: "to_send ?c = answer msg @ crlf" using len by (simp add: answered_def to_send_def blit_def)
  have ne: "answer msg @ crlf \<noteq> []" by (simp add: crlf_def)
  show ?thesis
    using reply_events [OF rest w i p] ok ts ne r o len by (simp add: answered_def)
qed

text \<open>The command a line runs.\<close>

lemma process_line:
  assumes "plain_line w c"
  shows "process_command (s\<lparr>con := with_command w c\<rparr>) = (
     let ts = tokens w in
     if length ts = 1 then command_one_para ts
     else if length ts = 2 then command_two_para ts
     else if length ts = 3 then command_three_para ts
     else if length ts = 5 then thn (command_five_six_para ts False) (modc (\<lambda>c. c\<lparr>flag_precmd := True\<rparr>))
     else if length ts = 6 then command_five_six_para ts True
     else seqs [
       clear_rbuf,
       modc (\<lambda>c. c\<lparr>rbuf_rlen := 0, rbuf_now := 0\<rparr>),
       conn_state_set conn_read,
       modc (\<lambda>c. c\<lparr>flag_precmd := False\<rparr>)]) (s\<lparr>con := with_command w c\<rparr>)"
proof -
  have n: "NUL \<notin> set w" using assms by (simp add: plain_line_def)
  have "takeWhile (\<lambda>b. b \<noteq> NUL) (w @ NUL # l) = w" for l
    using n by (simp add: takeWhile_tail) (metis takeWhile_eq_all_conv)
  then have "c_string (rbuf (with_command w c)) t = Some (Inr (w, t))" for t
    by (simp add: c_string_def with_command_def ret_def)
  then show ?thesis by (simp add: process_command_def bnd_def getc_run)
qed

section \<open>Deleting from the store\<close>

lemma under_region_key:
  assumes "heap s it = Some c" and "it \<noteq> 0" and "item_wf c"
  shows "under_region it body s = locked_run (hash (key_of c)) (body (hash (key_of c))) s"
  using item_key_run [OF assms] by (simp add: under_region_def locked_run_def bnd_run)

lemma map_le_restrict_le: "m \<subseteq>\<^sub>m m' \<Longrightarrow> m |` A \<subseteq>\<^sub>m m'"
  by (auto simp: map_le_def restrict_map_def)

lemma item_unlink_ok:
  assumes inv: "mc_inv fl bl K s" and ul: "unlocked s" and e: "entry bl s k = Some it"
  shows "\<exists>bl' s' c'. item_unlink it s = Some (Inr ((), s')) \<and> outcome bl s k None fl bl' K s' \<and>
     heap s' it = Some c' \<and> it \<notin> frees fl (slab s') \<and> item_wf c' \<and> key_of c' = k \<and> last_cas_id s' = last_cas_id s"
proof -
  note m = mc_inv_cell [OF inv e]
  obtain c where c: "heap s it = Some c" "linked_cell c" "key_of c = k" using m(4) by blast
  let ?s = "set_region (hash k) True s"
  have i: "mc_inv fl bl K ?s" "entry bl ?s k = Some it" "\<not> cache_lock ?s"
    using inv e ul by (simp_all add: mc_inv_region unlocked_def)
  obtain bl' s1 where s1: "do_item_unlink it (hash k) ?s = Some (Inr ((), s1))"
     "unlinked fl bl K ?s it c bl' s1" "mc_inv fl bl' K s1"
    using do_item_unlink_spec [OF i] c(1) by auto
  have e': "entry bl ?s (key_of c) = Some it" using i(2) c(3) by simp
  note st = unlinked_stored [OF i(1) e' s1(2), unfolded c(3)]
  have q: "quiet ?s s1" using s1(2) by (simp add: unlinked_def still_def)
  have o1: "outcome bl ?s k None fl bl' K s1"
    using s1(3) world_quiet [OF q] st by (simp add: outcome_def put_at_def map_le_restrict_le)
  note o2 = outcome_region [where body = "do_item_unlink it (hash k)" and hv = "hash k", OF inv ul s1(1) o1]
  have wf: "item_wf c" using c(2) by (simp add: linked_cell_def)
  have run: "item_unlink it s = Some (Inr ((), set_region (hash k) False s1))"
    using under_region_key [OF c(1) m(3) wf, of "do_item_unlink it"] o2(1) c(3) by (simp add: item_unlink_def)
  obtain c' where c': "heap s1 it = Some c'" "core c' = core (c\<lparr>it_flag := clear_linked (it_flag c)\<rparr>)"
    using s1(2) by (auto simp: unlinked_def)
  have "key_of c' = k" "item_wf c'"
    using core_eq [OF c'(2)] c(3) wf by (simp_all add: key_of_def item_wf_def)
  moreover have "it \<notin> frees fl (slab s1)" using m(2) q by (simp add: quiet_def)
  moreover have "last_cas_id s1 = last_cas_id s" using s1(2) by (simp add: unlinked_def still_def)
  ultimately show ?thesis using run o2(2) c'(1) by (intro exI [of _ bl'] exI [of _ "set_region (hash k) False s1"]) simp
qed

lemma item_remove_ok:
  assumes inv: "mc_inv fl bl K s" and ul: "unlocked s" and x: "heap s x = Some c" "x \<notin> frees fl (slab s)" "item_wf c"
  shows "\<exists>s'. item_remove x s = Some (Inr ((), s')) \<and> outcome bl s (key_of c) (stored bl s (key_of c)) fl bl K s' \<and>
     last_cas_id s' = last_cas_id s"
proof -
  let ?s = "set_region (hash (key_of c)) True s"
  have i: "mc_inv fl bl K ?s" using inv by (simp add: mc_inv_region)
  obtain s1 where s1: "do_item_remove x ?s = Some (Inr ((), s1))" "refreshed fl bl K ?s K s1"
    using do_item_remove_ok [OF i] x by fastforce
  have "outcome bl ?s (key_of c) (stored bl s (key_of c)) fl bl K s1"
    by (rule outcome_refreshed [OF put_at_refl world_refl s1(2)]) simp
  note o2 = outcome_region [where body = "do_item_remove x" and hv = "hash (key_of c)", OF inv ul s1(1) this]
  have "x \<noteq> 0" using base_inv_in_heap [OF mc_inv_base [OF inv] x(1)] by simp
  from under_region_key [OF x(1) this x(3), of "\<lambda>hv. do_item_remove x"] show ?thesis
    using o2 s1(2) by (auto simp: item_remove_def refreshed_def)
qed

lemma outcome_trans:
  assumes "outcome bl s k x fl1 bl1 K1 s1" and "outcome bl1 s1 k y fl2 bl2 K2 s2"
  shows "outcome bl s k y fl2 bl2 K2 s2"
  using outcome_after [of bl s k x bl1 s1 y fl2 bl2 K2 s2] assms by (simp add: outcome_def)

text \<open>The three calls \<open>delete_command\<close> makes.\<close>

lemma delete_store:
  assumes inv: "mc_inv fl bl K s" and ul: "unlocked s"
  shows "\<exists>r bl' s1 s2. item_get k s = Some (Inr (r, s1)) \<and>
     whenP (r \<noteq> 0) (seqs [item_unlink r, item_remove r]) s1 = Some (Inr ((), s2)) \<and>
     (r \<noteq> 0 \<longleftrightarrow> live bl s k \<noteq> None) \<and> outcome bl s k None fl bl' K s2 \<and> last_cas_id s2 = last_cas_id s"
proof -
  obtain r bl1 s1 where g: "item_get k s = Some (Inr (r, s1))" "outcome bl s k (live bl s k) fl bl1 K s1"
     "case live bl s k of None \<Rightarrow> r = 0
      | Some x \<Rightarrow> entry bl1 s1 k = Some r \<and> r \<noteq> 0 \<and> (\<exists>c. heap s1 r = Some c \<and> key_of c = k \<and> content c = x)"
     "last_cas_id s1 = last_cas_id s"
    using item_get_found [OF inv ul, of k] by blast
  show ?thesis
  proof (cases "live bl s k")
    case None
    then show ?thesis using g by (intro exI [of _ r] exI [of _ bl1] exI [of _ s1]) (simp add: whenP_def ret_def)
  next
    case (Some x)
    then have r: "entry bl1 s1 k = Some r" "r \<noteq> 0" using g(3) by simp_all
    have i1: "mc_inv fl bl1 K s1" "unlocked s1" using g(2) outcome_unlocked [OF g(2)] ul by (simp_all add: outcome_def)
    obtain bl2 s2 c2 where u: "item_unlink r s1 = Some (Inr ((), s2))" "outcome bl1 s1 k None fl bl2 K s2"
       "heap s2 r = Some c2" "r \<notin> frees fl (slab s2)" "item_wf c2" "key_of c2 = k"
       "last_cas_id s2 = last_cas_id s1"
      using item_unlink_ok [OF i1 r(1)] by blast
    have i2: "mc_inv fl bl2 K s2" "unlocked s2" "stored bl2 s2 k = None"
      using u(2) outcome_unlocked [OF u(2)] i1(2) by (simp_all add: outcome_def put_at_def)
    obtain s3 where v: "item_remove r s2 = Some (Inr ((), s3))" "outcome bl2 s2 k None fl bl2 K s3"
       "last_cas_id s3 = last_cas_id s2"
      using item_remove_ok [OF i2(1,2) u(3-5)] u(6) i2(3) by auto
    have "outcome bl s k None fl bl2 K s3" using outcome_trans [OF g(2) outcome_trans [OF u(2) v(2)]] .
    then show ?thesis
      using g(1,4) r(2) Some u(1,7) v(1,3)
      by (intro exI [of _ r] exI [of _ bl2] exI [of _ s1] exI [of _ s3])
        (simp add: whenP_def seqs_run seqs_done)
  qed
qed

section \<open>Commands of one and two words\<close>

lemma with_command_fits:
  assumes "ready w c" and "plain_line w c"
  shows "length (rbuf (with_command w c)) = nat (rbuf_len (with_command w c))" "0 < rbuf_len (with_command w c)"
    "rbuf_len (with_command w c) < 2 ^ 27" "out_idle (with_command w c)"
  using ready_simps [OF assms(1)] length_with_command [OF assms] by simp_all

text \<open>The line \<open>delete key\<close>, from a connection that waits for it.\<close>

lemma delete_line:
  assumes rest: "ready w (con s)" and w: "plain_line w (con s)" "tokens w = [''delete'', k]"
    and inv: "mc_inv fl bl K (mach s)" and ul: "unlocked (mach s)"
  shows "\<exists>bl' m. process_command (s\<lparr>inp := is, con := with_command w (con s)\<rparr>) =
      Some (Inr ((), s\<lparr>mach := m, inp := is, con := answered
        (if live bl (mach s) k = None then ''NOT_FOUND'' else ''DELETED'') (with_command w (con s))\<rparr>)) \<and>
     outcome bl (mach s) k None fl bl' K m \<and> last_cas_id m = last_cas_id (mach s)"
proof -
  let ?c = "with_command w (con s)"
  let ?s = "s\<lparr>inp := is, con := ?c\<rparr>"
  obtain r bl' s1 s2 where d: "item_get k (mach s) = Some (Inr (r, s1))"
     "whenP (r \<noteq> 0) (seqs [item_unlink r, item_remove r]) s1 = Some (Inr ((), s2))"
     "r \<noteq> 0 \<longleftrightarrow> live bl (mach s) k \<noteq> None" "outcome bl (mach s) k None fl bl' K s2"
     "last_cas_id s2 = last_cas_id (mach s)"
    using delete_store [OF inv ul] by blast
  have clear: "clear_and_answer msg (?s\<lparr>mach := m\<rparr>) = Some (Inr ((), ?s\<lparr>mach := m, con := answered msg ?c\<rparr>))" for msg m
    using clear_and_answer_run [of "?s\<lparr>mach := m\<rparr>" msg] with_command_fits [OF rest w(1)] by simp
  have "delete_command [''delete'', k] ?s = Some (Inr ((), ?s\<lparr>mach := s2, con := answered
        (if live bl (mach s) k = None then ''NOT_FOUND'' else ''DELETED'') ?c\<rparr>))"
  proof (cases "r = 0")
    case True
    then show ?thesis
      using d clear by (simp add: delete_command_def bnd_def on_mach_run [of "item_get k" ?s] whenP_def ret_def)
  next
    case False
    then obtain s1' where u: "item_unlink r s1 = Some (Inr ((), s1'))" "item_remove r s1' = Some (Inr ((), s2))"
    proof -
      have "wp (seqs [item_unlink r, item_remove r]) (\<lambda>_ s'. s' = s2) s1"
        using d(2) False by (simp add: wp_def whenP_def)
      then show ?thesis using that unfolding wp_seqs_Cons wp_seqs_Nil unfolding wp_iff by auto
    qed
    obtain x where lv: "live bl (mach s) k = Some x" using False d(3) by auto
    from u False show ?thesis
      using d(1) lv clear [of _ s2] on_mach_run [of "item_unlink r" "?s\<lparr>mach := s1\<rparr>" "()" s1']
        on_mach_run [of "item_remove r" "?s\<lparr>mach := s1'\<rparr>" "()" s2]
      by (simp add: delete_command_def bnd_def on_mach_run [of "item_get k" ?s] seqs.simps thn_def ret_def)
  qed
  then have "process_command ?s = Some (Inr ((), s\<lparr>mach := s2, inp := is, con := answered
        (if live bl (mach s) k = None then ''NOT_FOUND'' else ''DELETED'') ?c\<rparr>))"
    using process_line [OF w(1), of "s\<lparr>inp := is\<rparr>"] w(2) by (simp add: command_two_para_def)
  with d(4,5) show ?thesis by blast
qed

section \<open>Lines the machine cannot cope with\<close>

text \<open>A segment without a newline.\<close>

lemma no_newline:
  assumes "bs \<noteq> []" and "LF \<notin> set bs" and "int (length bs) < rbuf_len c" and "rbuf_len c < 2 ^ 27"
    and lr: "length (rbuf c) = nat (rbuf_len c)"
  shows "parse_step (s\<lparr>con := with_bytes bs c\<rparr>) = Some (Inl (WildPointer 1))"
proof -
  have l: "length bs < nat (rbuf_len c)" using assms(3) by simp
  have tw: "takeWhile (\<lambda>b. b \<noteq> LF) bs = bs" unfolding takeWhile_eq_all_conv using assms(2) by blast
  have sz: "size_t (int (length bs)) = length bs" using assms(3,4) by simp
  have "memchr (rbuf (with_bytes bs c)) 0 LF (length bs) t = Some (Inr (None, t))" for t
    using l by (simp add: memchr_def with_bytes_def Let_def tw ret_def)
  then have "try_read_command (s\<lparr>con := with_bytes bs c\<rparr>) = Some (Inl (WildPointer 1))"
    using assms(1) sz by (simp add: try_read_command_def bnd_def getc_run with_bytes_def fail_def)
  then show ?thesis by (simp add: parse_step_def seqs.simps thn_def bnd_def)
qed

text \<open>C36: A line that does not arrive in one piece crashes the server: when the bytes of a read
  contain no newline, \<open>try_read_command\<close> looks at the byte behind a null pointer.\<close>
theorem partial_line_crashes:
  assumes "at_rest (con s)" and "inp s = RdData bs # is"
    and "bs \<noteq> []" and "LF \<notin> set bs" and "int (length bs) < rbuf_len (con s)"
  shows "drive_machine s = Some (Inl (WildPointer 1))"
proof -
  note r = at_rest_simps [OF assms(1)]
  let ?s1 = "s\<lparr>inp := is, con := with_bytes bs (con s)\<rparr>"
  have "drive_step s = Some (Inr ((), ?s1))"
    using bytes_read [OF at_rest_resting [OF assms(1)] assms(3,5,2)] r(1) by (simp add: drive_step_state)
  then have 1: "drive_loop s = drive_loop ?s1" by (rule drive_loop_go [OF r(2)])
  have "drive_loop ?s1 = Some (Inl (WildPointer 1))"
    by (rule drive_loop_fault)
      (use no_newline [OF assms(3-5) r(6,8), of "s\<lparr>inp := is\<rparr>"] r(2) in \<open>simp_all add: drive_step_state with_bytes_def\<close>)
  with 1 show ?thesis by (simp add: drive_machine_def thn_def bnd_def)
qed

lemma at_rest_demo [simp]: "at_rest demo_conn"
  by (simp add: at_rest_def) (simp add: demo_conn_def)

lemma partial_line_crashes_witness:
  "drive_machine (demo_net fresh_server [RdData ''get'', RdData ('' k'' @ crlf)] []) = Some (Inl (WildPointer 1))"
  by (rule partial_line_crashes [of _ "''get''" "[RdData ('' k'' @ crlf)]"]) (simp_all add: LF_def)

text \<open>A line of three words, such as incr, takes the server down: it is not answered, the
  connection stays in the state in which lines are parsed, with the newline already overwritten,
  and the next event dereferences a null pointer.\<close>
theorem three_words_crash:
  assumes "at_rest (con s)" and "inp s = RdData (w @ [LF]) # is" and "plain_line w (con s)" and "length (tokens w) = 3"
  shows "\<exists>s'. drive_machine s = Some (Inr ((), s')) \<and> sent s' = sent s \<and>
     drive_machine s' = Some (Inl (WildPointer 1))"
proof -
  note r = at_rest_simps [OF assms(1)]
  let ?s1 = "s\<lparr>inp := is, con := with_command w (con s)\<rparr>"
  have "process_command ?s1 = Some (Inr ((), ?s1))"
    using process_line [OF assms(3), of "s\<lparr>inp := is\<rparr>"] assms(4) by (simp add: command_three_para_def ret_def)
  note e = command_event [OF at_rest_ready [OF assms(1,3)] assms(3,2) this]
  let ?c2 = "(with_command w (con s))\<lparr>flag_stop := False\<rparr>"
  let ?s2 = "s\<lparr>inp := is, con := ?c2\<rparr>"
  have c2: "?c2\<lparr>rbuf_rlen := int (Suc (length w)), rbuf_now := Suc (length w), flag_stop := False\<rparr> = ?c2"
    by (intro conn.equality) simp_all
  have run: "drive_machine s = Some (Inr ((), ?s2))" using e c2 by simp
  have wb: "?c2 = with_bytes (w @ [NUL]) ((con s)\<lparr>flag_shake := False, flag_stop := False\<rparr>)"
    by (simp add: with_command_def with_bytes_def)
  have "drive_loop ?s2 = Some (Inl (WildPointer 1))"
  proof (rule drive_loop_fault)
    have "parse_step (s\<lparr>inp := is, con := with_bytes (w @ [NUL]) ((con s)\<lparr>flag_shake := False, flag_stop := False\<rparr>)\<rparr>) =
        Some (Inl (WildPointer 1))"
      using no_newline [of "w @ [NUL]" "(con s)\<lparr>flag_shake := False, flag_stop := False\<rparr>" "s\<lparr>inp := is\<rparr>"] assms(3) r(6,8)
      by (simp add: plain_line_def NUL_def LF_def)
    then show "drive_step ?s2 = Some (Inl (WildPointer 1))"
      unfolding wb [symmetric] by (simp add: drive_step_state)
  qed simp
  then have "drive_machine ?s2 = Some (Inl (WildPointer 1))" by (simp add: drive_machine_def thn_def bnd_def)
  with run show ?thesis by (intro exI [of _ ?s2]) simp
qed

lemma three_words_crash_witness:
  "\<exists>s'. drive_machine (demo_net fresh_server [RdData (''incr k 1'' @ [LF])] []) = Some (Inr ((), s')) \<and>
     drive_machine s' = Some (Inl (WildPointer 1))"
proof -
  let ?s = "demo_net fresh_server [RdData (''incr k 1'' @ [LF])] []"
  have "tokens ''incr k 1'' = [''incr'', ''k'', ''1'']"
    by (simp add: tokens_def separates_def is_space_def char_val_def)
  then show ?thesis
    using three_words_crash [of ?s "''incr k 1''" "[]"] by (auto simp: plain_line_def LF_def NUL_def)
qed

section \<open>Answers without the store\<close>

lemma plain_served:
  assumes "ready w (con s)" and "inp s = RdData (w @ [LF]) # is" and "outp s = []" and "plain_line w (con s)"
    and "tokens w = [x] \<and> x \<noteq> ''quit'' \<or> (\<exists>y. tokens w = [x, y] \<and> x \<noteq> ''get'' \<and> x \<noteq> ''delete'')"
  shows "\<exists>s'. thn drive_machine drive_machine s = Some (Inr ((), s')) \<and> at_rest (con s') \<and> mach s' = mach s \<and>
     inp s' = is \<and> outp s' = [] \<and> rbuf_len (con s') = rbuf_len (con s) \<and>
     sent s' = sent s @ (if tokens w = [''version''] then ''CGXR MEMCACHE version 1.0'' else ''CLIENT_BAD_COMMAND'') @ crlf"
proof -
  let ?s1 = "s\<lparr>inp := is, con := with_command w (con s)\<rparr>"
  let ?msg = "if tokens w = [''version''] then ''CGXR MEMCACHE version 1.0'' else ''CLIENT_BAD_COMMAND''"
  have "process_command ?s1 = clear_and_answer ?msg ?s1"
    using process_line [OF assms(4), of "s\<lparr>inp := is\<rparr>"] assms(5)
    by (auto simp: command_one_para_def command_two_para_def)
  also have "\<dots> = Some (Inr ((), ?s1\<lparr>con := answered ?msg (con ?s1)\<rparr>))"
    by (rule clear_and_answer_run) (use with_command_fits [OF assms(1,4)] in simp_all)
  finally have "process_command ?s1 = Some (Inr ((), s\<lparr>mach := mach s, inp := is,
      con := answered ?msg (with_command w (con s))\<rparr>))" by simp
  from answered_events [OF assms(1,4,2,3) this] show ?thesis by (auto simp: answer_def WRITEBUF_LEN_def)
qed

text \<open>A line of one word other than quit, or of two words other than get and delete, is answered:
  the client receives the version or an error, exactly that, and the connection is at rest again;
  the store is not touched.\<close>
theorem plain_commands_answered:
  assumes "at_rest (con s)" and "inp s = RdData (w @ [LF]) # is" and "outp s = []" and "plain_line w (con s)"
    and "tokens w = [x] \<and> x \<noteq> ''quit'' \<or> (\<exists>y. tokens w = [x, y] \<and> x \<noteq> ''get'' \<and> x \<noteq> ''delete'')"
  shows "\<exists>s'. thn drive_machine drive_machine s = Some (Inr ((), s')) \<and> at_rest (con s') \<and> mach s' = mach s \<and>
     inp s' = is \<and> outp s' = [] \<and>
     sent s' = sent s @ (if tokens w = [''version''] then ''CGXR MEMCACHE version 1.0'' else ''CLIENT_BAD_COMMAND'') @ crlf"
  using plain_served [OF at_rest_ready [OF assms(1,4)] assms(2-5)] by blast

lemma plain_commands_answered_witness:
  "\<exists>s'. thn drive_machine drive_machine (demo_net fresh_server [RdData (''version'' @ [LF])] []) = Some (Inr ((), s')) \<and>
     sent s' = ''CGXR MEMCACHE version 1.0'' @ crlf"
proof -
  have "tokens ''version'' = [''version'']"
    by (simp add: tokens_def separates_def is_space_def char_val_def)
  then show ?thesis
    using plain_commands_answered [of "demo_net fresh_server [RdData (''version'' @ [LF])] []" "''version''" "[]" "''version''"]
    by (auto simp: plain_line_def LF_def NUL_def)
qed

text \<open>The line quit closes the connection: the socket is closed and neither watcher runs.\<close>
theorem quit_closes:
  assumes "at_rest (con s)" and "inp s = RdData (w @ [LF]) # is" and "plain_line w (con s)" and "tokens w = [''quit'']"
  shows "\<exists>s'. drive_machine s = Some (Inr ((), s')) \<and> \<not> fd_open (con s') \<and> \<not> read_watched (con s') \<and>
     \<not> write_watched (con s') \<and> sent s' = sent s \<and> mach s' = mach s"
proof -
  note r = at_rest_simps [OF assms(1)]
  let ?s0 = "s\<lparr>inp := is, con := with_line w (con s)\<rparr>"
  let ?s1 = "s\<lparr>inp := is, con := with_command w (con s)\<rparr>"
  let ?c2 = "(with_command w (con s))\<lparr>c_state := conn_closed\<rparr>"
  let ?s2 = "s\<lparr>inp := is, con := ?c2\<rparr>"
  have p: "process_command ?s1 = Some (Inr ((), ?s2))"
    using process_line [OF assms(3), of "s\<lparr>inp := is\<rparr>"] assms(4)
    by (simp add: command_one_para_def conn_state_set_def modc_run)
  have c2: "?c2\<lparr>rbuf_rlen := int (Suc (length w)), rbuf_now := Suc (length w), flag_stop := False\<rparr> = ?c2"
    using r(2) by (intro conn.equality) simp_all
  have "drive_step s = Some (Inr ((), ?s0))"
    using line_read [OF at_rest_resting [OF assms(1)] assms(3,2)] r(1) by (simp add: drive_step_state)
  then have 1: "drive_loop s = drive_loop ?s0" by (rule drive_loop_go [OF r(2)])
  have "parse_step ?s0 = Some (Inr ((), ?s2))"
    using line_parsed [OF at_rest_ready [OF assms(1,3)] assms(3), of "s\<lparr>inp := is\<rparr>" ?s2] p c2 by simp
  then have "drive_step ?s0 = Some (Inr ((), ?s2))" by (simp add: drive_step_state with_line_def)
  then have 2: "drive_loop ?s0 = drive_loop ?s2" by (rule drive_loop_go [rotated]) (use r(2) in \<open>simp add: with_line_def\<close>)
  let ?s3 = "s\<lparr>inp := is, con := ?c2\<lparr>read_watched := False, write_watched := False, fd_open := False, flag_stop := True\<rparr>\<rparr>"
  have 3: "drive_loop ?s2 = drive_loop ?s3"
    by (rule drive_loop_go) (use r(2) in \<open>simp_all add: drive_step_state conn_close_def set_stop_def seqs.simps prog_defs modc_def\<close>)
  have "drive_loop ?s3 = Some (Inr ((), ?s3))" by (rule drive_loop_stop) simp
  then have "drive_machine s = Some (Inr ((), ?s3\<lparr>con := (con ?s3)\<lparr>flag_stop := False\<rparr>\<rparr>))"
    by (intro drive_machine_stops) (simp only: 1 2 3)
  then show ?thesis by (intro exI [of _ "?s3\<lparr>con := (con ?s3)\<lparr>flag_stop := False\<rparr>\<rparr>"]) simp
qed

lemma quit_closes_witness:
  "\<exists>s'. drive_machine (demo_net fresh_server [RdData (''quit'' @ [LF])] []) = Some (Inr ((), s')) \<and> \<not> fd_open (con s')"
proof -
  have "tokens ''quit'' = [''quit'']"
    by (simp add: tokens_def separates_def is_space_def char_val_def)
  then show ?thesis
    using quit_closes [of "demo_net fresh_server [RdData (''quit'' @ [LF])] []" "''quit''" "[]"]
    by (auto simp: plain_line_def LF_def NUL_def)
qed

end
