(* ===== verification/Lookup.thy ===== *)
theory Lookup
  imports Dialogue
begin

text \<open>
  The commands delete and get, from the line a client sends to the bytes it receives and the store
  afterwards; and the values get cannot return.
\<close>

section \<open>delete\<close>

lemma delete_served:
  assumes "ready w (con s)" and "inp s = RdData (w @ [LF]) # is" and "outp s = []"
    and "plain_line w (con s)" and "tokens w = [''delete'', k]"
    and "mc_inv fl bl K (mach s)" and "unlocked (mach s)"
  shows "\<exists>s' bl'. thn drive_machine drive_machine s = Some (Inr ((), s')) \<and> at_rest (con s') \<and> inp s' = is \<and>
     outp s' = [] \<and> rbuf_len (con s') = rbuf_len (con s) \<and>
     sent s' = sent s @ (if live bl (mach s) k = None then ''NOT_FOUND'' else ''DELETED'') @ crlf \<and>
     outcome bl (mach s) k None fl bl' K (mach s') \<and> last_cas_id (mach s') = last_cas_id (mach s)"
proof -
  let ?msg = "if live bl (mach s) k = None then ''NOT_FOUND'' else ''DELETED''"
  obtain bl' m where p: "process_command (s\<lparr>inp := is, con := with_command w (con s)\<rparr>) =
      Some (Inr ((), s\<lparr>mach := m, inp := is, con := answered ?msg (with_command w (con s))\<rparr>))"
     and o': "outcome bl (mach s) k None fl bl' K m" "last_cas_id m = last_cas_id (mach s)"
    using delete_line [OF assms(1,4,5,6,7)] by blast
  obtain s' where s': "thn drive_machine drive_machine s = Some (Inr ((), s'))" "at_rest (con s')"
      "sent s' = sent s @ answer ?msg @ crlf" "mach s' = m" "inp s' = is" "outp s' = []" "rbuf_len (con s') = rbuf_len (con s)"
    using answered_events [OF assms(1,4,2,3) p] by blast
  have "answer ?msg = ?msg" by (simp add: answer_def WRITEBUF_LEN_def)
  with s' show ?thesis
    using o' by (intro exI [of _ s'] exI [of _ bl']) simp
qed

text \<open>C7: The line delete, from a connection at rest and a sound store: the client is answered DELETED
  when the key was bound and had not expired and NOT_FOUND otherwise, the key has no binding
  afterwards, keys of other buckets keep theirs, no key gains one, the store is sound, every mutex
  free, and the connection is at rest again.\<close>
theorem delete_dialogue:
  assumes "at_rest (con s)" and "inp s = RdData (w @ [LF]) # is" and "outp s = []"
    and "plain_line w (con s)" and "tokens w = [''delete'', k]"
    and "mc_inv fl bl K (mach s)" and "unlocked (mach s)"
  shows "\<exists>s' bl'. thn drive_machine drive_machine s = Some (Inr ((), s')) \<and> at_rest (con s') \<and>
     sent s' = sent s @ (if live bl (mach s) k = None then ''NOT_FOUND'' else ''DELETED'') @ crlf \<and>
     mc_inv fl bl' K (mach s') \<and> unlocked (mach s') \<and> stored bl' (mach s') k = None \<and>
     stored bl' (mach s') |` (- {k}) \<subseteq>\<^sub>m stored bl (mach s) \<and>
     (\<forall>k'. apart (mach s) k k' \<longrightarrow> stored bl' (mach s') k' = stored bl (mach s) k')"
  using delete_served [OF at_rest_ready [OF assms(1,4)] assms(2-7)] outcome_unlocked assms(7) unfolding outcome_def put_at_def by fastforce

lemma delete_dialogue_witness:
  "\<exists>s s'. thn drive_machine drive_machine s = Some (Inr ((), s')) \<and> sent s' = ''DELETED'' @ crlf"
proof -
  obtain m fl bl K u where m: "mc_inv fl bl K m" "unlocked m" "roomy m" "stored bl m ''k'' = Some (''ab'' @ crlf, 0, u)"
    by (rule demo_bound [of "''ab''"]) simp
  have l: "live bl m ''k'' = Some (''ab'' @ crlf, 0, u)" using m(4) by (simp add: live_def)
  have t: "tokens ''delete k'' = [''delete'', ''k'']"
    by (simp add: tokens_def separates_def is_space_def char_val_def)
  have "plain_line ''delete k'' demo_conn" by (simp add: plain_line_def LF_def NUL_def)
  then show ?thesis
    using delete_dialogue [of "demo_net m [RdData (''delete k'' @ [LF])] []" "''delete k''" "[]" "''k''" fl bl K] t m(1,2) l
    by fastforce
qed

section \<open>get\<close>

text \<open>The reply the code makes of an item: the line, the value, the end.\<close>

definition reply :: "base_item \<Rightarrow> byte list" where
  "reply c = ''VALUE '' @ key_of c @ get_line c @ value_of c @ ''END'' @ crlf"

lemma blit_next: "length (a @ b) \<le> length B \<Longrightarrow> blit (blit B 0 a) (length a) b = blit B 0 (a @ b)"
  by (simp add: blit_def add.commute)

lemma blit_over: "b \<noteq> [] \<Longrightarrow> length (a @ b) \<le> length B \<Longrightarrow>
    blit (blit B 0 (a @ [x])) (length a) b = blit B 0 (a @ b)"
  by (cases b) (simp_all add: blit_def add.commute)

lemma put_bytes_run: "put_bytes B (int off) bs s =
    (if off + length bs \<le> length B then Some (Inr (blit B off bs, s)) else Some (Inl BufferOverrun))"
  by (simp add: put_bytes_def ret_def fail_def)

lemma digit_plain: "is_digit c \<Longrightarrow> c \<noteq> NUL \<and> c \<noteq> LF"
  by (auto simp: is_digit_def char_val_def NUL_def LF_def)

lemma dec_plain: "NUL \<notin> set (dec n)" "LF \<notin> set (dec n)" "NUL \<notin> set (dec_int i)" "LF \<notin> set (dec_int i)"
  using dec_all_digits digit_plain by (auto simp: dec_int_def NUL_def LF_def)

definition header :: "base_item \<Rightarrow> byte list" where
  "header c = ''VALUE '' @ key_of c @ get_line c"

lemma header_line:
  assumes "NUL \<notin> set (key_of c)" "LF \<notin> set (key_of c)"
  shows "takeWhile (\<lambda>b. b \<noteq> LF \<and> b \<noteq> NUL) (header c @ l) = butlast (header c)" "last (header c) = LF" "header c \<noteq> []"
proof -
  define h where "h = ''VALUE '' @ key_of c @ '' '' @ dec (unat (it_flag c)) @ '' '' @ dec_int (it_nbytes c) @ '' '' @ dec (unat (it_cas c))"
  have h: "header c = h @ [LF]" by (simp add: header_def get_line_def h_def)
  have "\<forall>b \<in> set h. b \<noteq> LF \<and> b \<noteq> NUL"
    using assms dec_plain by (auto simp: NUL_def LF_def h_def)
  then have "takeWhile (\<lambda>b. b \<noteq> LF \<and> b \<noteq> NUL) (h @ LF # l) = h @ takeWhile (\<lambda>b. b \<noteq> LF \<and> b \<noteq> NUL) (LF # l)"
    by (intro takeWhile_append2) blast
  then show "takeWhile (\<lambda>b. b \<noteq> LF \<and> b \<noteq> NUL) (header c @ l) = butlast (header c)"
    unfolding h by simp
  show "last (header c) = LF" "header c \<noteq> []" unfolding h by simp_all
qed

text \<open>How far the reply and its terminating zero reach.\<close>

lemma fill_reply_run:
  assumes c: "heap (mach s) it = Some c" "it \<noteq> 0" "item_wf c" and k: "NUL \<notin> set (key_of c)" "LF \<notin> set (key_of c)"
    and nb: "it_nbytes c < 2 ^ 31"
  shows "fill_reply it s = (if length (reply c) + 1 \<le> length (wbuf (con s))
     then Some (Inr ((), s\<lparr>con := (con s)\<lparr>wbuf := blit (wbuf (con s)) 0 (reply c @ [NUL])\<rparr>\<rparr>))
     else Some (Inl BufferOverrun))"
proof -
  let ?B = "wbuf (con s)" and ?n = "unat (it_nkey c)" and ?h = "header c" and ?v = "value_of c"
  have wf: "2 \<le> it_nbytes c" "?n + 1 + nat (it_nbytes c) \<le> length (it_data c)" using c(3) by (simp_all add: item_wf_def)
  have kl: "length (key_of c) = ?n" "length ?v = nat (it_nbytes c)" using key_length [OF c(3)] value_length [OF c(3)] by simp_all
  have m: "on_mach (rd it) s = Some (Inr (c, s))" "on_mach (rd_data it 0 ?n) s = Some (Inr (key_of c, s))"
    "on_mach (rd_data it (?n + 1) (size_t (it_nbytes c))) s = Some (Inr (?v, s))"
    using c wf nb by (simp_all add: on_mach_def rd_def rd_data_def bnd_def ret_def key_of_def value_of_def real_data_off_def)
  have sp: "sprintf B (int off) str t = (if off + length str + 1 \<le> length B
      then Some (Inr (blit B off (str @ [NUL]), t)) else Some (Inl BufferOverrun))" for B off str t
    by (simp add: sprintf_def put_bytes_run)
  have hl: "length ?h = 6 + ?n + length (get_line c)" by (simp add: header_def kl)
  have rl: "length (reply c) = length ?h + nat (it_nbytes c) + 5" by (simp add: reply_def hl kl)
  have vne: "?v \<noteq> []" using kl wf(1) by auto
  have lf: "strchr_LF (blit ?B 0 (?h @ [NUL])) t = Some (Inr (int (length ?h - 1), t))"
    if l: "length ?h + 1 \<le> length ?B" for t
  proof -
    have b: "blit ?B 0 (?h @ [NUL]) = ?h @ NUL # drop (length ?h + 1) ?B" by (simp add: blit_def)
    note t = header_line [OF k]
    obtain j where j: "length ?h = Suc j" using t(3) by (cases ?h) simp_all
    have "(?h @ NUL # drop (length ?h + 1) ?B) ! j = LF"
      using t(2,3) j by (simp add: nth_append last_conv_nth)
    then show ?thesis
      unfolding strchr_LF_def b t(1) Let_def by (simp add: ret_def j)
  qed
  have lf1: "int (length ?h - 1) + 1 = int (length ?h)" using header_line(3) [OF k] by (cases ?h) simp_all
  define V where "V = ''VALUE ''"
  have v6: "length V = 6" by (simp add: V_def)
  have hV: "?h = V @ key_of c @ get_line c" by (simp add: header_def V_def)
  have rV: "reply c = ?h @ ?v @ ''END'' @ crlf" by (simp add: reply_def header_def)
  have p1: "put_bytes ?B 0 V t = (if 6 \<le> length ?B then Some (Inr (blit ?B 0 V, t)) else Some (Inl BufferOverrun))" for t
    using put_bytes_run [of ?B 0 V t] v6 by simp
  have p2: "put_bytes (blit ?B 0 V) 6 (key_of c) t = (if 6 + ?n \<le> length ?B
      then Some (Inr (blit ?B 0 (V @ key_of c), t)) else Some (Inl BufferOverrun))" if "6 \<le> length ?B" for t
    using put_bytes_run [of "blit ?B 0 V" 6 "key_of c" t] blit_next [of V "key_of c" ?B] v6 kl that by simp
  have p3: "sprintf (blit ?B 0 (V @ key_of c)) (6 + int ?n) (get_line c) t = (if length ?h + 1 \<le> length ?B
      then Some (Inr (blit ?B 0 (?h @ [NUL]), t)) else Some (Inl BufferOverrun))" if "6 + ?n \<le> length ?B" for t
    using put_bytes_run [of "blit ?B 0 (V @ key_of c)" "6 + ?n" "get_line c @ [NUL]" t]
      blit_next [of "V @ key_of c" "get_line c @ [NUL]" ?B] v6 kl hl that by (simp add: sprintf_def hV)
  have p4: "put_bytes (blit ?B 0 (?h @ [NUL])) (int (length ?h - 1) + 1) ?v t = (if length ?h + length ?v \<le> length ?B
      then Some (Inr (blit ?B 0 (?h @ ?v), t)) else Some (Inl BufferOverrun))" if "length ?h + 1 \<le> length ?B" for t
    unfolding lf1 using put_bytes_run [of "blit ?B 0 (?h @ [NUL])" "length ?h" ?v t] blit_over [OF vne, of ?h ?B NUL] that
    by simp
  have off: "int (length ?h - 1) + 1 + it_nbytes c = int (length ?h + length ?v)" using lf1 wf(1) kl by simp
  have p5: "sprintf (blit ?B 0 (?h @ ?v)) (int (length ?h - 1) + 1 + it_nbytes c) (''END'' @ crlf) t =
      (if length (reply c) + 1 \<le> length ?B
      then Some (Inr (blit ?B 0 (reply c @ [NUL]), t)) else Some (Inl BufferOverrun))" if "length ?h + length ?v \<le> length ?B" for t
    unfolding off sprintf_def
    using put_bytes_run [of "blit ?B 0 (?h @ ?v)" "length ?h + length ?v" "(''END'' @ crlf) @ [NUL]" t]
      blit_next [of "?h @ ?v" "(''END'' @ crlf) @ [NUL]" ?B] that by (simp add: rV)
  have n2: "2 \<le> nat (it_nbytes c)" using wf(1) by simp
  have le: "length (reply c) + 1 \<le> length ?B \<Longrightarrow> length ?h + length ?v \<le> length ?B"
    "length ?h + length ?v \<le> length ?B \<Longrightarrow> length ?h + 1 \<le> length ?B"
    "length ?h + 1 \<le> length ?B \<Longrightarrow> 6 + ?n \<le> length ?B" "6 + ?n \<le> length ?B \<Longrightarrow> 6 \<le> length ?B"
    using hl rl kl n2 by linarith+
  show ?thesis
    unfolding fill_reply_def V_def [symmetric] bnd_run [of "on_mach (rd it)" s, OF m(1)] bnd_run [OF getc_run]
    using le
    by (cases "length (reply c) + 1 \<le> length ?B"; cases "length ?h + length ?v \<le> length ?B";
      cases "length ?h + 1 \<le> length ?B"; cases "6 + ?n \<le> length ?B"; cases "6 \<le> length ?B";
      simp only: bnd_def p1 p2 m(2) p3 lf m(3) p4 p5 modc_run if_True if_False bind.simps sum.case prod.case refl simp_thms)
qed

lemma get_ntotal_eq: "it_nbytes c < 2 ^ 30 \<Longrightarrow> 2 \<le> it_nbytes c \<Longrightarrow>
    get_ntotal c = 12 + int (unat (it_nkey c)) + it_nbytes c"
proof -
  assume nb: "it_nbytes c < 2 ^ 30" "2 \<le> it_nbytes c"
  have un: "unat (it_nkey c) < 256" using unsigned_less [of "it_nkey c"] by simp
  obtain n where n: "unat (it_nkey c) = n" by blast
  have "n < 256" using un n by simp
  then show ?thesis unfolding get_ntotal_def n using nb by (subst c_int_small) auto
qed

lemma reply_length: "item_wf c \<Longrightarrow> length (reply c) = 11 + unat (it_nkey c) + length (get_line c) + nat (it_nbytes c)"
  using key_length [of c] value_length [of c] by (simp add: reply_def)

text \<open>The reply never fits a buffer made for it.\<close>

lemma grown_wbuf_overruns:
  assumes c: "heap (mach s) it = Some c" "it \<noteq> 0" "item_wf c" "NUL \<notin> set (key_of c)" "LF \<notin> set (key_of c)"
    and nb: "it_nbytes c < 2 ^ 30" and idle: "out_idle (con s)" and big: "get_ntotal c > WRITEBUF_LEN"
  shows "bnd (grow_wbuf (get_ntotal c)) (\<lambda>ok. if \<not> ok then ret () else seqs (fill_reply it # rest)) s =
     Some (Inl BufferOverrun)"
proof -
  let ?t = "get_ntotal c"
  have wf: "2 \<le> it_nbytes c" using c(3) by (simp add: item_wf_def)
  obtain n where n: "unat (it_nkey c) = n" by blast
  have t: "?t = 12 + int n + it_nbytes c" using get_ntotal_eq [OF nb wf] unfolding n .
  have rl: "length (reply c) = 11 + n + length (get_line c) + nat (it_nbytes c)" using reply_length [OF c(3)] unfolding n .
  have gl: "0 < length (get_line c)" by (simp add: get_line_def)
  have wl: "wbuf_len (con s) = WRITEBUF_LEN" using idle by (simp add: out_idle_def)
  let ?k = "alloc_calls (mach s)"
  let ?s1 = "s\<lparr>mach := (mach s)\<lparr>alloc_calls := Suc ?k\<rparr>\<rparr>"
  have nb1: "new_buf ?t s = Some (Inr (if alloc_ok (mach s) ?k then Some (map (junk s ?k) [0..<nat ?t]) else None, ?s1))"
    by (simp add: new_buf_def prog_defs)
  show ?thesis
  proof (cases "alloc_ok (mach s) ?k")
    case True
    let ?c2 = "(con s)\<lparr>wbuf := map (junk s ?k) [0..<nat ?t], wbuf_len := ?t\<rparr>"
    let ?s2 = "?s1\<lparr>con := ?c2\<rparr>"
    have g: "grow_wbuf ?t s = Some (Inr (True, ?s2))"
      using big wl nb1 True by (simp add: grow_wbuf_def bnd_def getc_run thn_def modc_run ret_def)
    have "length (wbuf (con ?s2)) = 12 + n + nat (it_nbytes c)" using t wf by simp
    then have "\<not> length (reply c) + 1 \<le> length (wbuf (con ?s2))" using rl gl by linarith
    then have "fill_reply it ?s2 = Some (Inl BufferOverrun)"
      using fill_reply_run [of ?s2 it c] c nb by simp
    then show ?thesis using g by (simp add: bnd_def seqs.simps thn_def)
  next
    case False
    have "out_string msg (?s1\<lparr>con := (con s)\<lparr>wbuf := []\<rparr>\<rparr>) = Some (Inl BufferOverrun)" if "msg = ''SERVER_ERROR memory is full''" for msg
      using wl that by (cases "noreply (con s)")
        (simp_all add: out_string_def seqs.simps prog_defs getc_def conn_state_set_def modc_def Let_def put_bytes_def WRITEBUF_LEN_def)
    then show ?thesis
      using big wl nb1 False by (simp add: grow_wbuf_def bnd_def getc_run thn_def modc_run seqs.simps)
  qed
qed

text \<open>A key that is a word has neither a zero byte nor a newline in it when its line has none.\<close>

lemma tokens_chars: "t \<in> set (words_from l u) \<Longrightarrow> set t \<subseteq> set u \<union> set l"
  by (induction l arbitrary: u) (force split: if_splits)+

lemma token_plain: "plain_line w c \<Longrightarrow> tokens w = ts \<Longrightarrow> k \<in> set ts \<Longrightarrow> NUL \<notin> set k \<and> LF \<notin> set k"
  using tokens_chars [of k w "[]"] by (auto simp: plain_line_def tokens_def)

text \<open>What \<open>get\<close> does with a key that is bound.\<close>

definition replied :: "base_item \<Rightarrow> conn \<Rightarrow> conn" where
  "replied c cn = cn\<lparr>wbuf := blit (wbuf cn) 0 (reply c @ [NUL]), c_state := conn_write, read_watched := False,
     write_watched := True, rbuf := replicate (nat (rbuf_len cn)) NUL, rbuf_rlen := 0\<rparr>"

lemma get_command_hit:
  assumes g: "item_get k (mach s) = Some (Inr (r, m))" "r \<noteq> 0" "heap m r = Some c" "item_wf c"
    and k: "length k \<le> 250" "key_of c = k" "NUL \<notin> set k" "LF \<notin> set k" and nb: "it_nbytes c < 2 ^ 30"
    and cn: "length (rbuf (con s)) = nat (rbuf_len (con s))" "0 < rbuf_len (con s)" "rbuf_len (con s) < 2 ^ 27"
      "out_idle (con s)" "length (wbuf (con s)) = 2048"
  shows "get_command [''get'', k] s = (if length (reply c) < 2048
     then Some (Inr ((), s\<lparr>mach := m, con := replied c (con s)\<rparr>)) else Some (Inl BufferOverrun))"
proof -
  let ?s1 = "s\<lparr>mach := m\<rparr>"
  let ?rest = "[conn_state_set conn_write, watch_write, clear_rbuf, modc (\<lambda>c. c\<lparr>rbuf_rlen := 0\<rparr>)]"
  have kk: "NUL \<notin> set (key_of c)" "LF \<notin> set (key_of c)" using k by simp_all
  have "get_command [''get'', k] s = bnd (grow_wbuf (get_ntotal c)) (\<lambda>ok. if \<not> ok then ret () else
      seqs (fill_reply r # ?rest)) ?s1"
    using g k(1) by (simp add: get_command_def KEY_MAX_LENGTH_def bnd_def on_mach_def rd_def)
  also have "\<dots> = (if length (reply c) < 2048
     then Some (Inr ((), s\<lparr>mach := m, con := replied c (con s)\<rparr>)) else Some (Inl BufferOverrun))"
  proof (cases "get_ntotal c > WRITEBUF_LEN")
    case True
    have wf: "2 \<le> it_nbytes c" using g(4) by (simp add: item_wf_def)
    obtain n where n: "unat (it_nkey c) = n" by blast
    have t: "get_ntotal c = 12 + int n + it_nbytes c" using get_ntotal_eq [OF nb wf] unfolding n .
    have "length (reply c) = 11 + n + length (get_line c) + nat (it_nbytes c)" using reply_length [OF g(4)] unfolding n .
    moreover have "0 < length (get_line c)" by (simp add: get_line_def)
    ultimately have "\<not> length (reply c) < 2048" using True t unfolding WRITEBUF_LEN_def by linarith
    moreover have "bnd (grow_wbuf (get_ntotal c)) (\<lambda>ok. if \<not> ok then ret () else seqs (fill_reply r # ?rest)) ?s1 =
        Some (Inl BufferOverrun)"
      by (rule grown_wbuf_overruns) (use g kk nb cn True in simp_all)
    ultimately show ?thesis by simp
  next
    case False
    have "grow_wbuf (get_ntotal c) ?s1 = Some (Inr (True, ?s1))"
      using False cn(4) by (simp add: grow_wbuf_def bnd_def getc_run out_idle_def ret_def)
    moreover have "fill_reply r ?s1 = (if length (reply c) < 2048
       then Some (Inr ((), ?s1\<lparr>con := (con s)\<lparr>wbuf := blit (wbuf (con s)) 0 (reply c @ [NUL])\<rparr>\<rparr>))
       else Some (Inl BufferOverrun))"
      using fill_reply_run [of ?s1 r c] g kk nb cn(5) by (simp add: Suc_le_eq)
    moreover have "seqs ?rest (?s1\<lparr>con := (con s)\<lparr>wbuf := blit (wbuf (con s)) 0 (reply c @ [NUL])\<rparr>\<rparr>) =
        Some (Inr ((), s\<lparr>mach := m, con := replied c (con s)\<rparr>))"
    proof -
      let ?c3 = "(con s)\<lparr>wbuf := blit (wbuf (con s)) 0 (reply c @ [NUL]), c_state := conn_write, read_watched := False,
          write_watched := True\<rparr>"
      have "clear_rbuf (?s1\<lparr>con := ?c3\<rparr>) = Some (Inr ((), ?s1\<lparr>con := ?c3\<lparr>rbuf := replicate (nat (rbuf_len (con s))) NUL\<rparr>\<rparr>))"
        using clear_rbuf_run [of "?s1\<lparr>con := ?c3\<rparr>"] cn by simp
      then show ?thesis
        by (simp add: seqs.simps thn_def bnd_def conn_state_set_def watch_write_def modc_run ret_def replied_def)
    qed
    ultimately show ?thesis by (simp add: bnd_def seqs.simps(2) [of "fill_reply r"] thn_def)
  qed
  finally show ?thesis .
qed

lemma length_dec: "n < 10 ^ Suc d \<Longrightarrow> length (dec n) \<le> Suc d"
proof (induction d arbitrary: n)
  case 0
  then show ?case by (subst dec.simps) simp
next
  case (Suc d)
  then have "n div 10 < 10 ^ Suc d" by (simp add: less_mult_imp_div_less)
  from Suc.IH [OF this] show ?case by (subst dec.simps) simp
qed

lemma short_reply:
  assumes "item_wf c" and "length (key_of c) \<le> 250" and "length (value_of c) < 1600"
  shows "length (reply c) < 2048" and "dec_int (it_nbytes c) = dec (length (value_of c))"
proof -
  have vl: "int (length (value_of c)) = it_nbytes c" "0 \<le> it_nbytes c"
    using value_length [OF assms(1)] assms(1) by (auto simp: item_wf_def)
  show d: "dec_int (it_nbytes c) = dec (length (value_of c))"
    unfolding dec_int_def vl(1) [symmetric] by simp
  have f8: "unat (it_flag c) < 2 ^ LENGTH(8)" and f64: "unat (it_cas c) < 2 ^ LENGTH(64)" by (rule unsigned_less)+
  have "length (dec (unat (it_flag c))) \<le> Suc 2"
    using f8 by (intro length_dec) simp
  moreover have "length (dec (unat (it_cas c))) \<le> Suc 19"
    using f64 by (intro length_dec) simp
  moreover have "length (dec (length (value_of c))) \<le> Suc 3"
    using assms(3) by (intro length_dec) simp
  ultimately have "length (get_line c) \<le> 32" unfolding get_line_def d by simp
  moreover have "length (reply c) = 11 + length (key_of c) + length (get_line c) + length (value_of c)" by (simp add: reply_def)
  ultimately show "length (reply c) < 2048" using assms(2,3) by linarith
qed

lemma get_served:
  assumes "ready w (con s)" and "inp s = RdData (w @ [LF]) # is" and "outp s = []"
    and "plain_line w (con s)" and "tokens w = [''get'', k]" and "length k \<le> 250"
    and "mc_inv fl bl K (mach s)" and "unlocked (mach s)"
    and "case live bl (mach s) k of None \<Rightarrow> True | Some (v, e, u) \<Rightarrow> length v < 1600"
  shows "\<exists>s' bl'. thn drive_machine drive_machine s = Some (Inr ((), s')) \<and> at_rest (con s') \<and> inp s' = is \<and>
     outp s' = [] \<and> rbuf_len (con s') = rbuf_len (con s) \<and>
     outcome bl (mach s) k (live bl (mach s) k) fl bl' K (mach s') \<and> last_cas_id (mach s') = last_cas_id (mach s) \<and>
     (case live bl (mach s) k of
        None \<Rightarrow> sent s' = sent s @ ''END'' @ crlf
      | Some (v, e, u) \<Rightarrow> \<exists>f z. f AND ITEM_LINKED \<noteq> 0 \<and>
          sent s' = sent s @ ''VALUE '' @ k @ '' '' @ dec (unat f) @ '' '' @ dec (length v) @ '' '' @ dec (unat u) @
            LF # v @ ''END'' @ crlf @ NUL # z \<and> length (sent s') = length (sent s) + 2048)"
proof (cases "live bl (mach s) k")
  case None
  let ?s1 = "s\<lparr>inp := is, con := with_command w (con s)\<rparr>"
  obtain r bl' m where g: "item_get k (mach s) = Some (Inr (r, m))" "outcome bl (mach s) k None fl bl' K m" "r = 0"
      "last_cas_id m = last_cas_id (mach s)"
    using item_get_found [OF assms(7,8), of k] None by auto
  have "clear_and_answer ''END'' (?s1\<lparr>mach := m\<rparr>) =
      Some (Inr ((), s\<lparr>mach := m, inp := is, con := answered ''END'' (with_command w (con s))\<rparr>))"
    using clear_and_answer_run [of "?s1\<lparr>mach := m\<rparr>" "''END''"] with_command_fits [OF assms(1,4)] by simp
  then have "process_command ?s1 = Some (Inr ((), s\<lparr>mach := m, inp := is, con := answered ''END'' (with_command w (con s))\<rparr>))"
    using process_line [OF assms(4), of "s\<lparr>inp := is\<rparr>"] assms(5,6) g
    by (simp add: command_two_para_def get_command_def KEY_MAX_LENGTH_def bnd_def on_mach_def)
  from answered_events [OF assms(1,4,2,3) this] obtain s' where
    "thn drive_machine drive_machine s = Some (Inr ((), s'))" "at_rest (con s')" "sent s' = sent s @ answer ''END'' @ crlf" "mach s' = m"
    "inp s' = is" "outp s' = []" "rbuf_len (con s') = rbuf_len (con s)"
    by blast
  then show ?thesis
    using None g(2,4) by (intro exI [of _ s'] exI [of _ bl']) (simp add: answer_def WRITEBUF_LEN_def)
next
  case (Some x)
  obtain v e u where x: "x = (v, e, u)" by (cases x) auto
  let ?s1 = "s\<lparr>inp := is, con := with_command w (con s)\<rparr>"
  obtain r bl' m c where g: "item_get k (mach s) = Some (Inr (r, m))" "outcome bl (mach s) k (Some (v, e, u)) fl bl' K m"
      "entry bl' m k = Some r" "r \<noteq> 0" "heap m r = Some c" "key_of c = k" "content c = (v, e, u)"
      "last_cas_id m = last_cas_id (mach s)"
    using item_get_found [OF assms(7,8), of k] Some x by auto
  have inv: "mc_inv fl bl' K m" using g(2) by (simp add: outcome_def)
  have lc: "linked_cell c" using mc_inv_cell(4) [OF inv g(3)] g(5) by auto
  then have wf: "item_wf c" and fl: "it_flag c AND ITEM_LINKED \<noteq> 0" by (simp_all add: linked_cell_def)
  have v: "value_of c = v" "it_cas c = u" using g(7) by (simp_all add: content_def)
  have lv: "length v < 1600" using assms(9) Some x by simp
  have short: "length (reply c) < 2048" "dec_int (it_nbytes c) = dec (length v)"
    using short_reply [OF wf] assms(6) g(6) v(1) lv by simp_all
  have nb: "it_nbytes c < 2 ^ 30" using value_length [OF wf] v(1) lv by simp
  have plain: "NUL \<notin> set k" "LF \<notin> set k" using token_plain [OF assms(4,5), of k] by simp_all
  let ?c2 = "replied c (with_command w (con s))"
  let ?s2 = "s\<lparr>mach := m, inp := is, con := ?c2\<rparr>"
  have "get_command [''get'', k] ?s1 = Some (Inr ((), ?s2))"
    using get_command_hit [of k ?s1 r m c] g wf assms(6) plain nb with_command_fits [OF assms(1,4)] ready_simps(9) [OF assms(1)] short(1) by simp
  then have p: "process_command ?s1 = Some (Inr ((), ?s2))"
    using process_line [OF assms(4), of "s\<lparr>inp := is\<rparr>"] assms(5) by (simp add: command_two_para_def)
  have wl: "wbuf_wlen (con s) = 0" "wbuf_now (con s) = 0" "wbuf_len (con s) = 2048"
    using ready_simps(3) [OF assms(1)] by (simp_all add: out_idle_def WRITEBUF_LEN_def)
  define z where "z = drop (length (reply c) + 1) (wbuf (con s))"
  have wb: "wbuf ?c2 = reply c @ NUL # z" "length (reply c @ NUL # z) = 2048"
    using short(1) ready_simps(9) [OF assms(1)] by (simp_all add: replied_def blit_def z_def)
  have wx: "wbuf_wlen ?c2 = 0" "wbuf_now ?c2 = 0" "wbuf_len ?c2 = 2048" using wl by (simp_all add: replied_def with_command_def)
  have ok: "out_ok ?c2" unfolding out_ok_def wx wb(1) WRITEBUF_LEN_def using wb(2) by simp
  have ts: "to_send ?c2 = reply c @ NUL # z" unfolding to_send_def wx wb(1) using wb(2) by simp
  note r = ready_simps [OF assms(1)]
  obtain s' where s': "thn drive_machine drive_machine s = Some (Inr ((), s'))" "at_rest (con s')"
      "sent s' = sent s @ reply c @ NUL # z" "mach s' = m" "inp s' = is" "outp s' = []" "rbuf_len (con s') = rbuf_len (con s)"
    using reply_events [OF assms(1,4,2) p] ok ts r assms(3) wb by (auto simp: replied_def)
  have "reply c = ''VALUE '' @ k @ '' '' @ dec (unat (it_flag c)) @ '' '' @ dec (length v) @ '' '' @ dec (unat u) @
      LF # v @ ''END'' @ crlf"
    by (simp add: reply_def get_line_def g(6) v short(2))
  then have "\<exists>f z. f AND ITEM_LINKED \<noteq> 0 \<and>
      sent s' = sent s @ ''VALUE '' @ k @ '' '' @ dec (unat f) @ '' '' @ dec (length v) @ '' '' @ dec (unat u) @
            LF # v @ ''END'' @ crlf @ NUL # z \<and> length (sent s') = length (sent s) + 2048"
    using s'(3) wb(2) fl by (intro exI [of _ "it_flag c"] exI [of _ z]) simp
  then show ?thesis
    using s'(1,2,4-7) Some x g(2,8)
    by (intro exI [of _ s'] exI [of _ bl']) simp
qed

text \<open>C6: The line get, from a connection at rest and a sound store. For a key with no binding, or one
  that has expired, the client is answered END. Otherwise, if the reply is shorter than 2048
  bytes, the client gets the line VALUE with the key, the flag byte of the item (whose lowest bit
  is set, whatever the client had given as flags), the length and the version, then the value and
  END; the whole buffer of 2048 bytes is sent. The store stays sound and the connection is at
  rest again.\<close>
theorem get_dialogue:
  assumes "at_rest (con s)" and "inp s = RdData (w @ [LF]) # is" and "outp s = []"
    and "plain_line w (con s)" and "tokens w = [''get'', k]" and "length k \<le> 250"
    and "mc_inv fl bl K (mach s)" and "unlocked (mach s)"
    and "case live bl (mach s) k of None \<Rightarrow> True | Some (v, e, u) \<Rightarrow> length v < 1600"
  shows "\<exists>s' bl'. thn drive_machine drive_machine s = Some (Inr ((), s')) \<and> at_rest (con s') \<and>
     mc_inv fl bl' K (mach s') \<and> unlocked (mach s') \<and> stored bl' (mach s') k = live bl (mach s) k \<and>
     (case live bl (mach s) k of
        None \<Rightarrow> sent s' = sent s @ ''END'' @ crlf
      | Some (v, e, u) \<Rightarrow> \<exists>f z. f AND ITEM_LINKED \<noteq> 0 \<and>
          sent s' = sent s @ ''VALUE '' @ k @ '' '' @ dec (unat f) @ '' '' @ dec (length v) @ '' '' @ dec (unat u) @
            LF # v @ ''END'' @ crlf @ NUL # z \<and> length (sent s') = length (sent s) + 2048)"
proof -
  obtain s' bl' where "thn drive_machine drive_machine s = Some (Inr ((), s'))" "at_rest (con s')"
      and o: "outcome bl (mach s) k (live bl (mach s) k) fl bl' K (mach s')"
      and "case live bl (mach s) k of
        None \<Rightarrow> sent s' = sent s @ ''END'' @ crlf
      | Some (v, e, u) \<Rightarrow> \<exists>f z. f AND ITEM_LINKED \<noteq> 0 \<and>
          sent s' = sent s @ ''VALUE '' @ k @ '' '' @ dec (unat f) @ '' '' @ dec (length v) @ '' '' @ dec (unat u) @
            LF # v @ ''END'' @ crlf @ NUL # z \<and> length (sent s') = length (sent s) + 2048"
    using get_served [OF at_rest_ready [OF assms(1,4)] assms(2-9)] by blast
  then show ?thesis using outcome_unlocked [OF o] assms(8) o unfolding outcome_def put_at_def by blast
qed

lemma get_dialogue_witness:
  "\<exists>s s'. thn drive_machine drive_machine s = Some (Inr ((), s')) \<and> length (sent s') = length (sent s) + 2048"
proof -
  obtain m fl bl K u where m: "mc_inv fl bl K m" "unlocked m" "roomy m" "stored bl m ''k'' = Some (''ab'' @ crlf, 0, u)"
    by (rule demo_bound [of "''ab''"]) simp
  have l: "live bl m ''k'' = Some (''ab'' @ crlf, 0, u)" using m(4) by (simp add: live_def)
  have t: "tokens ''get k'' = [''get'', ''k'']"
    by (simp add: tokens_def separates_def is_space_def char_val_def)
  have "plain_line ''get k'' demo_conn"
    by (simp add: plain_line_def LF_def NUL_def)
  then show ?thesis
    using get_dialogue [of "demo_net m [RdData (''get k'' @ [LF])] []" "''get k''" "[]" "''k''" fl bl K] t m(1,2) l
    by fastforce
qed

text \<open>C29: A value that does not fit the first buffer with its reply cannot be read back: the code makes
  room for the key and the value but not for the line between them, and writes past the end of the
  buffer. This happens for every bound key whose value has 2048 bytes or more.\<close>
theorem long_value_overruns:
  assumes "at_rest (con s)" and "inp s = RdData (w @ [LF]) # is"
    and "plain_line w (con s)" and "tokens w = [''get'', k]" and "length k \<le> 250"
    and "mc_inv fl bl K (mach s)" and "unlocked (mach s)"
    and "live bl (mach s) k = Some (v, e, u)" and "2048 \<le> length v" and "length v < 2 ^ 30"
  shows "drive_machine s = Some (Inl BufferOverrun)"
proof -
  note rd = at_rest_ready [OF assms(1,3)]
  let ?s1 = "s\<lparr>inp := is, con := with_command w (con s)\<rparr>"
  obtain r bl' m c where g: "item_get k (mach s) = Some (Inr (r, m))" "outcome bl (mach s) k (Some (v, e, u)) fl bl' K m"
      "entry bl' m k = Some r" "r \<noteq> 0" "heap m r = Some c" "key_of c = k" "content c = (v, e, u)"
    using item_get_found [OF assms(6,7), of k] assms(8) by auto
  have inv: "mc_inv fl bl' K m" using g(2) by (simp add: outcome_def)
  have wf: "item_wf c" using mc_inv_cell(4) [OF inv g(3)] g(5) by (auto simp: linked_cell_def)
  have v: "value_of c = v" using g(7) by (simp add: content_def)
  have nb: "it_nbytes c < 2 ^ 30" using value_length [OF wf] v assms(10) by simp
  have long: "\<not> length (reply c) < 2048" using v assms(9) by (simp add: reply_def)
  have plain: "NUL \<notin> set k" "LF \<notin> set k" using token_plain [OF assms(3,4), of k] by simp_all
  have "get_command [''get'', k] ?s1 = Some (Inl BufferOverrun)"
    using get_command_hit [of k ?s1 r m c] g wf assms(5) plain nb with_command_fits [OF rd assms(3)]
      at_rest_simps(9) [OF assms(1)] long by simp
  then have p: "process_command ?s1 = Some (Inl BufferOverrun)"
    using process_line [OF assms(3), of "s\<lparr>inp := is\<rparr>"] assms(4) by (simp add: command_two_para_def)
  show ?thesis by (rule command_faults [OF rd assms(3,2) p])
qed

lemma long_value_overruns_witness:
  "\<exists>s bl. map_option (length \<circ> fst) (stored bl (mach s) ''k'') = Some 3002 \<and> drive_machine s = Some (Inl BufferOverrun)"
proof -
  obtain m fl bl K u where m: "mc_inv fl bl K m" "unlocked m" "roomy m"
      "stored bl m ''k'' = Some (replicate 3000 (CHR ''x'') @ crlf, 0, u)"
    by (rule demo_bound [of "replicate 3000 (CHR ''x'')"]) simp
  have l: "live bl m ''k'' = Some (replicate 3000 (CHR ''x'') @ crlf, 0, u)" using m(4) by (simp add: live_def)
  have t: "tokens ''get k'' = [''get'', ''k'']"
    by (simp add: tokens_def separates_def is_space_def char_val_def)
  have "plain_line ''get k'' demo_conn"
    by (simp add: plain_line_def LF_def NUL_def)
  then show ?thesis
    using long_value_overruns [of "demo_net m [RdData (''get k'' @ [LF])] []" "''get k''" "[]" "''k''" fl bl K] t m(1,2,4) l
    by (intro exI [of _ "demo_net m [RdData (''get k'' @ [LF])] []"] exI [of _ bl]) simp
qed

end
