(* ===== verification/Storage.thy ===== *)
theory Storage
  imports Lookup
begin

text \<open>
  The storage commands, from the line and the value a client sends to the answer it receives and
  the store afterwards, and their composition with get.
\<close>

section \<open>A new item, from the line to the value\<close>

text \<open>The counters of the environment are not part of what the store keeps.\<close>

definition tick :: "nat \<Rightarrow> nat \<Rightarrow> machine \<Rightarrow> machine" where
  "tick i j m = m\<lparr>clock_reads := i, alloc_calls := j\<rparr>"

lemma tick_simps [simp]:
  "heap (tick i j m) = heap m" "slab (tick i j m) = slab m" "hashtable (tick i j m) = hashtable m"
  "lru_list (tick i j m) = lru_list m" "clock (tick i j m) = clock m" "cache_lock (tick i j m) = cache_lock m"
  "clock_reads (tick i j m) = i" "alloc_calls (tick i j m) = j" "alloc_ok (tick i j m) = alloc_ok m"
  "last_cas_id (tick i j m) = last_cas_id m" "brk (tick i j m) = brk m" "hashitems (tick i j m) = hashitems m"
  "mem_setting (tick i j m) = mem_setting m"
  by (simp_all add: tick_def)

lemma tick_self: "tick (clock_reads m) (alloc_calls m) m = m"
  by (simp add: tick_def)

lemma tick_views [simp]: "entry bl (tick i j m) = entry bl m" "in_table bl (tick i j m) = in_table bl m"
  "stored bl (tick i j m) = stored bl m" "unlocked (tick i j m) = unlocked m" "world m' (tick i j m) = world m' m"
proof -
  show e: "entry bl (tick i j m) = entry bl m" by (rule ext) (simp add: entry_def)
  show "stored bl (tick i j m) = stored bl m" by (rule ext) (simp add: stored_def e split: option.split)
qed (simp_all add: in_table_def unlocked_def world_def)

lemma mc_inv_tick [simp]: "mc_inv fl bl K (tick i j m) = mc_inv fl bl K m"
proof -
  have "hash_inv bl (tick i j m) = hash_inv bl m" by (simp add: hash_inv_def Let_def)
  moreover have "slab_inv fl (tick i j m) = slab_inv fl m"
    by (simp add: slab_inv_def heap_ok_def free_ok_def)
  moreover have "lru_ok K (tick i j m) = lru_ok K m" by (simp add: lru_ok_def)
  ultimately show ?thesis unfolding mc_inv_def base_inv_def by simp
qed

lemma pending_tick [simp]: "pending fl bl (tick i j m) = pending fl bl m"
  by (auto simp: pending_def fun_eq_iff)

lemma room_tick [simp]: "room fl (tick i j m) = room fl m"
  by (auto simp: room_def fun_eq_iff split: sum.splits)

lemma live_tick: "live bl (tick (clock_reads m) j m) = live bl m"
  by (simp add: live_def fun_eq_iff split: option.splits)

text \<open>When an item with a given expiry time expires: relative times count from the clock.\<close>

definition expiry :: "int \<Rightarrow> u32 \<Rightarrow> u32" where
  "expiry e now = (if e = 0 then 0 else if e > REALTIME_MAXDELTA then of_int e else of_int (e + uint now))"

lemma realtime_run:
  assumes "0 \<le> e"
  shows "\<exists>i. clock_reads m \<le> i \<and>
     realtime e m = Some (Inr (expiry e (clock m (clock_reads m)), tick i (alloc_calls m) m))"
proof -
  have self: "m = tick (clock_reads m) (alloc_calls m) m" by (simp add: tick_def)
  consider "e = 0" | "0 < e" "e \<le> REALTIME_MAXDELTA" | "REALTIME_MAXDELTA < e" "\<not> e \<le> 0" "e \<noteq> 0"
    using assms by (simp add: REALTIME_MAXDELTA_def) linarith
  then show ?thesis
  proof cases
    case 1
    then show ?thesis using self by (intro exI [of _ "clock_reads m"]) (simp add: realtime_def expiry_def ret_def)
  next
    case 2
    then show ?thesis
      by (intro exI [of _ "Suc (clock_reads m)"])
        (simp add: realtime_def current_time_def expiry_def prog_defs tick_def)
  next
    case 3
    then show ?thesis using self
      by (intro exI [of _ "clock_reads m"]) (simp add: realtime_def process_started_def expiry_def ret_def)
  qed
qed

lemma with_item_tick: "with_item a c (tick i j m) = tick i j (with_item a c m)"
  by (simp add: with_item_def tick_def)

lemma tick_tick [simp]: "tick i j (tick i' j' m) = tick i j m"
  by (simp add: tick_def)

lemma with_item_twice: "with_item a c (with_item a d m) = with_item a c m"
  by (simp add: with_item_def)

text \<open>What the connection has written when it waits for the value.\<close>

definition filled :: "base_item \<Rightarrow> byte list \<Rightarrow> u32 \<Rightarrow> u32 \<Rightarrow> int \<Rightarrow> u64 \<Rightarrow> base_item" where
  "filled n key f t nb u = n\<lparr>it_cas := u, it_nkey := of_nat (length key), it_flag := ucast f, it_exptime := t,
     it_nbytes := nb, it_data := blit (it_data n) 0 key\<rparr>"

lemma fill_item_run:
  assumes "heap m r = Some n" and "r \<noteq> 0" and "length key \<le> length (it_data n)" and "0 \<le> e"
  shows "\<exists>t i. clock_reads m \<le> i \<and> t = expiry e (clock m (clock_reads m)) \<and>
     fill_item r key f e nb u m = Some (Inr ((), tick i (alloc_calls m) (with_item r (filled n key f t nb u) m)))"
proof -
  let ?m = "with_item r (n\<lparr>it_cas := u, it_nkey := of_nat (length key), it_flag := ucast f\<rparr>) m"
  obtain t i where t: "clock_reads ?m \<le> i" "t = expiry e (clock ?m (clock_reads ?m))"
     "realtime e ?m = Some (Inr (t, tick i (alloc_calls ?m) ?m))"
    using realtime_run [OF assms(4), of ?m] by blast
  have "wp (fill_item r key f e nb u) (\<lambda>_ m'. m' = tick i (alloc_calls m) (with_item r (filled n key f t nb u) m)) m"
    using assms(1-3) wp_returns [of "realtime e" ?m, OF t(3)]
    by (simp add: fill_item_def wp_rules with_item_def filled_def tick_def)
  then show ?thesis using t(1,2) by (intro exI [of _ t] exI [of _ i]) (auto simp: wp_iff with_item_def)
qed

lemma outcome_tick: "outcome bl (tick i j m) k x fl' bl' K' m' = outcome bl m k x fl' bl' K' m'"
  by (simp add: outcome_def put_at_def apart_def world_def)

text \<open>The machine from the line of a storage command to the moment before it is stored.\<close>

lemma client_store:
  assumes inv: "mc_inv fl bl K m" and ul: "unlocked m" and ok: "\<forall>i. alloc_ok m i"
    and room: "room fl m (57 + length key + nb)"
    and key: "length key \<le> 250" and v: "2 \<le> nb" "nb < 2 ^ 20" and e: "0 \<le> e"
  shows "\<exists>t0 i0 r m2 t i n fl'. realtime e m = Some (Inr (t0, tick i0 (alloc_calls m) m)) \<and>
     item_alloc (length key) (int nb) (tick i0 (alloc_calls m) m) = Some (Inr (r, m2)) \<and> r \<noteq> 0 \<and>
     fill_item r key f e (int nb) u m2 =
       Some (Inr ((), tick i (alloc_calls m2) (with_item r (filled n key f t (int nb) u) m2))) \<and>
     length key + nb + 6 \<le> length (it_data n) \<and> spent fl fl' \<and>
     (\<forall>v c. length v = nb \<and> c = client_item n key (ucast f) t u v \<longrightarrow> mc_inv fl' bl K (with_item r c m2) \<and>
       pending fl' bl (with_item r c m2) r c \<and> stored bl (with_item r c m2) = stored bl m \<and> world m (with_item r c m2)) \<and>
     last_cas_id m2 = last_cas_id m \<and> clock m2 = clock m \<and>
     clock_reads m \<le> i \<and> (\<exists>j. clock_reads m \<le> j \<and> j \<le> i \<and> t = expiry e (clock m j))"
proof -
  obtain t0 i0 where t0: "clock_reads m \<le> i0"
     "realtime e m = Some (Inr (t0, tick i0 (alloc_calls m) m))"
    using realtime_run [OF e, of m] by blast
  let ?m1 = "tick i0 (alloc_calls m) m"
  have sz: "alloc_size (length key) (int nb) = 57 + length key + nb"
    using v key by (simp add: alloc_size_eq)
  have lk: "\<not> cache_lock ?m1" "\<not> slabs_lock (slab ?m1)" using ul by (simp_all add: unlocked_def)
  have inv1: "mc_inv fl bl K ?m1" using inv by simp
  obtain r fl' m2 where a: "do_item_alloc (length key) (int nb) ?m1 = Some (Inr (r, m2))"
      "allocated fl bl K ?m1 (length key) (int nb) r fl' m2" "r \<noteq> 0"
    using do_item_alloc_spec [OF inv1 lk, of "length key" "int nb"] ok room sz by auto
  have key': "length key < 256" using key by simp
  have le: "57 + length key + nb \<le> alloc_size (length key) (int nb)" using sz by simp
  obtain n0 where n0: "heap m2 r = Some n0" "length key + nb + 6 \<le> length (it_data n0)"
    using new_item_pending [OF a(2,3) key', of "replicate nb NUL" 0 0 0] v(1) le by auto
  obtain t i where t: "clock_reads m2 \<le> i" "t = expiry e (clock m2 (clock_reads m2))"
     "fill_item r key f e (int nb) u m2 =
       Some (Inr ((), tick i (alloc_calls m2) (with_item r (filled n0 key f t (int nb) u) m2)))"
    using fill_item_run [OF n0(1) a(3), of key e f "int nb" u] n0(2) e by auto
  have sf: "slab_frame ?m1 m2" and sp: "spent fl fl'" using a(2) by (simp_all add: allocated_def)
  note fr = slab_frame_fields [OF sf]
  have made: "mc_inv fl' bl K (with_item r c m2) \<and> pending fl' bl (with_item r c m2) r c \<and>
      stored bl (with_item r c m2) = stored bl m \<and> world m (with_item r c m2)"
    if v': "length v = nb" "c = client_item n0 key (ucast f) t u v" for v c
  proof -
    have "2 \<le> length v" "57 + length key + length v \<le> alloc_size (length key) (int nb)" using v(1) le v'(1) by simp_all
    from new_item_pending [OF a(2,3) key' this, of "ucast f" t u] n0(1) v'(2)
    have c: "mc_inv fl' bl K (with_item r c m2)" "pending fl' bl (with_item r c m2) r c"
      "stored bl (with_item r c m2) = stored bl ?m1" by auto
    have "world ?m1 (with_item r c m2)" using world_slab [OF sf] by (simp add: world_def with_item_def)
    then have "world m (with_item r c m2)" by (simp add: world_def)
    with c show ?thesis by simp
  qed
  have fr': "last_cas_id m2 = last_cas_id m" "clock m2 = clock m" "clock_reads m2 = i0"
    using sf by (simp_all add: slab_frame_def)
  have it: "item_alloc (length key) (int nb) ?m1 = Some (Inr (r, m2))" using a(1) by (simp add: item_alloc_def)
  have due: "\<exists>j. clock_reads m \<le> j \<and> j \<le> i \<and> t = expiry e (clock m j)"
    using t(1,2) t0(1) fr'(2,3) by (intro exI [of _ "clock_reads m2"]) simp
  show ?thesis
    by (intro exI [of _ t0] exI [of _ i0] exI [of _ r] exI [of _ m2] exI [of _ t] exI [of _ i] exI [of _ n0]
        exI [of _ fl'] conjI t0(2) it a(3) t(3) n0(2) sp fr'(1,2) due)
      (use t0(1) t(1) fr'(3) made in simp_all)
qed

text \<open>The two writes that complete the item.\<close>

lemma value_writes:
  assumes "length key + length v + 6 \<le> length (it_data n)" and "r \<noteq> 0" and "length key < 256"
  shows "unat (it_nkey (filled n key f t (int (length v)) u)) = length key"
    and "wr_data r (length key) [CHR ''0''] (tick i j (with_item r (filled n key f t (int (length v)) u) m)) =
      Some (Inr ((), tick i j (with_item r ((filled n key f t (int (length v)) u)\<lparr>it_data :=
        blit (blit (it_data n) 0 key) (length key) [CHR ''0'']\<rparr>) m)))"
    and "wr_data r (length key + 1) v (tick i j (with_item r ((filled n key f t (int (length v)) u)\<lparr>it_data :=
        blit (blit (it_data n) 0 key) (length key) [CHR ''0'']\<rparr>) m)) =
      Some (Inr ((), tick i j (with_item r (client_item n key (ucast f) t u v) m)))"
proof -
  show "unat (it_nkey (filled n key f t (int (length v)) u)) = length key"
    using assms(3) by (simp add: filled_def unsigned_of_nat take_bit_nat_eq_self_iff)
  show "wr_data r (length key) [CHR ''0''] (tick i j (with_item r (filled n key f t (int (length v)) u) m)) =
      Some (Inr ((), tick i j (with_item r ((filled n key f t (int (length v)) u)\<lparr>it_data :=
        blit (blit (it_data n) 0 key) (length key) [CHR ''0'']\<rparr>) m)))"
    using assms by (simp add: wr_data_def upd_def rd_def prog_defs filled_def with_item_def tick_def)
  show "wr_data r (length key + 1) v (tick i j (with_item r ((filled n key f t (int (length v)) u)\<lparr>it_data :=
        blit (blit (it_data n) 0 key) (length key) [CHR ''0'']\<rparr>) m)) =
      Some (Inr ((), tick i j (with_item r (client_item n key (ucast f) t u v) m)))"
    using assms by (simp add: wr_data_def upd_def rd_def prog_defs filled_def with_item_def tick_def client_item_def)
qed

section \<open>The line of a storage command\<close>

text \<open>The connection that waits for a value.\<close>

definition awaiting :: "byte list \<Rightarrow> nread \<Rightarrow> addr \<Rightarrow> nat \<Rightarrow> byte list \<Rightarrow> bool \<Rightarrow> conn \<Rightarrow> conn" where
  "awaiting w cmd it nb buf pre c = (with_command w c)\<lparr>c_cmd := cmd, c_item := it, rnbuf_len := int nb, rnbuf := buf,
     rnbuf_now := 0, c_state := conn_nread, flag_precmd := pre\<rparr>"

text \<open>The sixth word, if there is one, is the version the client expects.\<close>

definition versioned :: "byte list list \<Rightarrow> u64 \<Rightarrow> bool" where
  "versioned vs u \<longleftrightarrow> vs = [] \<and> u = 0 \<or> (\<exists>us. vs = [us] \<and> safe_strtoull us = (True, u))"

definition given_time :: "32 word \<Rightarrow> int" where
  "given_time ew = (if sint ew < 0 then REALTIME_MAXDELTA - 1 else sint ew)"

text \<open>The expiry of an item made between two readings of the clock.\<close>

definition due :: "32 word \<Rightarrow> machine \<Rightarrow> nat \<Rightarrow> u32 \<Rightarrow> bool" where
  "due ew m i t \<longleftrightarrow> (\<exists>j. clock_reads m \<le> j \<and> j \<le> i \<and> t = expiry (given_time ew) (clock m j))"

lemma due_zero: "due ew m i t \<Longrightarrow> sint ew = 0 \<Longrightarrow> t = 0"
  by (auto simp: due_def given_time_def expiry_def)

lemma given_time_nonneg: "0 \<le> given_time ew"
  by (simp add: given_time_def REALTIME_MAXDELTA_def)

lemma store_words_run:
  assumes key: "length key \<le> 250"
    and nums: "safe_strtoul fs = (True, f)" "safe_strtol es = (True, ew)" "safe_strtol ns = (True, nw)"
    and nb: "sint nw + 2 = int nb" "2 \<le> nb" "nb < 2 ^ 20"
    and rt: "realtime (given_time ew) (mach s) = Some (Inr (t0, m1))"
    and al: "item_alloc (length key) (int nb) m1 = Some (Inr (r, m2))" "r \<noteq> 0"
    and fi: "fill_item r key f (given_time ew) (int nb) u m2 = Some (Inr ((), m3))"
    and ok: "alloc_ok m3 (alloc_calls m3)" and vs: "versioned vs u"
  shows "command_five_six_para (cmd # key # fs # es # ns # vs) (vs \<noteq> []) s = Some (Inr ((),
     s\<lparr>mach := m3\<lparr>alloc_calls := Suc (alloc_calls m3)\<rparr>, con := (con s)\<lparr>c_cmd := nread_of cmd, c_item := r,
       rnbuf_len := int nb, rnbuf := map (junk s (alloc_calls m3)) [0..<nb + 3], rnbuf_now := 0, c_state := conn_nread\<rparr>\<rparr>))"
proof -
  have ia: "int_add (sint nw) 2 m = Some (Inr (int nb, m))" for m
    using nb by (simp add: int_add_def ret_def)
  have lt: "\<not> (int nb < 0 \<or> int nb - 2 < 0)" using nb by simp
  have n3: "nat (int nb + 3) = nb + 3" by simp
  have "store_line key f (sint ew) (sint nw) u (s\<lparr>con := (con s)\<lparr>c_cmd := nread_of cmd\<rparr>\<rparr>) =
     Some (Inr ((), s\<lparr>mach := m3\<lparr>alloc_calls := Suc (alloc_calls m3)\<rparr>,
       con := (con s)\<lparr>c_cmd := nread_of cmd, c_item := r, rnbuf_len := int nb,
         rnbuf := map (junk s (alloc_calls m3)) [0..<nb + 3], rnbuf_now := 0, c_state := conn_nread\<rparr>\<rparr>))"
    using rt al fi ok lt n3
    by (simp add: store_line_def given_time_def [symmetric] Let_def bnd_def on_mach_def ia thn_def modc_run seqs.simps
      new_value_buf_def new_buf_def gets_def modify_def conn_state_set_def ret_def)
  then show ?thesis
    using key nums vs
    by (auto simp: versioned_def command_five_six_para_def thn_def bnd_def nread_stat_set_def modc_run KEY_MAX_LENGTH_def)
qed

lemma store_line_runs:
  assumes ts: "tokens w = cmd # key # fs # es # ns # vs" "length vs \<le> 1" and w: "plain_line w (con s)"
    and run: "command_five_six_para (cmd # key # fs # es # ns # vs) (vs \<noteq> []) (s\<lparr>inp := is, con := with_command w (con s)\<rparr>) =
      Some (Inr ((), s'))"
  shows "process_command (s\<lparr>inp := is, con := with_command w (con s)\<rparr>) = Some (Inr ((),
     s'\<lparr>con := (con s')\<lparr>flag_precmd := (vs = [] \<or> flag_precmd (con s'))\<rparr>\<rparr>))"
proof (cases "vs = []")
  case True
  then show ?thesis
    using process_line [OF w, of "s\<lparr>inp := is\<rparr>"] ts run
    by (simp add: thn_run [of "command_five_six_para ts False" for ts] modc_run)
next
  case False
  then have "length vs = 1" using ts(2) by (cases vs) simp_all
  then show ?thesis
    using process_line [OF w, of "s\<lparr>inp := is\<rparr>"] ts(1) run False by simp
qed

section \<open>The value\<close>

lemma drive_machine_go:
  "\<not> flag_stop (con s) \<Longrightarrow> drive_step s = Some (Inr ((), s1)) \<Longrightarrow> drive_machine s = drive_machine s1"
  using drive_loop_go [of s s1] by (simp add: drive_machine_def thn_def bnd_def)

text \<open>The connection when the value has been stored and the answer prepared.\<close>

definition stored_answer :: "string \<Rightarrow> u64 option \<Rightarrow> conn \<Rightarrow> conn" where
  "stored_answer msg cv c = answered msg (c\<lparr>c_cas := (case cv of None \<Rightarrow> c_cas c | Some u \<Rightarrow> u), rnbuf := [], rnbuf_rlen := 0\<rparr>)"

lemma clear_value_bufs_run:
  assumes "int (length (rnbuf (con s))) = rnbuf_len (con s) + 3" "0 \<le> rnbuf_len (con s)" "rnbuf_len (con s) < 2 ^ 30"
    and "length (rbuf (con s)) = nat (rbuf_len (con s))" "0 < rbuf_len (con s)" "rbuf_len (con s) < 2 ^ 27"
  shows "clear_value_bufs s = Some (Inr ((), s\<lparr>con := (con s)\<lparr>rbuf := replicate (nat (rbuf_len (con s))) NUL,
     rnbuf_rlen := 0, rbuf_rlen := 0, rnbuf := []\<rparr>\<rparr>))"
proof -
  have l: "length (rnbuf (con s)) = nat (rnbuf_len (con s) + 3)" using assms(1) by simp
  have z: "put_bytes (rnbuf (con s)) 0 (replicate (size_t (rnbuf_len (con s) + 3)) NUL) t =
      Some (Inr (replicate (nat (rnbuf_len (con s) + 3)) NUL, t))" for t
    using l assms(2,3) by (simp add: put_bytes_def ret_def blit_def)
  let ?s1 = "s\<lparr>con := (con s)\<lparr>rnbuf := replicate (nat (rnbuf_len (con s) + 3)) NUL\<rparr>\<rparr>"
  have "clear_rbuf ?s1 = Some (Inr ((), ?s1\<lparr>con := (con ?s1)\<lparr>rbuf := replicate (nat (rbuf_len (con s))) NUL\<rparr>\<rparr>))"
    using clear_rbuf_run [of ?s1] assms(4-6) by simp
  then show ?thesis
    by (simp add: clear_value_bufs_def seqs.simps thn_def bnd_def getc_run z modc_run ret_def)
qed

lemma store_value_run:
  assumes cn: "int (length (rnbuf (con s))) = rnbuf_len (con s) + 3" "rnbuf_len (con s) = int (length v)" "length v < 2 ^ 30"
      "take (length v) (rnbuf (con s)) = v"
      "length (rbuf (con s)) = nat (rbuf_len (con s))" "0 < rbuf_len (con s)" "rbuf_len (con s) < 2 ^ 27" "out_idle (con s)"
    and d: "heap (mach s) (c_item (con s)) = Some d" "c_item (con s) \<noteq> 0"
    and wr: "wr_data (c_item (con s)) (unat (it_nkey d)) [CHR ''0''] (mach s) = Some (Inr ((), m1))"
      "wr_data (c_item (con s)) (unat (it_nkey d) + 1) v m1 = Some (Inr ((), m2))"
    and st: "store_item (c_cmd (con s)) (c_item (con s)) m2 = Some (Inr ((st, cv), m3))"
  shows "thn (store_value failure) watch_write s = Some (Inr ((), s\<lparr>mach := m3,
     con := stored_answer (if st = STORED then ''STORED'' else failure) cv (con s)\<rparr>))"
proof -
  let ?msg = "if st = STORED then ''STORED'' else failure"
  let ?c1 = "(con s)\<lparr>c_cas := (case cv of None \<Rightarrow> c_cas (con s) | Some u \<Rightarrow> u)\<rparr>"
  let ?s1 = "s\<lparr>mach := m3, con := ?c1\<rparr>"
  let ?c2 = "?c1\<lparr>rbuf := replicate (nat (rbuf_len (con s))) NUL, rnbuf_rlen := 0, rbuf_rlen := 0, rnbuf := []\<rparr>"
  have tk: "take_bytes (rnbuf (con s)) 0 (rnbuf_len (con s)) t = Some (Inr (v, t))" for t
    using cn by (simp add: take_bytes_def ret_def)
  have cl: "clear_value_bufs ?s1 = Some (Inr ((), ?s1\<lparr>con := ?c2\<rparr>))"
    using clear_value_bufs_run [of ?s1] cn by simp
  have idle: "out_idle (con (?s1\<lparr>con := ?c2\<rparr>))" using cn(8) by (simp add: out_idle_def)
  let ?c3 = "?c2\<lparr>noreply := False, c_state := conn_write, wbuf := blit (wbuf ?c2) 0 (answer ?msg @ crlf),
     wbuf_len := int (length (answer ?msg)) + 2, wbuf_now := 0\<rparr>"
  have os: "out_string ?msg (?s1\<lparr>con := ?c2\<rparr>) = Some (Inr ((), ?s1\<lparr>con := ?c3\<rparr>))"
    using out_string_run [OF idle, of ?msg] by simp
  have sp: "seqs [modc (\<lambda>c. c\<lparr>c_cas := (case cv of None \<Rightarrow> c_cas c | Some u \<Rightarrow> u)\<rparr>), clear_value_bufs, out_string ?msg]
      (s\<lparr>mach := m3\<rparr>) = Some (Inr ((), ?s1\<lparr>con := ?c3\<rparr>))"
  proof -
    have c: "modc (\<lambda>c. c\<lparr>c_cas := (case cv of None \<Rightarrow> c_cas c | Some u \<Rightarrow> u)\<rparr>) (s\<lparr>mach := m3\<rparr>) = Some (Inr ((), ?s1))"
      by (cases cv) (simp_all add: modc_run)
    show ?thesis
      by (simp only: seqs_run [of "modc (\<lambda>c. c\<lparr>c_cas := (case cv of None \<Rightarrow> c_cas c | Some u \<Rightarrow> u)\<rparr>)" "s\<lparr>mach := m3\<rparr>", OF c] seqs_run [of clear_value_bufs, OF cl]
        seqs_run [of "out_string ?msg", OF os] seqs_done)
  qed
  have ws: "seqs [on_mach (wr_data (c_item (con s)) (unat (it_nkey d)) [CHR ''0'']),
       bnd (take_bytes (rnbuf (con s)) 0 (rnbuf_len (con s))) (\<lambda>bs.
         on_mach (wr_data (c_item (con s)) (unat (it_nkey d) + 1) bs))] s = Some (Inr ((), s\<lparr>mach := m2\<rparr>))"
    using wr tk by (simp add: seqs.simps thn_def bnd_def on_mach_def ret_def)
  have si: "on_mach (store_item (c_cmd (con s)) (c_item (con s))) (s\<lparr>mach := m2\<rparr>) = Some (Inr ((st, cv), s\<lparr>mach := m3\<rparr>))"
    using st by (simp add: on_mach_def)
  have rd1: "on_mach (rd (c_item (con s))) s = Some (Inr (d, s))"
    using d by (simp add: on_mach_def rd_def)
  have sv: "store_value failure s = Some (Inr ((), ?s1\<lparr>con := ?c3\<rparr>))"
    unfolding store_value_def thn_def bnd_def getc_run id_apply
    by (simp only: option.simps bind.simps Option.bind.bind_lunit sum.case prod.case rd1 ws [unfolded bnd_def] si sp)
  have "thn (store_value failure) watch_write s = Some (Inr ((), ?s1\<lparr>con := ?c3\<lparr>read_watched := False, write_watched := True\<rparr>\<rparr>))"
    by (simp only: thn_run [of "store_value failure" s, OF sv]) (simp add: watch_write_def modc_run)
  moreover have "?c3\<lparr>read_watched := False, write_watched := True\<rparr> = stored_answer ?msg cv (con s)"
    unfolding stored_answer_def answered_def by (intro conn.equality) simp_all
  ultimately show ?thesis by simp
qed

text \<open>The parts in which a value arrives are all read to the start of the buffer.\<close>

definition overlay :: "byte list \<Rightarrow> byte list list \<Rightarrow> byte list" where
  "overlay buf ps = foldl (\<lambda>b p. blit b 0 p) buf ps"

lemma overlay_one: "length v \<le> length b \<Longrightarrow> overlay b [v] = v @ drop (length v) b"
  by (simp add: overlay_def blit_def)

lemma parts_read:
  assumes "c_state (con s) = conn_nread" "\<not> flag_stop (con s)" "\<not> flag_shake (con s)"
    and "int (length (rnbuf (con s))) = rnbuf_len (con s) + 3" "0 \<le> rnbuf_rlen (con s)" "rnbuf_len (con s) < 2 ^ 30"
    and "inp s = map RdData (ps @ [p]) @ is" "[] \<notin> set (ps @ [p])"
    and "rnbuf_rlen (con s) + int (sum_list (map length (ps @ [p]))) = rnbuf_len (con s)"
  shows "drive_machine s = drive_machine (s\<lparr>inp := RdData p # is, con := (con s)\<lparr>rnbuf := overlay (rnbuf (con s)) ps,
     rnbuf_rlen := rnbuf_len (con s) - int (length p)\<rparr>\<rparr>)"
  using assms
proof (induction ps arbitrary: s)
  case Nil
  then have "s\<lparr>inp := RdData p # is, con := (con s)\<lparr>rnbuf := overlay (rnbuf (con s)) [],
     rnbuf_rlen := rnbuf_len (con s) - int (length p)\<rparr>\<rparr> = s"
    by (intro net.equality conn.equality) (simp_all add: overlay_def)
  then show ?case by simp
next
  case (Cons q ps)
  let ?c1 = "(con s)\<lparr>rnbuf := blit (rnbuf (con s)) 0 q, rnbuf_rlen := rnbuf_rlen (con s) + int (length q)\<rparr>"
  let ?s1 = "s\<lparr>inp := map RdData (ps @ [p]) @ is, con := ?c1\<rparr>"
  define k where "k = rnbuf_len (con s) - rnbuf_rlen (con s)"
  have q: "q \<noteq> []" "p \<noteq> []" using Cons.prems(8) by auto
  have "int (sum_list (map length ((q # ps) @ [p]))) = int (length q) + int (sum_list (map length ps)) + int (length p)" by simp
  moreover have "0 < int (length p)" using q(2) by simp
  ultimately have k1: "int (length q) < k" using Cons.prems(9) unfolding k_def by linarith
  have k: "int (length q) < k" "k < 2 ^ 30" "nat k + nat (rnbuf_rlen (con s)) = length (rnbuf (con s)) - 3"
    using Cons.prems(4-6) k1 by (simp_all add: k_def)
  have lq: "length q \<le> length (rnbuf (con s))" "rnbuf (con s) \<noteq> []" using k Cons.prems(4,5) k_def by auto
  have sz: "size_t k = nat k" using k by simp
  have rd: "sock_read (nat k) s = Some (Inr (Got q, s\<lparr>inp := map RdData (ps @ [p]) @ is\<rparr>))"
    using k q(1) Cons.prems(7) by (simp add: sock_read_def prog_defs)
  have ne: "rnbuf_len (con s) \<noteq> rnbuf_rlen (con s) + int (length q)" using k(1) by (simp add: k_def)
  have "read_value_stored s = Some (Inr ((), ?s1))"
    using Cons.prems(3) lq rd ne sz unfolding k_def
    by (simp add: read_value_stored_def bnd_def getc_run put_bytes_def ret_def thn_def modc_run finish_if_complete_def whenP_def)
  then have "drive_step s = Some (Inr ((), ?s1))" using Cons.prems(1) by (simp add: drive_step_state)
  then have 1: "drive_machine s = drive_machine ?s1" by (rule drive_machine_go [OF Cons.prems(2)])
  have "drive_machine ?s1 = drive_machine (?s1\<lparr>inp := RdData p # is, con := (con ?s1)\<lparr>rnbuf := overlay (rnbuf (con ?s1)) ps,
     rnbuf_rlen := rnbuf_len (con ?s1) - int (length p)\<rparr>\<rparr>)"
    by (rule Cons.IH) (use Cons.prems lq in simp_all)
  with 1 show ?case by (simp add: overlay_def)
qed

lemma value_event:
  assumes cn: "c_state (con s) = conn_nread" "\<not> flag_stop (con s)" "\<not> flag_shake (con s)"
      "int (length (rnbuf (con s))) = rnbuf_len (con s) + 3" "rnbuf_len (con s) = int (length v)"
      "rnbuf_rlen (con s) = int (length v) - int (length p)"
      "length (rbuf (con s)) = nat (rbuf_len (con s))" "0 < rbuf_len (con s)" "rbuf_len (con s) < 2 ^ 27"
      "out_idle (con s)" "length (wbuf (con s)) = 2048"
    and v: "p \<noteq> []" "length p \<le> length v" "length v < 2 ^ 30" "take (length v) (blit (rnbuf (con s)) 0 p) = v"
    and i: "inp s = RdData p # is" and o: "outp s = []"
    and cmd: "c_cmd (con s) \<noteq> NREAD_ERROR"
    and d: "heap (mach s) (c_item (con s)) = Some d" "c_item (con s) \<noteq> 0"
    and wr: "wr_data (c_item (con s)) (unat (it_nkey d)) [CHR ''0''] (mach s) = Some (Inr ((), m1))"
      "wr_data (c_item (con s)) (unat (it_nkey d) + 1) v m1 = Some (Inr ((), m2))"
    and st: "store_item (c_cmd (con s)) (c_item (con s)) m2 = Some (Inr ((st, cv), m3))"
  shows "\<exists>s'. drive_machine s = Some (Inr ((), s')) \<and> at_rest (con s') \<and> rbuf_len (con s') = rbuf_len (con s) \<and> mach s' = m3 \<and> inp s' = is \<and> outp s' = [] \<and>
     sent s' = sent s @ (if st = STORED then ''STORED'' else if c_cmd (con s) = NREAD_CAS then ''EXISTS'' else ''NOT_STORED'') @ crlf"
proof -
  let ?msg = "if st = STORED then ''STORED'' else if c_cmd (con s) = NREAD_CAS then ''EXISTS'' else ''NOT_STORED''"
  let ?c1 = "(con s)\<lparr>rnbuf := blit (rnbuf (con s)) 0 p, rnbuf_rlen := int (length v)\<rparr>"
  let ?s1 = "s\<lparr>inp := is, con := ?c1\<rparr>"
  have ln: "length (rnbuf (con s)) = length v + 3" using cn(4,5) by simp
  have b: "length (blit (rnbuf (con s)) 0 p) = length v + 3" using ln v(2) by simp
  have ne: "rnbuf (con s) \<noteq> []" using ln by auto
  have rd: "sock_read (length p) s = Some (Inr (Got p, s\<lparr>inp := is\<rparr>))"
    using v(1) i by (simp add: sock_read_def prog_defs)
  have r1: "read_value_stored s = finish_value ?s1"
    using cn ne rd ln v(1-3) by (simp add: read_value_stored_def bnd_def getc_run put_bytes_def ret_def thn_def modc_run
        finish_if_complete_def whenP_def)
  have fv: "finish_value ?s1 = thn (store_value (if c_cmd (con s) = NREAD_CAS then ''EXISTS'' else ''NOT_STORED'')) watch_write ?s1"
    using cmd by (cases "c_cmd (con s)") (simp_all add: finish_value_def seqs.simps thn_def bnd_def getc_run ret_def bind_unit)
  have sv: "finish_value ?s1 = Some (Inr ((), ?s1\<lparr>mach := m3, con := stored_answer ?msg cv ?c1\<rparr>))"
    using store_value_run [of ?s1 v d m1 m2 st cv m3 "if c_cmd (con s) = NREAD_CAS then ''EXISTS'' else ''NOT_STORED''"]
      fv b v(4) cn v(3) d wr st by (auto simp: out_idle_def)
  let ?c2 = "stored_answer ?msg cv ?c1"
  let ?s2 = "?s1\<lparr>mach := m3, con := ?c2\<rparr>"
  have 1: "drive_machine s = drive_machine ?s2"
    by (rule drive_machine_go [OF cn(2)]) (simp add: drive_step_state cn(1) r1 sv)
  have len: "length (answer ?msg) + 2 \<le> 2048" "wbuf_wlen (con s) = 0"
    using answer_short [of ?msg] cn(10) by (simp_all add: out_idle_def WRITEBUF_LEN_def)
  have ok: "out_ok ?c2" using len cn(11) by (simp add: stored_answer_def answered_def out_ok_def WRITEBUF_LEN_def)
  have ts: "to_send ?c2 = answer ?msg @ crlf" using len cn(11) by (simp add: stored_answer_def answered_def to_send_def blit_def)
  have st2: "c_state ?c2 = conn_write" "\<not> flag_stop ?c2" using cn(2) by (simp_all add: stored_answer_def answered_def)
  let ?s3 = "?s2\<lparr>con := ?c2\<lparr>wbuf_len := WRITEBUF_LEN,
     wbuf := blit (wbuf ?c2) 0 (replicate (nat WRITEBUF_LEN) NUL), wbuf_wlen := 0, wbuf_now := 0,
     write_watched := False, read_watched := True, c_state := conn_read, flag_stop := False\<rparr>,
     sent := sent s @ answer ?msg @ crlf\<rparr>"
  have 2: "drive_machine ?s2 = Some (Inr ((), ?s3))"
    using flush_event [of ?s2] st2 ok ts o by (simp add: crlf_def)
  have "at_rest (con ?s3)"
    using cn len by (simp add: at_rest_def stored_answer_def answered_def out_idle_def WRITEBUF_LEN_def)
  moreover have "rbuf_len (con ?s3) = rbuf_len (con s)" by (simp add: stored_answer_def answered_def)
  moreover have "answer ?msg = ?msg" by (simp add: answer_def WRITEBUF_LEN_def)
  ultimately show ?thesis using 1 2 o by (intro exI [of _ ?s3]) simp
qed

section \<open>A storage command and its value\<close>

text \<open>The two events of a storage command that is in order, whose value arrives in
  parts: the item is allocated and filled as the client asked, the parts are read over one another,
  and whatever \<open>store_item\<close> then does with the item decides the answer.\<close>

lemma storage_events_any:
  assumes rest: "ready w (con s)" and i: "inp s = RdData (w @ [LF]) # map RdData (ps @ [p]) @ is" and o: "outp s = []"
    and w: "plain_line w (con s)" and ts: "tokens w = cmd # key # fs # es # ns # vs" and vs: "versioned vs u" and cmd: "nread_of cmd \<noteq> NREAD_ERROR"
    and key: "length key \<le> 250"
    and nums: "safe_strtoul fs = (True, f)" "safe_strtol es = (True, ew)" "safe_strtol ns = (True, nw)"
    and nb: "sint nw + 2 = int nb" "2 \<le> nb" "nb < 2 ^ 20"
    and ps: "sum_list (map length (ps @ [p])) = nb" "[] \<notin> set (ps @ [p])"
    and inv: "mc_inv fl bl K (mach s)" and ul: "unlocked (mach s)" and ok: "\<forall>i. alloc_ok (mach s) i"
    and room: "room fl (mach s) (57 + length key + nb)"
  shows "\<exists>r c fl' m t i b. mc_inv fl' bl K m \<and> spent fl fl' \<and> pending fl' bl m r c \<and> unlocked m \<and> world (mach s) m \<and>
     stored bl m = stored bl (mach s) \<and> live bl m = live bl ((mach s)\<lparr>clock_reads := i\<rparr>) \<and>
     clock_reads (mach s) \<le> i \<and> last_cas_id m = last_cas_id (mach s) \<and>
     length b = nb + 3 \<and> key_of c = key \<and> value_of c = take nb (overlay b (ps @ [p])) \<and>
     it_flag c = ucast f \<and> it_exptime c = t \<and> it_cas c = u \<and> due ew (mach s) i t \<and>
     (\<forall>st cv m3. store_item (nread_of cmd) r m = Some (Inr ((st, cv), m3)) \<longrightarrow>
       (\<exists>s'. thn drive_machine drive_machine s = Some (Inr ((), s')) \<and> at_rest (con s') \<and> rbuf_len (con s') = rbuf_len (con s) \<and> mach s' = m3 \<and>
         inp s' = is \<and> outp s' = [] \<and> sent s' = sent s @
           (if st = STORED then ''STORED'' else if nread_of cmd = NREAD_CAS then ''EXISTS'' else ''NOT_STORED'') @ crlf))"
proof -
  note rs = ready_simps [OF rest]
  let ?e = "given_time ew"
  obtain t0 i0 r m2 t i n fl' where st: "realtime ?e (mach s) = Some (Inr (t0, tick i0 (alloc_calls (mach s)) (mach s)))"
     "item_alloc (length key) (int nb) (tick i0 (alloc_calls (mach s)) (mach s)) = Some (Inr (r, m2))" "r \<noteq> 0"
     "fill_item r key f ?e (int nb) u m2 =
       Some (Inr ((), tick i (alloc_calls m2) (with_item r (filled n key f t (int nb) u) m2)))"
     "length key + nb + 6 \<le> length (it_data n)"
     "\<And>v c. length v = nb \<Longrightarrow> c = client_item n key (ucast f) t u v \<Longrightarrow> mc_inv fl' bl K (with_item r c m2) \<and>
       pending fl' bl (with_item r c m2) r c \<and> stored bl (with_item r c m2) = stored bl (mach s) \<and> world (mach s) (with_item r c m2)"
     "last_cas_id m2 = last_cas_id (mach s)" "clock m2 = clock (mach s)" "clock_reads (mach s) \<le> i" "\<exists>j. clock_reads (mach s) \<le> j \<and> j \<le> i \<and> t = expiry ?e (clock (mach s) j)" "spent fl fl'"
    using client_store [OF inv ul ok room key nb(2,3) given_time_nonneg [of ew], of f u] by blast
  define b where "b = map (junk s (alloc_calls m2)) [0..<nb + 3]"
  define v where "v = take nb (overlay b (ps @ [p]))"
  define c where "c = client_item n key (ucast f) t u v"
  have lb: "length b = nb + 3" by (simp add: b_def)
  have lp: "length p \<le> nb" "p \<noteq> []" using ps by auto
  have lq: "length q \<le> nb" if "q \<in> set ps" for q
    using member_le_sum_list [of "length q" "map length (ps @ [p])"] that ps(1) by simp
  have lq3: "length q \<le> nb + 3" if "q \<in> set ps" for q using lq [OF that] by simp
  have lo: "length (overlay b qs) = nb + 3" if "set qs \<subseteq> set ps" for qs
    using that by (induction qs rule: rev_induct) (use lb lq3 in \<open>auto simp: overlay_def\<close>)
  have ov: "overlay b (ps @ [p]) = blit (overlay b ps) 0 p" by (simp add: overlay_def)
  have lv: "length v = nb" using lo [of ps] lp(1) by (simp add: v_def ov)
  note made = st(6) [OF lv c_def]
  let ?F = "filled n key f t (int nb) u"
  let ?m3 = "tick i (alloc_calls m2) (with_item r ?F m2)"
  let ?m4 = "tick i (Suc (alloc_calls m2)) (with_item r ?F m2)"
  let ?M = "tick i (Suc (alloc_calls m2)) (with_item r c m2)"
  have ok3: "alloc_ok ?m3 (alloc_calls ?m3)" using made ok by (simp add: world_def with_item_def)
  have m4: "?m3\<lparr>alloc_calls := Suc (alloc_calls ?m3)\<rparr> = ?m4" by (simp add: tick_def)
  have v1: "length vs \<le> 1" using vs by (auto simp: versioned_def)
  let ?c1 = "awaiting w (nread_of cmd) r nb b (vs = [] \<or> flag_precmd (con s)) (con s)"
  let ?is = "map RdData (ps @ [p]) @ is"
  let ?s0 = "s\<lparr>inp := ?is, con := with_command w (con s)\<rparr>"
  have mch: "mach ?s0 = mach s" "junk ?s0 = junk s" by simp_all
  have fp: "flag_precmd (with_command w (con s)) = flag_precmd (con s)" by (simp add: with_command_def)
  have p: "process_command ?s0 = Some (Inr ((), s\<lparr>inp := ?is, mach := ?m4, con := ?c1\<rparr>))"
    using store_line_runs [OF ts v1 w store_words_run [OF key nums nb, where s = ?s0, unfolded mch, OF st(1-4) ok3 vs]] m4 fp
    by (simp add: awaiting_def b_def)
  have fl1: "\<not> flag_shake ?c1" "c_state ?c1 = conn_nread" "rbuf_rlen ?c1 = int (Suc (length w))" "rbuf_now ?c1 = Suc (length w)"
    by (simp_all add: awaiting_def)
  let ?c2 = "?c1\<lparr>rbuf_rlen := int (Suc (length w)), rbuf_now := Suc (length w), flag_stop := False\<rparr>"
  let ?s1 = "s\<lparr>inp := ?is, mach := ?m4, con := ?c2\<rparr>"
  have e1: "drive_machine s = Some (Inr ((), ?s1))"
    using command_event [OF rest w i p] fl1 by simp
  let ?s2 = "?s1\<lparr>inp := RdData p # is, con := ?c2\<lparr>rnbuf := overlay b ps, rnbuf_rlen := int nb - int (length p)\<rparr>\<rparr>"
  have e2: "drive_machine ?s1 = drive_machine ?s2"
    using parts_read [of ?s1 ps p "is"] fl1 lb nb ps rs by (simp add: awaiting_def)
  have ck: "length key < 256" "length key + 1 + length v \<le> length (it_data n)" using key st(5) lv by simp_all
  have v2: "2 \<le> length v" using nb(2) lv by simp
  note cp = client_item_props [OF ck(1) v2 ck(2), of "ucast f" t u, folded c_def]
  have st5: "length key + length v + 6 \<le> length (it_data n)" using st(5) lv by simp
  note vw = value_writes(1) [OF st5 st(3) ck(1), of f t u] value_writes(2) [OF st5 st(3) ck(1), of i "Suc (alloc_calls m2)" f t u m2]
    value_writes(3) [OF st5 st(3) ck(1), of i "Suc (alloc_calls m2)" f t u m2, folded c_def]
  have "\<exists>s'. drive_machine ?s1 = Some (Inr ((), s')) \<and> at_rest (con s') \<and> rbuf_len (con s') = rbuf_len (con s) \<and> mach s' = m3 \<and> inp s' = is \<and> outp s' = [] \<and>
       sent s' = sent s @ (if x = STORED then ''STORED'' else if nread_of cmd = NREAD_CAS then ''EXISTS'' else ''NOT_STORED'') @ crlf"
    if x: "store_item (nread_of cmd) r ?M = Some (Inr ((x, cv), m3))" for x cv m3
  proof -
    have h: "heap (mach ?s2) (c_item (con ?s2)) = Some ?F"
      by (simp add: awaiting_def with_item_def)
    have k: "unat (it_nkey ?F) = length key" using vw(1) lv by simp
    note ev = value_event [of ?s2 v p "is" ?F _ ?M x cv m3, OF _ _ _ _ _ _ _ _ _ _ _ _ _ _ _ _ _ _ h]
    have cc: "c_cmd (con ?s2) = nread_of cmd" by (simp add: awaiting_def)
    have oi: "out_idle (con ?s2)" using rs(3) by (simp add: awaiting_def out_idle_def with_command_def)
    have ss: "sent ?s2 = sent s" "rbuf_len (con ?s2) = rbuf_len (con s)" by (simp_all add: awaiting_def)
    have tk: "take nb (blit (overlay b ps) 0 p) = v" by (simp add: v_def ov)
    show ?thesis
      unfolding e2
      by (rule ev [unfolded cc ss, of "tick i (Suc (alloc_calls m2)) (with_item r (?F\<lparr>it_data :=
        blit (blit (it_data n) 0 key) (length key) [CHR ''0'']\<rparr>) m2)"])
        (use rs nb lv lp lo [of ps] tk o cmd st(3) vw x k length_with_command [OF rest w] oi in \<open>simp_all add: awaiting_def\<close>)
  qed
  then have ev: "\<forall>x cv m3. store_item (nread_of cmd) r ?M = Some (Inr ((x, cv), m3)) \<longrightarrow>
       (\<exists>s'. thn drive_machine drive_machine s = Some (Inr ((), s')) \<and> at_rest (con s') \<and> rbuf_len (con s') = rbuf_len (con s) \<and> mach s' = m3 \<and> inp s' = is \<and> outp s' = [] \<and>
       sent s' = sent s @ (if x = STORED then ''STORED'' else if nread_of cmd = NREAD_CAS then ''EXISTS'' else ''NOT_STORED'') @ crlf)"
    unfolding thn_run [of drive_machine s, OF e1] by blast
  have lv': "live bl ?M = live bl ((mach s)\<lparr>clock_reads := i\<rparr>)"
  proof -
    have "stored bl ((mach s)\<lparr>clock_reads := i\<rparr>) = stored bl (mach s)"
      using tick_views(3) [of bl i "alloc_calls (mach s)" "mach s"] by (simp add: tick_def)
    moreover have "stored bl ?M = stored bl (mach s)" using made by simp
    moreover have "clock ?M (clock_reads ?M) = clock (mach s) i" using st(8) by (simp add: with_item_def)
    moreover have "clock ((mach s)\<lparr>clock_reads := i\<rparr>) (clock_reads ((mach s)\<lparr>clock_reads := i\<rparr>)) = clock (mach s) i" by simp
    ultimately show ?thesis by (intro ext) (simp only: live_def)
  qed
  have t: "due ew (mach s) i t" using st(10) by (simp add: due_def)
  have wM: "world (mach s) ?M" using made by simp
  have ulM: "unlocked ?M" using unlocked_world [OF wM] ul by simp
  have cM: "last_cas_id ?M = last_cas_id (mach s)" using st(7) by (simp add: with_item_def)
  have iM: "mc_inv fl' bl K ?M" "pending fl' bl ?M r c" "stored bl ?M = stored bl (mach s)" using made by simp_all
  note sp = st(11)
  show ?thesis
    by (intro exI [of _ r] exI [of _ c] exI [of _ fl'] exI [of _ ?M] exI [of _ t] exI [of _ i] exI [of _ b] conjI iM sp ulM wM lv' st(9) cM
        cp(2-6) lb t ev) (simp add: cp(3) v_def [symmetric])
qed

lemma storage_events:
  assumes rest: "ready w (con s)" and i: "inp s = RdData (w @ [LF]) # map RdData (ps @ [p]) @ is" and o: "outp s = []"
    and w: "plain_line w (con s)" and ts: "tokens w = [cmd, key, fs, es, ns]" and cmd: "nread_of cmd \<noteq> NREAD_ERROR"
    and key: "length key \<le> 250"
    and nums: "safe_strtoul fs = (True, f)" "safe_strtol es = (True, ew)" "safe_strtol ns = (True, nw)"
    and nb: "sint nw + 2 = int nb" "2 \<le> nb" "nb < 2 ^ 20"
    and ps: "sum_list (map length (ps @ [p])) = nb" "[] \<notin> set (ps @ [p])"
    and inv: "mc_inv fl bl K (mach s)" and ul: "unlocked (mach s)" and ok: "\<forall>i. alloc_ok (mach s) i"
    and room: "room fl (mach s) (57 + length key + nb)"
  shows "\<exists>r c fl' m t i b. mc_inv fl' bl K m \<and> spent fl fl' \<and> pending fl' bl m r c \<and> unlocked m \<and> world (mach s) m \<and>
     stored bl m = stored bl (mach s) \<and> live bl m = live bl ((mach s)\<lparr>clock_reads := i\<rparr>) \<and>
     clock_reads (mach s) \<le> i \<and> last_cas_id m = last_cas_id (mach s) \<and>
     length b = nb + 3 \<and> key_of c = key \<and> value_of c = take nb (overlay b (ps @ [p])) \<and>
     it_flag c = ucast f \<and> it_exptime c = t \<and> it_cas c = 0 \<and> due ew (mach s) i t \<and>
     (\<forall>st cv m3. store_item (nread_of cmd) r m = Some (Inr ((st, cv), m3)) \<longrightarrow>
       (\<exists>s'. thn drive_machine drive_machine s = Some (Inr ((), s')) \<and> at_rest (con s') \<and> rbuf_len (con s') = rbuf_len (con s) \<and> mach s' = m3 \<and>
         inp s' = is \<and> outp s' = [] \<and> sent s' = sent s @
           (if st = STORED then ''STORED'' else if nread_of cmd = NREAD_CAS then ''EXISTS'' else ''NOT_STORED'') @ crlf))"
  using storage_events_any [OF rest i o w ts _ cmd key nums nb ps inv ul ok room, of 0] by (simp add: versioned_def)

text \<open>A value that arrives in one part.\<close>

lemma storage_events_one:
  assumes "ready w (con s)" and i: "inp s = RdData (w @ [LF]) # RdData v # is" and "outp s = []"
    and "plain_line w (con s)" and "tokens w = cmd # key # fs # es # ns # vs" and vs: "versioned vs u" and "nread_of cmd \<noteq> NREAD_ERROR"
    and "length key \<le> 250"
    and "safe_strtoul fs = (True, f)" "safe_strtol es = (True, ew)" "safe_strtol ns = (True, nw)"
    and v: "sint nw + 2 = int (length v)" "2 \<le> length v" "length v < 2 ^ 20"
    and "mc_inv fl bl K (mach s)" and "unlocked (mach s)" and "\<forall>i. alloc_ok (mach s) i"
    and "room fl (mach s) (57 + length key + length v)"
  shows "\<exists>r c fl' m t i. mc_inv fl' bl K m \<and> spent fl fl' \<and> pending fl' bl m r c \<and> unlocked m \<and> world (mach s) m \<and>
     stored bl m = stored bl (mach s) \<and> live bl m = live bl ((mach s)\<lparr>clock_reads := i\<rparr>) \<and>
     clock_reads (mach s) \<le> i \<and> last_cas_id m = last_cas_id (mach s) \<and>
     key_of c = key \<and> value_of c = v \<and> it_flag c = ucast f \<and> it_exptime c = t \<and> it_cas c = u \<and>
     due ew (mach s) i t \<and>
     (\<forall>st cv m3. store_item (nread_of cmd) r m = Some (Inr ((st, cv), m3)) \<longrightarrow>
       (\<exists>s'. thn drive_machine drive_machine s = Some (Inr ((), s')) \<and> at_rest (con s') \<and> rbuf_len (con s') = rbuf_len (con s) \<and> mach s' = m3 \<and>
         inp s' = is \<and> outp s' = [] \<and> sent s' = sent s @
           (if st = STORED then ''STORED'' else if nread_of cmd = NREAD_CAS then ''EXISTS'' else ''NOT_STORED'') @ crlf))"
proof -
  have i': "inp s = RdData (w @ [LF]) # map RdData ([] @ [v]) @ is" using i by simp
  have ps: "sum_list (map length ([] @ [v])) = length v" "[] \<notin> set ([] @ [v])" using v(2) by auto
  have one: "take (length v) (overlay b ([] @ [v])) = v" if "length b = length v + 3" for b
    using that overlay_one [of v b] by simp
  show ?thesis
    using storage_events_any [OF assms(1) i' assms(3-11) v ps assms(15-18)] by (metis one)
qed

lemma storage_events_whole:
  assumes "ready w (con s)" and i: "inp s = RdData (w @ [LF]) # RdData v # is" and "outp s = []"
    and "plain_line w (con s)" and "tokens w = [cmd, key, fs, es, ns]" and "nread_of cmd \<noteq> NREAD_ERROR"
    and "length key \<le> 250"
    and "safe_strtoul fs = (True, f)" "safe_strtol es = (True, ew)" "safe_strtol ns = (True, nw)"
    and v: "sint nw + 2 = int (length v)" "2 \<le> length v" "length v < 2 ^ 20"
    and "mc_inv fl bl K (mach s)" and "unlocked (mach s)" and "\<forall>i. alloc_ok (mach s) i"
    and "room fl (mach s) (57 + length key + length v)"
  shows "\<exists>r c fl' m t i. mc_inv fl' bl K m \<and> spent fl fl' \<and> pending fl' bl m r c \<and> unlocked m \<and> world (mach s) m \<and>
     stored bl m = stored bl (mach s) \<and> live bl m = live bl ((mach s)\<lparr>clock_reads := i\<rparr>) \<and>
     clock_reads (mach s) \<le> i \<and> last_cas_id m = last_cas_id (mach s) \<and>
     key_of c = key \<and> value_of c = v \<and> it_flag c = ucast f \<and> it_exptime c = t \<and> it_cas c = 0 \<and>
     due ew (mach s) i t \<and>
     (\<forall>st cv m3. store_item (nread_of cmd) r m = Some (Inr ((st, cv), m3)) \<longrightarrow>
       (\<exists>s'. thn drive_machine drive_machine s = Some (Inr ((), s')) \<and> at_rest (con s') \<and> rbuf_len (con s') = rbuf_len (con s) \<and> mach s' = m3 \<and>
         inp s' = is \<and> outp s' = [] \<and> sent s' = sent s @
           (if st = STORED then ''STORED'' else if nread_of cmd = NREAD_CAS then ''EXISTS'' else ''NOT_STORED'') @ crlf))"
  using storage_events_one [OF assms(1) i assms(3-5) _ assms(6-10) v assms(14-17), of 0] by (simp add: versioned_def)

section \<open>Properties\<close>

text \<open>Whether the abstract set, add or replace stores, and what it then binds.\<close>

definition applies :: "string \<Rightarrow> 'a option \<Rightarrow> bool" where
  "applies cmd old \<longleftrightarrow> cmd = ''set'' \<or> cmd = ''add'' \<and> old = None \<or> cmd = ''replace'' \<and> old \<noteq> None"

definition flags_lost :: "u32 \<Rightarrow> bool" where
  "flags_lost f \<longleftrightarrow> (ucast f :: u8) AND (ITEM_LINKED OR ITEM_SLABBED) \<noteq> 0"

lemma store_spec_client:
  assumes "cmd \<in> {''set'', ''add'', ''replace''}" and "key_of c = key" "value_of c = v" "it_flag c = ucast f" "it_exptime c = t"
  shows "store_spec (nread_of cmd) old c ok u = (if applies cmd old
     then (STORED, if flags_lost f then None else Some (v, t, u)) else (NOT_STORED, old))"
  using assms by (auto simp: store_spec_def nread_of_def applies_def flags_lost_def put_binding_def linkable_def split: option.splits)

lemma storage_served:
  assumes "ready w (con s)" and "inp s = RdData (w @ [LF]) # RdData v # is" and "outp s = []"
    and "plain_line w (con s)" and "tokens w = [cmd, key, fs, es, ns]" and "cmd \<in> {''set'', ''add'', ''replace''}"
    and "length key \<le> 250"
    and "safe_strtoul fs = (True, f)" and "safe_strtol es = (True, ew)" and "safe_strtol ns = (True, nw)"
    and "sint nw + 2 = int (length v)" and "2 \<le> length v" and "length v < 2 ^ 20"
    and "mc_inv fl bl K (mach s)" and "unlocked (mach s)" and "\<forall>i. alloc_ok (mach s) i"
    and "room fl (mach s) (57 + length key + length v)"
  shows "\<exists>i t s' fl' bl' K'. clock_reads (mach s) \<le> i \<and> due ew (mach s) i t \<and>
     thn drive_machine drive_machine s = Some (Inr ((), s')) \<and> at_rest (con s') \<and> inp s' = is \<and> outp s' = [] \<and>
     rbuf_len (con s') = rbuf_len (con s) \<and> spent fl fl' \<and>
     (let old = live bl ((mach s)\<lparr>clock_reads := i\<rparr>) key in
       sent s' = sent s @ (if applies cmd old then ''STORED'' else ''NOT_STORED'') @ crlf \<and>
       outcome bl (mach s) key (if applies cmd old
         then if flags_lost f then None else Some (v, t, last_cas_id (mach s) + 1) else old) fl' bl' K' (mach s') \<and>
       last_cas_id (mach s') = counted (applies cmd old \<and> \<not> flags_lost f) (last_cas_id (mach s)))"
proof -
  have n: "nread_of cmd \<noteq> NREAD_ERROR" "nread_of cmd \<noteq> NREAD_APPEND" "nread_of cmd \<noteq> NREAD_PREPEND" "nread_of cmd \<noteq> NREAD_CAS"
    using assms(6) by (auto simp: nread_of_def)
  obtain r c fl' m t i where g: "mc_inv fl' bl K m" "pending fl' bl m r c" "unlocked m" "world (mach s) m"
     "stored bl m = stored bl (mach s)" "live bl m = live bl ((mach s)\<lparr>clock_reads := i\<rparr>)"
     "clock_reads (mach s) \<le> i" "last_cas_id m = last_cas_id (mach s)"
     "key_of c = key" "value_of c = v" "it_flag c = ucast f" "it_exptime c = t" "it_cas c = 0" "due ew (mach s) i t"
    and sp: "spent fl fl'"
    and ev: "\<And>st cv m3. store_item (nread_of cmd) r m = Some (Inr ((st, cv), m3)) \<Longrightarrow>
       \<exists>s'. thn drive_machine drive_machine s = Some (Inr ((), s')) \<and> at_rest (con s') \<and>
         rbuf_len (con s') = rbuf_len (con s) \<and> mach s' = m3 \<and> inp s' = is \<and> outp s' = [] \<and> sent s' = sent s @
           (if st = STORED then ''STORED'' else if nread_of cmd = NREAD_CAS then ''EXISTS'' else ''NOT_STORED'') @ crlf"
    using storage_events_whole [OF assms(1-5) n(1) assms(7-17)] by metis
  define old where "old = live bl ((mach s)\<lparr>clock_reads := i\<rparr>) key"
  let ?S = "if applies cmd old then (STORED, if flags_lost f then None else Some (v, t, last_cas_id (mach s) + 1)) else (NOT_STORED, old)"
  have "?S = store_spec (nread_of cmd) (live bl m (key_of c)) c True (last_cas_id m + 1)"
    using store_spec_client [OF assms(6) g(9-12), of old True] g(6,8,9) by (simp add: old_def)
  then obtain cv bl' K' m3 where st: "store_item (nread_of cmd) r m = Some (Inr ((fst ?S, cv), m3))"
      "outcome bl m (key_of c) (snd ?S) fl' bl' K' m3" "last_cas_id m3 = counted (fst ?S = STORED \<and> linkable c) (last_cas_id m)"
    using store_item_plain [OF g(1-3), of "nread_of cmd" ?S True] n by auto
  obtain s' where s': "thn drive_machine drive_machine s = Some (Inr ((), s'))" "at_rest (con s')"
      "rbuf_len (con s') = rbuf_len (con s)" "mach s' = m3" "inp s' = is" "outp s' = []"
      "sent s' = sent s @ (if fst ?S = STORED then ''STORED'' else ''NOT_STORED'') @ crlf"
    using ev [OF st(1)] n(4) by auto
  have sent: "sent s' = sent s @ (if applies cmd old then ''STORED'' else ''NOT_STORED'') @ crlf"
    using s'(7) by (cases "applies cmd old") simp_all
  have o: "outcome bl m key (if applies cmd old then if flags_lost f then None
      else Some (v, t, last_cas_id (mach s) + 1) else old) fl' bl' K' m3"
    using st(2) g(9) by (cases "applies cmd old") simp_all
  have o': "outcome bl (mach s) key (if applies cmd old then if flags_lost f then None
      else Some (v, t, last_cas_id (mach s) + 1) else old) fl' bl' K' (mach s')"
    using o world_trans [OF g(4)] unfolding s'(4) outcome_def put_at_def g(5) world_apart [OF g(4)] by blast
  have "linkable c \<longleftrightarrow> \<not> flags_lost f" using g(11) by (simp add: linkable_def flags_lost_def)
  then have "last_cas_id (mach s') = counted (applies cmd old \<and> \<not> flags_lost f) (last_cas_id (mach s))"
    using st(3) g(8) s'(4) by (cases "applies cmd old") simp_all
  then show ?thesis
    unfolding Let_def
    by (intro exI conjI) (rule g(7) g(14) sp s' o' [unfolded old_def] sent [unfolded old_def] | simp add: old_def)+
qed

text \<open>C3: A set, add or replace whose line and value arrive in two segments, from a connection at
  rest and a sound store with room: the client is answered STORED when the command applies (add
  to a key without a live binding, replace to one with) and NOT_STORED otherwise; a stored key is
  bound to exactly the bytes sent, with the next version and the expiry its line asks for (none for
  0, an absolute time past a month, and otherwise that many seconds after a reading of the clock
  during the command), or to nothing when the flags hide it; an unstored one keeps its live binding. Keys of other buckets
  keep theirs, the store is sound, every mutex free, and the connection at rest again.\<close>
theorem storage_dialogue:
  assumes "at_rest (con s)" and "inp s = RdData (w @ [LF]) # RdData v # is" and "outp s = []"
    and "plain_line w (con s)" and "tokens w = [cmd, key, fs, es, ns]" and "cmd \<in> {''set'', ''add'', ''replace''}"
    and "length key \<le> 250"
    and "safe_strtoul fs = (True, f)" and "safe_strtol es = (True, ew)" and "safe_strtol ns = (True, nw)"
    and "sint nw + 2 = int (length v)" and "2 \<le> length v" and "length v < 2 ^ 20"
    and "mc_inv fl bl K (mach s)" and "unlocked (mach s)" and "\<forall>i. alloc_ok (mach s) i"
    and "room fl (mach s) (57 + length key + length v)"
  shows "\<exists>i t s' fl' bl' K'. clock_reads (mach s) \<le> i \<and> due ew (mach s) i t \<and>
     thn drive_machine drive_machine s = Some (Inr ((), s')) \<and> at_rest (con s') \<and> inp s' = is \<and> outp s' = [] \<and>
     rbuf_len (con s') = rbuf_len (con s) \<and> mc_inv fl' bl' K' (mach s') \<and> unlocked (mach s') \<and>
     (let old = live bl ((mach s)\<lparr>clock_reads := i\<rparr>) key in
       sent s' = sent s @ (if applies cmd old then ''STORED'' else ''NOT_STORED'') @ crlf \<and>
       stored bl' (mach s') key = (if applies cmd old
         then if flags_lost f then None else Some (v, t, last_cas_id (mach s) + 1) else old)) \<and>
     stored bl' (mach s') |` (- {key}) \<subseteq>\<^sub>m stored bl (mach s) \<and>
     (\<forall>k. apart (mach s) key k \<longrightarrow> stored bl' (mach s') k = stored bl (mach s) k)"
proof -
  obtain i t s' fl' bl' K' where r: "clock_reads (mach s) \<le> i" "due ew (mach s) i t"
      "thn drive_machine drive_machine s = Some (Inr ((), s'))" "at_rest (con s')" "inp s' = is" "outp s' = []"
      "rbuf_len (con s') = rbuf_len (con s)"
      and sent: "sent s' = sent s @ (if applies cmd (live bl ((mach s)\<lparr>clock_reads := i\<rparr>) key) then ''STORED'' else ''NOT_STORED'') @ crlf"
      and o: "outcome bl (mach s) key (if applies cmd (live bl ((mach s)\<lparr>clock_reads := i\<rparr>) key)
         then if flags_lost f then None else Some (v, t, last_cas_id (mach s) + 1)
         else live bl ((mach s)\<lparr>clock_reads := i\<rparr>) key) fl' bl' K' (mach s')"
    using storage_served [OF at_rest_ready [OF assms(1,4)] assms(2-17)] unfolding Let_def by blast
  have ul: "unlocked (mach s')" using outcome_unlocked [OF o] assms(15) by simp
  note o' = o [unfolded outcome_def put_at_def]
  show ?thesis
    unfolding Let_def
    by (rule exI [of _ i], rule exI [of _ t], rule exI [of _ s'], rule exI [of _ fl'], rule exI [of _ bl'], rule exI [of _ K'])
      (use r sent ul o' in simp)
qed

text \<open>The same for cas: the line has the version the client expects as its sixth word.\<close>

lemma cas_served:
  assumes "ready w (con s)" and "inp s = RdData (w @ [LF]) # RdData v # is" and "outp s = []"
    and "plain_line w (con s)" and ts: "tokens w = [''cas'', key, fs, es, ns, us]" and us: "safe_strtoull us = (True, u)"
    and "length key \<le> 250"
    and "safe_strtoul fs = (True, f)" and "safe_strtol es = (True, ew)" and "safe_strtol ns = (True, nw)"
    and "sint nw + 2 = int (length v)" and "2 \<le> length v" and "length v < 2 ^ 20"
    and "mc_inv fl bl K (mach s)" and "unlocked (mach s)" and "\<forall>i. alloc_ok (mach s) i"
    and "room fl (mach s) (57 + length key + length v)"
    and bound: "stored bl (mach s) key = Some (x, 0, u0)"
  shows "\<exists>i t s' fl' bl' K'. due ew (mach s) i t \<and>
     thn drive_machine drive_machine s = Some (Inr ((), s')) \<and> at_rest (con s') \<and> inp s' = is \<and> outp s' = [] \<and>
     rbuf_len (con s') = rbuf_len (con s) \<and> spent fl fl' \<and>
     sent s' = sent s @ (if u = u0 then ''STORED'' else ''EXISTS'') @ crlf \<and>
     outcome bl (mach s) key (if u \<noteq> u0 then Some (x, 0, u0)
         else if flags_lost f then None else Some (v, t, last_cas_id (mach s) + 1)) fl' bl' K' (mach s') \<and>
     last_cas_id (mach s') = counted (u = u0 \<and> \<not> flags_lost f) (last_cas_id (mach s))"
proof -
  have n: "nread_of ''cas'' = NREAD_CAS" by (simp add: nread_of_def)
  have n': "nread_of ''cas'' \<noteq> NREAD_ERROR" by (simp add: n)
  have vs: "versioned [us] u" using us by (simp add: versioned_def)
  obtain r c fl' m t i where g: "mc_inv fl' bl K m" "pending fl' bl m r c" "unlocked m" "world (mach s) m"
     "stored bl m = stored bl (mach s)" "live bl m = live bl ((mach s)\<lparr>clock_reads := i\<rparr>)"
     "last_cas_id m = last_cas_id (mach s)"
     "key_of c = key" "value_of c = v" "it_flag c = ucast f" "it_exptime c = t" "it_cas c = u" "due ew (mach s) i t"
    and sp: "spent fl fl'"
    and ev: "\<And>st cv m3. store_item (nread_of ''cas'') r m = Some (Inr ((st, cv), m3)) \<Longrightarrow>
       \<exists>s'. thn drive_machine drive_machine s = Some (Inr ((), s')) \<and> at_rest (con s') \<and>
         rbuf_len (con s') = rbuf_len (con s) \<and> mach s' = m3 \<and> inp s' = is \<and> outp s' = [] \<and> sent s' = sent s @
           (if st = STORED then ''STORED'' else if nread_of ''cas'' = NREAD_CAS then ''EXISTS'' else ''NOT_STORED'') @ crlf"
    using storage_events_one [OF assms(1-4) ts vs n' assms(7-17)] by metis
  have lv: "live bl m (key_of c) = Some (x, 0, u0)" using bound g(5,8) by (simp add: live_def)
  let ?S = "if u = u0 then (STORED, put_binding c (last_cas_id m + 1)) else (EXISTS, Some (x, 0, u0))"
  have "?S = store_spec NREAD_CAS (live bl m (key_of c)) c True (last_cas_id m + 1)"
    using lv g(12) by (simp add: store_spec_def)
  from store_item_plain [OF g(1-3) _ _ this] lv
  obtain cv bl' K' m3 where st: "store_item NREAD_CAS r m = Some (Inr ((fst ?S, cv), m3))"
      "outcome bl m (key_of c) (snd ?S) fl' bl' K' m3" "last_cas_id m3 = counted (fst ?S = STORED \<and> linkable c) (last_cas_id m)"
    by auto
  obtain s' where s': "thn drive_machine drive_machine s = Some (Inr ((), s'))" "at_rest (con s')"
      "rbuf_len (con s') = rbuf_len (con s)" "mach s' = m3" "inp s' = is" "outp s' = []"
      "sent s' = sent s @ (if u = u0 then ''STORED'' else ''EXISTS'') @ crlf"
    using ev [unfolded n, OF st(1)] by (cases "u = u0") auto
  have lk: "linkable c \<longleftrightarrow> \<not> flags_lost f" using g(10) by (simp add: linkable_def flags_lost_def)
  have "snd ?S = (if u \<noteq> u0 then Some (x, 0, u0) else if flags_lost f then None else Some (v, t, last_cas_id (mach s) + 1))"
    using g(7,9,11) lk by (simp add: put_binding_def)
  then have o: "outcome bl (mach s) key (if u \<noteq> u0 then Some (x, 0, u0)
         else if flags_lost f then None else Some (v, t, last_cas_id (mach s) + 1)) fl' bl' K' (mach s')"
    using st(2) world_trans [OF g(4)] unfolding s'(4) outcome_def put_at_def g(5,8) world_apart [OF g(4)] by metis
  have "last_cas_id (mach s') = counted (u = u0 \<and> \<not> flags_lost f) (last_cas_id (mach s))"
    using st(3) g(7) s'(4) lk by (cases "u = u0") simp_all
  then show ?thesis
    by (intro exI conjI) (rule g(13) sp s' o | assumption)+
qed

lemma stored_tick: "stored bl (s\<lparr>clock_reads := i\<rparr>) = stored bl s"
  using tick_views(3) [of bl i "alloc_calls s" s] by (simp add: tick_def)

lemma join_served:
  assumes "ready w (con s)" and "inp s = RdData (w @ [LF]) # RdData v # is" and "outp s = []"
    and "plain_line w (con s)" and "tokens w = [cmd, key, fs, es, ns]" and "cmd \<in> {''append'', ''prepend''}"
    and "length key \<le> 250"
    and "safe_strtoul fs = (True, f)" and "safe_strtol es = (True, ew)" and "safe_strtol ns = (True, nw)"
    and "sint nw + 2 = int (length v)" and "2 \<le> length v" and "length v < 2 ^ 20"
    and "mc_inv fl bl K (mach s)" and "unlocked (mach s)" and "\<forall>i. alloc_ok (mach s) i"
    and "room fl (mach s) (57 + length key + length v)"
    and "case stored bl (mach s) key of None \<Rightarrow> True | Some (x, e, u) \<Rightarrow> u \<noteq> 0"
  shows "\<exists>i s' fl' bl' K'. clock_reads (mach s) \<le> i \<and>
     thn drive_machine drive_machine s = Some (Inr ((), s')) \<and> at_rest (con s') \<and> inp s' = is \<and> outp s' = [] \<and>
     rbuf_len (con s') = rbuf_len (con s) \<and> spent fl fl' \<and> sent s' = sent s @ ''NOT_STORED'' @ crlf \<and>
     outcome bl (mach s) key (live bl ((mach s)\<lparr>clock_reads := i\<rparr>) key) fl' bl' K' (mach s') \<and>
     last_cas_id (mach s') = last_cas_id (mach s)"
proof -
  have n: "nread_of cmd = NREAD_APPEND \<or> nread_of cmd = NREAD_PREPEND" using assms(6) by (auto simp: nread_of_def)
  then have n': "nread_of cmd \<noteq> NREAD_ERROR" "nread_of cmd \<noteq> NREAD_CAS" by auto
  obtain r c fl' m t i where g: "mc_inv fl' bl K m" "pending fl' bl m r c" "unlocked m" "world (mach s) m" "last_cas_id m = last_cas_id (mach s)"
     "stored bl m = stored bl (mach s)" "live bl m = live bl ((mach s)\<lparr>clock_reads := i\<rparr>)"
     "clock_reads (mach s) \<le> i" "key_of c = key" "value_of c = v" "it_cas c = 0"
    and sp: "spent fl fl'"
    and ev: "\<And>st cv m3. store_item (nread_of cmd) r m = Some (Inr ((st, cv), m3)) \<Longrightarrow>
       \<exists>s'. thn drive_machine drive_machine s = Some (Inr ((), s')) \<and> at_rest (con s') \<and>
         rbuf_len (con s') = rbuf_len (con s) \<and> mach s' = m3 \<and> inp s' = is \<and> outp s' = [] \<and> sent s' = sent s @
           (if st = STORED then ''STORED'' else if nread_of cmd = NREAD_CAS then ''EXISTS'' else ''NOT_STORED'') @ crlf"
    using storage_events_whole [OF assms(1-5) n'(1) assms(7-17)] by metis
  define old where "old = live bl ((mach s)\<lparr>clock_reads := i\<rparr>) key"
  have lv: "live bl m (key_of c) = old" using g(7,9) by (simp add: old_def)
  have "\<exists>st cv bl' K' m3. store_item (nread_of cmd) r m = Some (Inr ((st, cv), m3)) \<and> st \<noteq> STORED \<and>
      outcome bl m (key_of c) old fl' bl' K' m3 \<and> last_cas_id m3 = last_cas_id m"
  proof (cases old)
    case None
    have "(NOT_STORED, None) = store_spec (nread_of cmd) (live bl m (key_of c)) c True (last_cas_id m + 1)"
      using n None lv by (auto simp: store_spec_def)
    from store_item_plain [OF g(1-3) _ _ this] None lv n' show ?thesis by fastforce
  next
    case (Some a)
    obtain x e u where a: "a = (x, e, u)" by (cases a) auto
    have "stored bl (mach s) key = Some (x, e, u)"
      using Some a by (simp add: old_def live_def stored_tick split: option.splits prod.splits if_splits)
    then have u: "it_cas c \<noteq> u" using assms(18) g(11) by simp
    have le: "live bl m (key_of c) = Some (x, e, u)" using lv Some a by simp
    show ?thesis using store_item_conflict [OF g(1-3) n le u] Some a by fastforce
  qed
  then obtain st cv bl' K' m3 where st: "store_item (nread_of cmd) r m = Some (Inr ((st, cv), m3))" "st \<noteq> STORED"
      "outcome bl m (key_of c) old fl' bl' K' m3" "last_cas_id m3 = last_cas_id m" by blast
  obtain s' where s': "thn drive_machine drive_machine s = Some (Inr ((), s'))" "at_rest (con s')" "mach s' = m3"
      "sent s' = sent s @ ''NOT_STORED'' @ crlf" "inp s' = is" "outp s' = []" "rbuf_len (con s') = rbuf_len (con s)"
    using ev [OF st(1)] st(2) n'(2) by auto
  have "outcome bl (mach s) key old fl' bl' K' (mach s')"
    using st(3) world_trans [OF g(4)] unfolding s'(3) outcome_def put_at_def g(6,9) world_apart [OF g(4)] by blast
  then show ?thesis using s' sp st(4) g(5,8) unfolding old_def by auto
qed

text \<open>C30: append and prepend with the five words of the protocol store nothing: such a line carries no
  version, the store compares the version 0 of the new item with that of the stored one, and
  refuses. When there is room for the item the client is answered NOT_STORED, and the key keeps
  its live binding. The binding is assumed not to have the version 0, which a stored item gets
  only when the counter of versions wraps around; a line with the version of the binding as its
  sixth word, which the code accepts for every storage command, is not covered.\<close>
theorem append_without_version_refused:
  assumes "at_rest (con s)" and "inp s = RdData (w @ [LF]) # RdData v # is" and "outp s = []"
    and "plain_line w (con s)" and "tokens w = [cmd, key, fs, es, ns]" and "cmd \<in> {''append'', ''prepend''}"
    and "length key \<le> 250"
    and "safe_strtoul fs = (True, f)" and "safe_strtol es = (True, ew)" and "safe_strtol ns = (True, nw)"
    and "sint nw + 2 = int (length v)" and "2 \<le> length v" and "length v < 2 ^ 20"
    and "mc_inv fl bl K (mach s)" and "unlocked (mach s)" and "\<forall>i. alloc_ok (mach s) i"
    and "room fl (mach s) (57 + length key + length v)"
    and "case stored bl (mach s) key of None \<Rightarrow> True | Some (x, e, u) \<Rightarrow> u \<noteq> 0"
  shows "\<exists>i s' fl' bl' K'. clock_reads (mach s) \<le> i \<and>
     thn drive_machine drive_machine s = Some (Inr ((), s')) \<and> at_rest (con s') \<and>
     sent s' = sent s @ ''NOT_STORED'' @ crlf \<and> mc_inv fl' bl' K' (mach s') \<and> unlocked (mach s') \<and>
     stored bl' (mach s') key = live bl ((mach s)\<lparr>clock_reads := i\<rparr>) key \<and>
     stored bl' (mach s') |` (- {key}) \<subseteq>\<^sub>m stored bl (mach s)"
proof -
  obtain i s' fl' bl' K' where r: "clock_reads (mach s) \<le> i" "thn drive_machine drive_machine s = Some (Inr ((), s'))"
      "at_rest (con s')" "sent s' = sent s @ ''NOT_STORED'' @ crlf"
      and o: "outcome bl (mach s) key (live bl ((mach s)\<lparr>clock_reads := i\<rparr>) key) fl' bl' K' (mach s')"
    using join_served [OF at_rest_ready [OF assms(1,4)] assms(2-18)] by blast
  then show ?thesis using outcome_unlocked [OF o] assms(15) o unfolding outcome_def put_at_def by blast
qed

text \<open>What a client is sent for the line set with the flags 0 and no expiry, and then for get.\<close>

lemma tokens_plain:
  "tokens ''set k 0 0 2'' = [''set'', ''k'', ''0'', ''0'', ''2'']"
  "tokens ''append k 0 0 2'' = [''append'', ''k'', ''0'', ''0'', ''2'']"
  "tokens ''get k'' = [''get'', ''k'']"
  by (simp_all add: tokens_def separates_def is_space_def char_val_def)

lemma numbers_plain:
  "safe_strtoul ''0'' = (True, 0)" "safe_strtol ''0'' = (True, 0)" "safe_strtol ''2'' = (True, 2)"
proof -
  have d: "dec 0 = ''0''" "dec 2 = ''2''" by code_simp+
  show "safe_strtoul ''0'' = (True, 0)" "safe_strtol ''0'' = (True, 0)" "safe_strtol ''2'' = (True, 2)"
    using strtoul.parse_dec [of 0] strtol.parse_dec [of 0] strtol.parse_dec [of 2] d
    by (simp_all add: accepts_u64_def accepts_s64_def)
qed

lemma set_get_served:
  assumes "at_rest (con s)" and "outp s = []"
    and "inp s = [RdData (w1 @ [LF]), RdData v, RdData (w2 @ [LF])]"
    and "plain_line w1 (con s)" and "tokens w1 = [''set'', key, fs, es, ns]" and "length key \<le> 250"
    and "plain_line w2 (con s)" and "tokens w2 = [''get'', key]"
    and "safe_strtoul fs = (True, f)" and "safe_strtol es = (True, 0)" and "safe_strtol ns = (True, nw)"
    and "sint nw + 2 = int (length v)" and "2 \<le> length v" and "length v < 1600" and "\<not> flags_lost f"
    and "mc_inv fl bl K (mach s)" and "unlocked (mach s)" and "\<forall>i. alloc_ok (mach s) i"
    and "room fl (mach s) (57 + length key + length v)"
  shows "\<exists>s' g z. seqs [drive_machine, drive_machine, drive_machine, drive_machine] s = Some (Inr ((), s')) \<and>
     at_rest (con s') \<and> sent s' = sent s @ ''STORED'' @ crlf @
       ''VALUE '' @ key @ '' '' @ dec (unat (g :: u8)) @ '' '' @ dec (length v) @ '' '' @ dec (unat (last_cas_id (mach s) + 1)) @
       LF # v @ ''END'' @ crlf @ NUL # z"
proof -
  have v: "length v < 2 ^ 20" using assms(14) by simp
  have "''set'' \<in> {''set'', ''add'', ''replace''}" by simp
  from storage_served [OF at_rest_ready [OF assms(1,4)] assms(3,2,4,5) this assms(6,9-13) v assms(16-19)]
  obtain s1 fl1 bl1 K1 where s1: "thn drive_machine drive_machine s = Some (Inr ((), s1))" "at_rest (con s1)"
      "inp s1 = [RdData (w2 @ [LF])]" "outp s1 = []" "rbuf_len (con s1) = rbuf_len (con s)"
      and o1: "outcome bl (mach s) key (Some (v, 0, last_cas_id (mach s) + 1)) fl1 bl1 K1 (mach s1)"
      and s1': "sent s1 = sent s @ ''STORED'' @ crlf"
    using assms(15) by (auto simp: applies_def Let_def dest!: due_zero)
  have lv: "live bl1 (mach s1) key = Some (v, 0, last_cas_id (mach s) + 1)" using o1 by (simp add: live_def outcome_def put_at_def)
  have i1: "mc_inv fl1 bl1 K1 (mach s1)" "unlocked (mach s1)"
    using o1 outcome_unlocked [OF o1] assms(17) by (simp_all add: outcome_def)
  have w2: "plain_line w2 (con s1)" using assms(7) s1(5) by (simp add: plain_line_def)
  obtain s2 g z where s2: "thn drive_machine drive_machine s1 = Some (Inr ((), s2))" "at_rest (con s2)"
      "sent s2 = sent s1 @ ''VALUE '' @ key @ '' '' @ dec (unat (g :: u8)) @ '' '' @ dec (length v) @ '' '' @
        dec (unat (last_cas_id (mach s) + 1)) @ LF # v @ ''END'' @ crlf @ NUL # z"
    using get_served [OF at_rest_ready [OF s1(2) w2] s1(3,4) w2 assms(8,6) i1] lv assms(14) by auto
  have "seqs [drive_machine, drive_machine, drive_machine, drive_machine] s =
      bnd (thn drive_machine drive_machine) (\<lambda>_. thn drive_machine drive_machine) s"
    by (cases "drive_machine s") (auto simp: seqs.simps thn_def bnd_def bind_unit ret_def split: sum.splits)
  then have "seqs [drive_machine, drive_machine, drive_machine, drive_machine] s = Some (Inr ((), s2))"
    by (simp add: bnd_run [of "thn drive_machine drive_machine" s, OF s1(1)] s2(1))
  then show ?thesis using s2(2,3) s1' by (intro exI [of _ s2] exI [of _ g] exI [of _ z]) simp
qed


text \<open>C5: A client that sets a key to a value of up to 1,600 bytes, with flags that leave bits 0 and
  2 alone and no expiry, and then gets it, receives STORED and then the value it sent, byte for
  byte, with its length and the next version; every step of both commands is the server's.\<close>
theorem set_then_get:
  assumes "at_rest (con s)" and "outp s = []"
    and "inp s = [RdData (w1 @ [LF]), RdData v, RdData (w2 @ [LF])]"
    and "plain_line w1 (con s)" and "tokens w1 = [''set'', key, fs, es, ns]" and "length key \<le> 250"
    and "plain_line w2 (con s)" and "tokens w2 = [''get'', key]"
    and "safe_strtoul fs = (True, f)" and "safe_strtol es = (True, 0)" and "safe_strtol ns = (True, nw)"
    and "sint nw + 2 = int (length v)" and "2 \<le> length v" and "length v < 1600" and "\<not> flags_lost f"
    and "mc_inv fl bl K (mach s)" and "unlocked (mach s)" and "\<forall>i. alloc_ok (mach s) i"
    and "room fl (mach s) (57 + length key + length v)"
  shows "\<exists>s' g z. seqs [drive_machine, drive_machine, drive_machine, drive_machine] s = Some (Inr ((), s')) \<and>
     at_rest (con s') \<and> sent s' = sent s @ ''STORED'' @ crlf @
       ''VALUE '' @ key @ '' '' @ dec (unat (g :: u8)) @ '' '' @ dec (length v) @ '' '' @ dec (unat (last_cas_id (mach s) + 1)) @
       LF # v @ ''END'' @ crlf @ NUL # z"
  by (rule set_get_served [OF assms])

text \<open>C4: A value lives until the expiry its line asked for and no longer: a client that sets a key with
  any expiry and later gets it receives the value as long as the clock, when the get reads it, has
  not reached the expiry, and END from then on; without an expiry it always receives the value.\<close>
theorem value_expires:
  assumes "at_rest (con s)" and "outp s = []"
    and "inp s = [RdData (w1 @ [LF]), RdData v, RdData (w2 @ [LF])]"
    and "plain_line w1 (con s)" and "tokens w1 = [''set'', key, fs, es, ns]" and "length key \<le> 250"
    and "plain_line w2 (con s)" and "tokens w2 = [''get'', key]"
    and "safe_strtoul fs = (True, f)" and "safe_strtol es = (True, ew)" and "safe_strtol ns = (True, nw)"
    and "sint nw + 2 = int (length v)" and "2 \<le> length v" and "length v < 1600" and "\<not> flags_lost f"
    and "mc_inv fl bl K (mach s)" and "unlocked (mach s)" and "\<forall>i. alloc_ok (mach s) i"
    and "room fl (mach s) (57 + length key + length v)"
  shows "\<exists>i t s1 s2 g z. due ew (mach s) i t \<and>
     thn drive_machine drive_machine s = Some (Inr ((), s1)) \<and> sent s1 = sent s @ ''STORED'' @ crlf \<and>
     thn drive_machine drive_machine s1 = Some (Inr ((), s2)) \<and>
     sent s2 = sent s1 @ (if t \<noteq> 0 \<and> t \<le> clock (mach s) (clock_reads (mach s1)) then ''END'' @ crlf
       else ''VALUE '' @ key @ '' '' @ dec (unat (g :: u8)) @ '' '' @ dec (length v) @ '' '' @
         dec (unat (last_cas_id (mach s) + 1)) @ LF # v @ ''END'' @ crlf @ NUL # z)"
proof -
  have v: "length v < 2 ^ 20" using assms(14) by simp
  have "''set'' \<in> {''set'', ''add'', ''replace''}" by simp
  from storage_served [OF at_rest_ready [OF assms(1,4)] assms(3,2,4,5) this assms(6,9-13) v assms(16-19)]
  obtain i t s1 fl1 bl1 K1 where d: "due ew (mach s) i t"
      and s1: "thn drive_machine drive_machine s = Some (Inr ((), s1))" "at_rest (con s1)"
      "inp s1 = [RdData (w2 @ [LF])]" "outp s1 = []" "rbuf_len (con s1) = rbuf_len (con s)"
      and o1: "outcome bl (mach s) key (Some (v, t, last_cas_id (mach s) + 1)) fl1 bl1 K1 (mach s1)"
      and s1': "sent s1 = sent s @ ''STORED'' @ crlf"
    using assms(15) by (auto simp: applies_def Let_def)
  define gone where "gone = (t \<noteq> 0 \<and> t \<le> clock (mach s) (clock_reads (mach s1)))"
  have lv: "live bl1 (mach s1) key = (if gone then None else Some (v, t, last_cas_id (mach s) + 1))"
    using o1 by (simp add: live_def outcome_def put_at_def world_def gone_def)
  have i1: "mc_inv fl1 bl1 K1 (mach s1)" "unlocked (mach s1)"
    using o1 outcome_unlocked [OF o1] assms(17) by (simp_all add: outcome_def)
  have w2: "plain_line w2 (con s1)" using assms(7) s1(5) by (simp add: plain_line_def)
  obtain s2 g z where s2: "thn drive_machine drive_machine s1 = Some (Inr ((), s2))"
      "sent s2 = sent s1 @ (if gone then ''END'' @ crlf
       else ''VALUE '' @ key @ '' '' @ dec (unat (g :: u8)) @ '' '' @ dec (length v) @ '' '' @
         dec (unat (last_cas_id (mach s) + 1)) @ LF # v @ ''END'' @ crlf @ NUL # z)"
    using get_served [OF at_rest_ready [OF s1(2) w2] s1(3,4) w2 assms(8,6) i1] lv assms(14) by (cases gone) auto
  show ?thesis
    by (intro exI conjI) (rule d s1(1) s1' s2(1) s2(2) [unfolded gone_def])+
qed

lemma demo_exchange:
  obtains m fl bl K u where "mc_inv fl bl K m" "unlocked m" "\<forall>i. alloc_ok m i" "room fl m 62"
    "stored bl m ''k'' = Some (''ab'' @ crlf, 0, u)"
proof -
  obtain m fl bl K u where m: "mc_inv fl bl K m" "unlocked m" "roomy m" "stored bl m ''k'' = Some (''ab'' @ crlf, 0, u)"
    by (rule demo_bound [of "''ab''"]) simp
  have "classes_ok (slab m)" using m(1) by (simp add: mc_inv_def base_inv_def slab_inv_def)
  then have "room fl m 62" by (intro roomy_room [OF m(3)]) simp_all
  with m show ?thesis using that by (auto simp: roomy_def)
qed

lemma storage_dialogue_witness:
  "\<exists>s s'. thn drive_machine drive_machine s = Some (Inr ((), s')) \<and> sent s' = ''STORED'' @ crlf"
proof -
  obtain m fl bl K u where m: "mc_inv fl bl K m" "unlocked m" "\<forall>i. alloc_ok m i" "room fl m 62"
    by (rule demo_exchange)
  let ?s = "demo_net m [RdData (''set k 0 0 2'' @ [LF]), RdData (''cd'' @ crlf)] []"
  have w: "plain_line ''set k 0 0 2'' (con ?s)" by (simp add: plain_line_def LF_def NUL_def)
  have "\<exists>s'. thn drive_machine drive_machine ?s = Some (Inr ((), s')) \<and> sent s' = ''STORED'' @ crlf"
    using storage_dialogue [of ?s "''set k 0 0 2''" "''cd'' @ crlf" "[]", OF _ _ _ w tokens_plain(1) _ _ numbers_plain, of fl bl K] m
    by (auto simp: applies_def crlf_def)
  then show ?thesis by blast
qed


lemma append_without_version_refused_witness:
  "\<exists>s s' fl bl K. mc_inv fl bl K (mach s') \<and> sent s' = ''NOT_STORED'' @ crlf \<and>
     thn drive_machine drive_machine s = Some (Inr ((), s'))"
proof -
  obtain m fl where m: "mc_inv fl (\<lambda>_. []) {} m" "stored (\<lambda>_. []) m = Map.empty" "unlocked m" "roomy m"
    by (rule demo_server)
  have "classes_ok (slab m)" using m(1) by (simp add: mc_inv_def base_inv_def slab_inv_def)
  then have rm: "room fl m 62" by (intro roomy_room [OF m(4)]) simp_all
  let ?s = "demo_net m [RdData (''append k 0 0 2'' @ [LF]), RdData (''cd'' @ crlf)] []"
  have w: "plain_line ''append k 0 0 2'' (con ?s)" by (simp add: plain_line_def LF_def NUL_def)
  have "\<exists>s' fl' bl' K'. mc_inv fl' bl' K' (mach s') \<and> sent s' = ''NOT_STORED'' @ crlf \<and>
     thn drive_machine drive_machine ?s = Some (Inr ((), s'))"
    using append_without_version_refused [of ?s "''append k 0 0 2''" "''cd'' @ crlf" "[]", OF _ _ _ w tokens_plain(2) _ _ numbers_plain,
      of fl "\<lambda>_. []" "{}"] m rm by (auto simp: roomy_def crlf_def)
  then show ?thesis by blast
qed

lemma set_then_get_witness:
  "\<exists>s s' z. seqs [drive_machine, drive_machine, drive_machine, drive_machine] s = Some (Inr ((), s')) \<and>
     sent s' = ''STORED'' @ crlf @ ''VALUE k '' @ z"
proof -
  obtain m fl bl K u where m: "mc_inv fl bl K m" "unlocked m" "\<forall>i. alloc_ok m i" "room fl m 62"
    by (rule demo_exchange)
  let ?s = "demo_net m [RdData (''set k 0 0 2'' @ [LF]), RdData (''cd'' @ crlf), RdData (''get k'' @ [LF])] []"
  have w: "plain_line ''set k 0 0 2'' (con ?s)" "plain_line ''get k'' (con ?s)" by (simp_all add: plain_line_def LF_def NUL_def)
  have "\<exists>s' z. seqs [drive_machine, drive_machine, drive_machine, drive_machine] ?s = Some (Inr ((), s')) \<and>
     sent s' = ''STORED'' @ crlf @ ''VALUE k '' @ z"
    using set_then_get [of ?s "''set k 0 0 2''" "''cd'' @ crlf", OF _ _ _ w(1) tokens_plain(1) _ w(2) tokens_plain(3)
      numbers_plain, of fl bl K] m by (auto simp: flags_lost_def crlf_def)
  then show ?thesis by blast
qed

lemma value_expires_witness:
  "\<exists>s i t s1. due 1 (mach s) i t \<and> thn drive_machine drive_machine s = Some (Inr ((), s1)) \<and> sent s1 = ''STORED'' @ crlf"
proof -
  obtain m fl bl K u where m: "mc_inv fl bl K m" "unlocked m" "\<forall>i. alloc_ok m i" "room fl m 62"
    by (rule demo_exchange)
  let ?s = "demo_net m [RdData (''set k 0 1 2'' @ [LF]), RdData (''cd'' @ crlf), RdData (''get k'' @ [LF])] []"
  have w: "plain_line ''set k 0 1 2'' (con ?s)" "plain_line ''get k'' (con ?s)" by (simp_all add: plain_line_def LF_def NUL_def)
  have t: "tokens ''set k 0 1 2'' = [''set'', ''k'', ''0'', ''1'', ''2'']"
    by (simp add: tokens_def separates_def is_space_def char_val_def)
  have d: "dec 1 = ''1''" by code_simp
  have e: "safe_strtol ''1'' = (True, 1)"
    using strtol.parse_dec [of 1] d by (simp add: accepts_s64_def)
  have "\<exists>i t s1. due 1 (mach ?s) i t \<and> thn drive_machine drive_machine ?s = Some (Inr ((), s1)) \<and> sent s1 = ''STORED'' @ crlf"
    using value_expires [of ?s "''set k 0 1 2''" "''cd'' @ crlf" "''get k''", OF _ _ _ w(1) t _ w(2) tokens_plain(3)
      numbers_plain(1) e numbers_plain(3), of fl bl K] m by (auto simp: flags_lost_def crlf_def)
  then show ?thesis by blast
qed

end
