(* ===== verification/Session.thy ===== *)
theory Session
  imports Storage
begin

text \<open>
  A whole session of a client: the abstract cache, a map from keys to values and versions with the
  number of the last version, what it answers to each request, how requests and answers look on
  the wire, and that the server, event by event, answers every sequence of requests as the
  abstract cache does and keeps the same bindings.
\<close>

section \<open>A server that follows a specification\<close>

text \<open>The responses a specification \<open>spec\<close> gives to a sequence of requests, from a state of it.\<close>

fun responses :: "('q \<Rightarrow> 'c \<Rightarrow> 'r \<times> 'c) \<Rightarrow> 'q list \<Rightarrow> 'c \<Rightarrow> 'r list \<times> 'c" where
  "responses spec [] C = ([], C)"
| "responses spec (q # qs) C =
     (let (r, C') = spec q C; (rs, C'') = responses spec qs C' in (r # rs, C''))"

lemma responses_Cons:
  "fst (responses spec (q # qs) C) = fst (spec q C) # fst (responses spec qs (snd (spec q C)))"
  "snd (responses spec (q # qs) C) = snd (responses spec qs (snd (spec q C)))"
  by (simp_all add: Let_def split: prod.splits)

text \<open>
  The contract between a server and its specification: while \<open>rel qs C s\<close> relates the requests
  that are still to come, the abstract and the concrete state, handling the next request returns,
  puts out bytes that tell the specified response, and leaves the states related. Then every
  sequence of requests is handled as specified.
\<close>

locale conforming =
  fixes rel :: "'q list \<Rightarrow> 'c \<Rightarrow> 's \<Rightarrow> bool"
    and spec :: "'q \<Rightarrow> 'c \<Rightarrow> 'r \<times> 'c"
    and handle :: "('s, unit) prog"
    and out :: "'s \<Rightarrow> 'o list"
    and tells :: "'r \<Rightarrow> 'o list \<Rightarrow> bool"
  assumes handles: "rel (q # qs) C s \<Longrightarrow> \<exists>s' bs. handle s = Some (Inr ((), s')) \<and> out s' = out s @ bs \<and>
     tells (fst (spec q C)) bs \<and> rel qs (snd (spec q C)) s'"
begin

lemma session:
  "rel qs C s \<Longrightarrow> \<exists>s' bss. seqs (replicate (length qs) handle) s = Some (Inr ((), s')) \<and> out s' = out s @ concat bss \<and>
     list_all2 tells (fst (responses spec qs C)) bss \<and> rel [] (snd (responses spec qs C)) s'"
proof (induction qs arbitrary: C s)
  case Nil
  then show ?case by (intro exI [of _ s] exI [of _ "[]"]) (simp add: seqs_done)
next
  case (Cons q qs)
  obtain s1 bs where s1: "handle s = Some (Inr ((), s1))" "out s1 = out s @ bs" "tells (fst (spec q C)) bs"
      "rel qs (snd (spec q C)) s1"
    using handles [OF Cons.prems] by blast
  obtain s' bss where s': "seqs (replicate (length qs) handle) s1 = Some (Inr ((), s'))" "out s' = out s1 @ concat bss"
      "list_all2 tells (fst (responses spec qs (snd (spec q C)))) bss" "rel [] (snd (responses spec qs (snd (spec q C)))) s'"
    using Cons.IH [OF s1(4)] by blast
  have "seqs (replicate (length (q # qs)) handle) s = Some (Inr ((), s'))"
    using s'(1) by (simp add: seqs_run [of handle s, OF s1(1)])
  then show ?case
    using s' s1(2,3) by (intro exI [of _ s'] exI [of _ "bs # bss"]) (simp add: responses_Cons del: responses.simps)
qed

end

section \<open>The abstract cache\<close>

datatype storing = Set_it | Add_it | Replace_it

fun verb :: "storing \<Rightarrow> string" where
  "verb Set_it = ''set''"
| "verb Add_it = ''add''"
| "verb Replace_it = ''replace''"

datatype joining = Append_it | Prepend_it

fun joint :: "joining \<Rightarrow> string" where
  "joint Append_it = ''append''"
| "joint Prepend_it = ''prepend''"

datatype request =
    Store storing "byte list" u32 "byte list"
  | Cas "byte list" u32 "byte list" u64
  | Join joining "byte list" u32 "byte list"
  | Get "byte list"
  | Delete "byte list"
  | Version
  | Other "byte list list"

datatype response =
    Text string
  | Found "byte list" "byte list" u64

record cache =
  bound :: "byte list \<Rightarrow> (byte list \<times> u64) option"
  version :: u64

fun accepted :: "storing \<Rightarrow> 'a option \<Rightarrow> bool" where
  "accepted Set_it old = True"
| "accepted Add_it old = (old = None)"
| "accepted Replace_it old = (old \<noteq> None)"

text \<open>A value is stored with the next version; one whose flags hide it is lost, with what the key had.\<close>

definition put :: "byte list \<Rightarrow> u32 \<Rightarrow> byte list \<Rightarrow> cache \<Rightarrow> cache" where
  "put k f v C = (if flags_lost f then C\<lparr>bound := (bound C)(k := None)\<rparr>
     else C\<lparr>bound := (bound C)(k \<mapsto> (v, version C + 1)), version := version C + 1\<rparr>)"

text \<open>A join never carries the version it is compared with. A cas needs its key to be bound.\<close>

fun serve :: "request \<Rightarrow> cache \<Rightarrow> response \<times> cache" where
  "serve (Store c k f v) C = (if accepted c (bound C k) then (Text ''STORED'', put k f v C) else (Text ''NOT_STORED'', C))"
| "serve (Cas k f v u) C = (if map_option snd (bound C k) = Some u then (Text ''STORED'', put k f v C) else (Text ''EXISTS'', C))"
| "serve (Join c k f v) C = (Text ''NOT_STORED'', C)"
| "serve (Get k) C = (case bound C k of None \<Rightarrow> Text ''END'' | Some (v, u) \<Rightarrow> Found k v u, C)"
| "serve (Delete k) C = (Text (if bound C k = None then ''NOT_FOUND'' else ''DELETED''),
     C\<lparr>bound := (bound C)(k := None)\<rparr>)"
| "serve Version C = (Text ''CGXR MEMCACHE version 1.0'', C)"
| "serve (Other ws) C = (Text ''CLIENT_BAD_COMMAND'', C)"

abbreviation serves :: "request list \<Rightarrow> cache \<Rightarrow> response list \<times> cache" where
  "serves \<equiv> responses serve"

section \<open>Requests and answers on the wire\<close>

text \<open>A request is one line, in one segment, and for the storage commands one more segment with
  the value, whose last two bytes end its line and are not counted by the client.\<close>

fun line_words :: "request \<Rightarrow> byte list list" where
  "line_words (Store c k f v) = [verb c, k, dec (unat f), ''0'', dec (length v - 2)]"
| "line_words (Cas k f v u) = [''cas'', k, dec (unat f), ''0'', dec (length v - 2), dec (unat u)]"
| "line_words (Join c k f v) = [joint c, k, dec (unat f), ''0'', dec (length v - 2)]"
| "line_words (Get k) = [''get'', k]"
| "line_words (Delete k) = [''delete'', k]"
| "line_words Version = [''version'']"
| "line_words (Other ws) = ws"

definition line_of :: "request \<Rightarrow> byte list" where
  "line_of q = unwords (line_words q) @ [CR]"

fun values_of :: "request \<Rightarrow> byte list list" where
  "values_of (Store c k f v) = [v]"
| "values_of (Cas k f v u) = [v]"
| "values_of (Join c k f v) = [v]"
| "values_of q = []"

definition asked :: "request \<Rightarrow> rd_event list" where
  "asked q = map RdData ((line_of q @ [LF]) # values_of q)"

text \<open>The answer to a get is padded to the size of the buffer; its flags are the byte of the item.\<close>

fun told :: "response \<Rightarrow> byte list \<Rightarrow> bool" where
  "told (Text m) bs = (bs = m @ crlf)"
| "told (Found k v u) bs = (\<exists>g z. g AND ITEM_LINKED \<noteq> 0 \<and> length bs = 2048 \<and>
     bs = ''VALUE '' @ k @ '' '' @ dec (unat g) @ '' '' @ dec (length v) @ '' '' @ dec (unat u) @
       LF # v @ ''END'' @ crlf @ NUL # z)"

fun keys :: "request \<Rightarrow> byte list set" where
  "keys (Store c k f v) = {k}"
| "keys (Cas k f v u) = {k}"
| "keys (Join c k f v) = {k}"
| "keys (Get k) = {k}"
| "keys (Delete k) = {k}"
| "keys Version = {}"
| "keys (Other ws) = {}"

text \<open>The requests a client may make: a key is a word of at most 250 characters, a value has 2 to
  1599 bytes, and any other line has one or two words and is not quit.\<close>

definition plain_key :: "byte list \<Rightarrow> bool" where
  "plain_key k \<longleftrightarrow> word k \<and> NUL \<notin> set k \<and> length k \<le> 250"

fun proper :: "request \<Rightarrow> bool" where
  "proper (Store c k f v) = (plain_key k \<and> 2 \<le> length v \<and> length v < 1600)"
| "proper (Cas k f v u) = (plain_key k \<and> 2 \<le> length v \<and> length v < 1600)"
| "proper (Join c k f v) = (plain_key k \<and> 2 \<le> length v \<and> length v < 1600)"
| "proper (Get k) = plain_key k"
| "proper (Delete k) = plain_key k"
| "proper Version = True"
| "proper (Other ws) = (list_all word ws \<and> (\<forall>w \<in> set ws. NUL \<notin> set w \<and> length w \<le> 140) \<and>
     (length ws = 1 \<and> hd ws \<notin> {''quit'', ''version''} \<or> length ws = 2 \<and> hd ws \<notin> {''get'', ''delete''}))"

text \<open>The requests that do not take the server down or meet a version that has wrapped around to 0:
  the key of a cas is bound, that of a join has no version 0.\<close>

fun timely :: "request \<Rightarrow> cache \<Rightarrow> bool" where
  "timely (Cas k f v u) C = (bound C k \<noteq> None)"
| "timely (Join c k f v) C = (map_option snd (bound C k) \<noteq> Some 0)"
| "timely q C = True"

fun fitting :: "request list \<Rightarrow> cache \<Rightarrow> bool" where
  "fitting [] C = True"
| "fitting (q # qs) C = (proper q \<and> timely q C \<and> fitting qs (snd (serve q C)))"

text \<open>The requests for which the server takes memory, each a chunk it never gives back.\<close>

fun takes :: "request \<Rightarrow> nat" where
  "takes (Store c k f v) = 1"
| "takes (Cas k f v u) = 1"
| "takes (Join c k f v) = 1"
| "takes q = 0"

definition expense :: "request list \<Rightarrow> nat" where
  "expense qs = sum_list (map takes qs)"

lemma expense_simps [simp]: "expense [] = 0" "expense (q # qs) = takes q + expense qs"
  by (simp_all add: expense_def)

lemma separates_LF: "word w \<Longrightarrow> LF \<notin> set w"
  by (auto simp: word_def list_all_iff)

lemma word_dec: "word (dec n)"
  using dec_all_digits [of _ n] digit_not_sign by (auto simp: word_def list_all_iff separates_def)

lemma word_verb: "word (verb c)" "NUL \<notin> set (verb c)" "length (verb c) \<le> 7"
  by (cases c, simp_all add: word_def separates_def is_space_def char_val_def NUL_def)+

lemma word_joint: "word (joint c)" "NUL \<notin> set (joint c)" "length (joint c) \<le> 7" "joint c \<in> {''append'', ''prepend''}"
  by (cases c, simp_all add: word_def separates_def is_space_def char_val_def NUL_def)+

lemma verb_names: "verb c \<in> {''set'', ''add'', ''replace''}"
  by (cases c) simp_all

lemma word_names: "word ''cas''" "word ''get''" "word ''delete''" "word ''version''" "word ''0''"
  by (simp_all add: word_def separates_def is_space_def char_val_def)

lemma set_unwords: "set (unwords ws) \<subseteq> insert (CHR '' '') (\<Union> (set ` set ws))"
  by (induction ws rule: unwords.induct) auto

lemma length_unwords: "length (unwords ws) \<le> sum_list (map (\<lambda>w. Suc (length w)) ws)"
  by (induction ws rule: unwords.induct) auto

lemma line_words_ok:
  assumes "proper q"
  shows "list_all word (line_words q)" "\<forall>w \<in> set (line_words q). NUL \<notin> set w"
  using assms by (cases q; simp add: plain_key_def word_dec word_verb word_joint word_names dec_plain; simp add: NUL_def)+

lemma tokens_line: "proper q \<Longrightarrow> tokens (line_of q) = line_words q"
  using tokens_unwords_tail [OF line_words_ok(1), of q CR "[]"] by (simp add: line_of_def)

lemma length_line: "proper q \<Longrightarrow> length (line_of q) \<le> 300"
proof -
  assume q: "proper q"
  have n: "length (dec (unat f)) \<le> 10" for f :: u32
    using length_dec [of "unat f" 9] unsigned_less [where ?'a = nat, of f] by simp
  have u: "length (dec (unat u)) \<le> 20" for u :: u64
    using length_dec [of "unat u" 19] unsigned_less [where ?'a = nat, of u] by simp
  have d: "length (dec (length v - 2)) \<le> 4" if "length v < 1600" for v :: "byte list"
  proof -
    have "length v - 2 < 10 ^ Suc 3" using that by simp
    from length_dec [OF this] show ?thesis by simp
  qed
  have "sum_list (map (\<lambda>w. Suc (length w)) (line_words q)) \<le> 299"
  proof (cases q)
    case (Store c k f v)
    then show ?thesis using q word_verb(3) [of c] n [of f] d [of v] by (simp add: plain_key_def)
  next
    case (Cas k f v u)
    then show ?thesis using q u [of u] n [of f] d [of v] by (simp add: plain_key_def)
  next
    case (Join c k f v)
    then show ?thesis using q word_joint(3) [of c] n [of f] d [of v] by (simp add: plain_key_def)
  next
    case (Other ws)
    then have "length ws = 1 \<or> length ws = 2" "\<forall>w \<in> set ws. length w \<le> 140" using q by auto
    then show ?thesis using Other by (cases ws rule: unwords.cases) auto
  qed (use q in \<open>simp_all add: plain_key_def\<close>)
  then show ?thesis using length_unwords [of "line_words q"] by (simp add: line_of_def)
qed

lemma plain_line_of:
  assumes "proper q" and "rbuf_len c = READBUF_LEN"
  shows "plain_line (line_of q) c"
proof -
  have w: "\<forall>w \<in> set (line_words q). NUL \<notin> set w \<and> LF \<notin> set w"
    using line_words_ok [OF assms(1)] separates_LF by (auto simp: list_all_iff)
  have "NUL \<notin> set (unwords (line_words q)) \<and> LF \<notin> set (unwords (line_words q))"
    using w set_unwords [of "line_words q"] by (auto simp: NUL_def LF_def)
  moreover have "CR \<noteq> NUL" "CR \<noteq> LF" by (simp_all add: CR_def NUL_def LF_def)
  ultimately show ?thesis
    using length_line [OF assms(1)] assms(2) by (auto simp: plain_line_def line_of_def READBUF_LEN_def)
qed

section \<open>The server as an implementation of the cache\<close>

text \<open>The store of the server has the bindings of the abstract cache for the keys of the session,
  which lie in different buckets; no binding expires, and there is room for \<open>n\<close> more items.\<close>

definition lasting :: "(byte list \<times> u64) option \<Rightarrow> (byte list \<times> u32 \<times> u64) option" where
  "lasting x = map_option (\<lambda>(v, u). (v, 0, u)) x"

definition short :: "(byte list \<times> u64) option \<Rightarrow> bool" where
  "short x \<longleftrightarrow> (case x of None \<Rightarrow> True | Some (v, u) \<Rightarrow> length v < 1600)"

definition mirrors where
  "mirrors Ks n fl bl K m C \<longleftrightarrow> mc_inv fl bl K m \<and> unlocked m \<and> spare n fl m \<and>
     (\<forall>k \<in> Ks. \<forall>k' \<in> Ks. k \<noteq> k' \<longrightarrow> apart m k k') \<and>
     (\<forall>k \<in> Ks. stored bl m k = lasting (bound C k) \<and> short (bound C k)) \<and> last_cas_id m = version C"

lemma lasting_simps [simp]: "lasting None = None" "lasting (Some (v, u)) = Some (v, 0, u)"
  "lasting x = None \<longleftrightarrow> x = None"
  by (simp_all add: lasting_def)

lemma mirrors_live: "mirrors Ks n fl bl K m C \<Longrightarrow> k \<in> Ks \<Longrightarrow> live bl (m\<lparr>clock_reads := i\<rparr>) k = lasting (bound C k)"
  by (cases "bound C k") (auto simp: mirrors_def live_def stored_tick)

lemma mirrors_live_now: "mirrors Ks n fl bl K m C \<Longrightarrow> k \<in> Ks \<Longrightarrow> live bl m k = lasting (bound C k)"
  using mirrors_live [of Ks n fl bl K m C k "clock_reads m"] by simp

lemma mirrors_outcome:
  assumes m: "mirrors Ks n fl bl K m C" and k: "k \<in> Ks" and o: "outcome bl m k (lasting x) fl' bl' K' m'"
    and n': "spare n' fl' m"
    and x: "short x" and C': "C' = C\<lparr>bound := (bound C)(k := x), version := last_cas_id m'\<rparr>"
  shows "mirrors Ks n' fl' bl' K' m' C'"
proof -
  have w: "world m m'" using o by (simp add: outcome_def)
  have "stored bl' m' k' = lasting (bound C' k') \<and> short (bound C' k')" if "k' \<in> Ks" for k'
    using that m k o x by (cases "k' = k") (simp_all add: C' mirrors_def outcome_def put_at_def)
  then show ?thesis
    using m o spare_world [OF n' w] world_apart [OF w] outcome_unlocked [OF o]
    by (simp add: mirrors_def outcome_def C')
qed

lemma mirrors_room: "mirrors Ks (Suc n) fl bl K m C \<Longrightarrow> 0 < k \<Longrightarrow> k \<le> 2000 \<Longrightarrow> room fl m k"
  by (rule spare_room [of n]) (simp_all add: mirrors_def)

lemma applies_accepted: "applies (verb c) (lasting x) = accepted c x"
  by (cases c) (simp_all add: applies_def)

lemma sint_small: "n < 2 ^ 31 \<Longrightarrow> sint (of_nat n :: 32 word) = int n"
  by (simp add: signed_of_nat signed_take_bit_int_eq_self)

text \<open>What holds between two requests, with \<open>R\<close> for what holds of the connection: it is at rest, or ready
  for the next line.\<close>

definition waiting where
  "waiting R Ks n fl bl K C s \<longleftrightarrow> R (con s) \<and> rbuf_len (con s) = READBUF_LEN \<and> outp s = [] \<and>
     mirrors Ks n fl bl K (mach s) C"

definition answered_with where
  "answered_with Ks n s is r C' s' \<longleftrightarrow> thn drive_machine drive_machine s = Some (Inr ((), s')) \<and> inp s' = is \<and>
     (\<exists>bs. told r bs \<and> sent s' = sent s @ bs) \<and> (\<exists>fl bl K. waiting at_rest Ks n fl bl K C' s')"

text \<open>The numbers of a storage line are read back as they were meant.\<close>

lemma line_numbers:
  assumes "2 \<le> length v" and "length v < 1600"
  shows "safe_strtoul (dec (unat f)) = (True, f)" "safe_strtol ''0'' = (True, 0)"
    "safe_strtol (dec (length v - 2)) = (True, of_nat (length v - 2))" "safe_strtoull (dec (unat u)) = (True, u)"
    "sint (of_nat (length v - 2) :: 32 word) + 2 = int (length v)" "length v < 2 ^ 20"
proof -
  show "safe_strtoul (dec (unat f)) = (True, f)" "safe_strtol ''0'' = (True, 0)"
    "safe_strtol (dec (length v - 2)) = (True, of_nat (length v - 2))" "safe_strtoull (dec (unat u)) = (True, u)"
    using strtoul.parse_dec [of "unat f"] unsigned_less [where ?'a = int, of f] numbers_plain(2)
      strtol.parse_dec [of "length v - 2"] strtoull.parse_dec [of "unat u"] unsigned_less [where ?'a = int, of u] assms(2)
    by (simp_all add: accepts_u64_def accepts_s64_def)
  have "length v - 2 < 2 ^ 31" using assms by simp
  from sint_small [OF this] show "sint (of_nat (length v - 2) :: 32 word) + 2 = int (length v)" using assms by linarith
  show "length v < 2 ^ 20" using assms by simp
qed

lemma waitingD:
  assumes "waiting R Ks n fl bl K C s"
  shows "R (con s)" "rbuf_len (con s) = READBUF_LEN" "outp s = []" "mirrors Ks n fl bl K (mach s) C"
    "mc_inv fl bl K (mach s)" "unlocked (mach s)" "\<forall>i. alloc_ok (mach s) i" "last_cas_id (mach s) = version C"
    "k \<in> Ks \<Longrightarrow> stored bl (mach s) k = lasting (bound C k)" "k \<in> Ks \<Longrightarrow> short (bound C k)"
    "k \<in> Ks \<Longrightarrow> live bl ((mach s)\<lparr>clock_reads := i\<rparr>) k = lasting (bound C k)"
    "k \<in> Ks \<Longrightarrow> live bl (mach s) k = lasting (bound C k)" "spare n fl (mach s)"
proof -
  note w = assms [unfolded waiting_def]
  show "R (con s)" "rbuf_len (con s) = READBUF_LEN" "outp s = []" and m: "mirrors Ks n fl bl K (mach s) C"
    using w by simp_all
  show "mc_inv fl bl K (mach s)" "unlocked (mach s)" "\<forall>i. alloc_ok (mach s) i" "last_cas_id (mach s) = version C"
    "k \<in> Ks \<Longrightarrow> stored bl (mach s) k = lasting (bound C k)" "k \<in> Ks \<Longrightarrow> short (bound C k)" "spare n fl (mach s)"
    using m by (simp_all add: mirrors_def spare_def)
  show "k \<in> Ks \<Longrightarrow> live bl ((mach s)\<lparr>clock_reads := i\<rparr>) k = lasting (bound C k)"
    "k \<in> Ks \<Longrightarrow> live bl (mach s) k = lasting (bound C k)"
    by (rule mirrors_live [OF m], assumption) (rule mirrors_live_now [OF m])
qed

text \<open>A request whose outcome for its key is \<open>x\<close>, and which was answered with a text.\<close>

lemma answered_text:
  assumes w: "waiting R Ks m fl bl K C s" and k: "k \<in> Ks"
    and run: "thn drive_machine drive_machine s = Some (Inr ((), s'))" "at_rest (con s')" "inp s' = is" "outp s' = []"
      "rbuf_len (con s') = rbuf_len (con s)"
    and sent: "sent s' = sent s @ msg @ crlf" and o: "outcome bl (mach s) k (lasting x) fl' bl' K' (mach s')"
    and n: "spare n fl' (mach s)" and x: "short x" and r: "r = Text msg" and C': "C' = C\<lparr>bound := (bound C)(k := x), version := last_cas_id (mach s')\<rparr>"
  shows "answered_with Ks n s is r C' s'"
proof -
  note d = waitingD [OF w]
  have "waiting at_rest Ks n fl' bl' K' C' s'"
    using mirrors_outcome [OF d(4) k o n x C'] run d(2) by (simp add: waiting_def)
  then show ?thesis using run(1,3) sent r unfolding answered_with_def by force
qed

lemma put_eq: "put k f v C = C\<lparr>bound := (bound C)(k := if flags_lost f then None else Some (v, version C + 1)),
    version := counted (\<not> flags_lost f) (version C)\<rparr>"
  by (simp add: put_def)

lemma cache_same: "C = C\<lparr>bound := (bound C)(k := bound C k), version := version C\<rparr>"
  by simp

lemma store_request:
  assumes w: "waiting (ready (line_of (Store c k f v))) Ks (Suc n) fl bl K C s"
    and i: "inp s = asked (Store c k f v) @ is"
    and q: "proper (Store c k f v)" and k: "k \<in> Ks"
  shows "\<exists>s'. answered_with Ks n s is (fst (serve (Store c k f v) C)) (snd (serve (Store c k f v) C)) s'"
proof -
  note d = waitingD [OF w]
  have v: "2 \<le> length v" "length v < 1600" "length k \<le> 250" using q by (simp_all add: plain_key_def)
  note nums = line_numbers [OF v(1,2)]
  have room: "room fl (mach s) (57 + length k + length v)" using mirrors_room [OF d(4)] v by simp
  have i': "inp s = RdData (line_of (Store c k f v) @ [LF]) # RdData v # is" using i by (simp add: asked_def)
  let ?ok = "accepted c (bound C k)"
  obtain i t s' fl' bl' K' where t: "due 0 (mach s) i t"
      and s': "thn drive_machine drive_machine s = Some (Inr ((), s'))" "at_rest (con s')"
      "inp s' = is" "outp s' = []" "rbuf_len (con s') = rbuf_len (con s)" and sp: "spent fl fl'"
      and st: "sent s' = sent s @ (if ?ok then ''STORED'' else ''NOT_STORED'') @ crlf"
      and o: "outcome bl (mach s) k (if ?ok then if flags_lost f then None else Some (v, t, last_cas_id (mach s) + 1)
         else lasting (bound C k)) fl' bl' K' (mach s')"
      and n: "last_cas_id (mach s') = counted (?ok \<and> \<not> flags_lost f) (last_cas_id (mach s))"
    using storage_served [OF d(1) i' d(3) plain_line_of [OF q d(2)] tokens_line [OF q, unfolded line_words.simps] verb_names
        v(3) nums(1-3,5) v(1) nums(6) d(5-7) room]
    unfolding Let_def d(11) [OF k] applies_accepted by blast
  note n1 = spare_spent [OF d(13) sp]
  have t0: "t = 0" using due_zero [OF t] by simp
  show ?thesis
  proof (cases ?ok)
    case True
    let ?x = "if flags_lost f then None else Some (v, version C + 1)"
    have o1: "outcome bl (mach s) k (lasting ?x) fl' bl' K' (mach s')" using o True t0 d(8) by (simp split: if_splits)
    have "answered_with Ks n s is (Text ''STORED'') (put k f v C) s'"
      by (rule answered_text [OF w k s' _ o1 n1, of "''STORED''"])
        (use True st n d(8) v in \<open>simp_all add: put_eq short_def\<close>)
    then show ?thesis using True by auto
  next
    case False
    have o1: "outcome bl (mach s) k (lasting (bound C k)) fl' bl' K' (mach s')" using o False by simp
    have "answered_with Ks n s is (Text ''NOT_STORED'') C s'"
      by (rule answered_text [OF w k s' _ o1 n1, of "''NOT_STORED''"]) (use False st n d(8,10) k in simp_all)
    then show ?thesis using False by auto
  qed
qed

lemma cas_request:
  assumes w: "waiting (ready (line_of (Cas k f v u))) Ks (Suc n) fl bl K C s"
    and i: "inp s = asked (Cas k f v u) @ is"
    and q: "proper (Cas k f v u)" "timely (Cas k f v u) C" and k: "k \<in> Ks"
  shows "\<exists>s'. answered_with Ks n s is (fst (serve (Cas k f v u) C)) (snd (serve (Cas k f v u) C)) s'"
proof -
  note d = waitingD [OF w]
  have v: "2 \<le> length v" "length v < 1600" "length k \<le> 250" using q by (simp_all add: plain_key_def)
  note nums = line_numbers [OF v(1,2)]
  have room: "room fl (mach s) (57 + length k + length v)" using mirrors_room [OF d(4)] v by simp
  have i': "inp s = RdData (line_of (Cas k f v u) @ [LF]) # RdData v # is" using i by (simp add: asked_def)
  obtain x u0 where b: "bound C k = Some (x, u0)" using q(2) by auto
  have b': "stored bl (mach s) k = Some (x, 0, u0)" using d(9) [OF k] b by simp
  obtain i t s' fl' bl' K' where t: "due 0 (mach s) i t"
      and s': "thn drive_machine drive_machine s = Some (Inr ((), s'))" "at_rest (con s')"
      "inp s' = is" "outp s' = []" "rbuf_len (con s') = rbuf_len (con s)" and sp: "spent fl fl'"
      and st: "sent s' = sent s @ (if u = u0 then ''STORED'' else ''EXISTS'') @ crlf"
      and o: "outcome bl (mach s) k (if u \<noteq> u0 then Some (x, 0, u0)
         else if flags_lost f then None else Some (v, t, last_cas_id (mach s) + 1)) fl' bl' K' (mach s')"
      and n: "last_cas_id (mach s') = counted (u = u0 \<and> \<not> flags_lost f) (last_cas_id (mach s))"
    using cas_served [OF d(1) i' d(3) plain_line_of [OF q(1) d(2)] tokens_line [OF q(1), unfolded line_words.simps] nums(4)
        v(3) nums(1-3,5) v(1) nums(6) d(5-7) room b'] by blast
  note n1 = spare_spent [OF d(13) sp]
  have t0: "t = 0" using due_zero [OF t] by simp
  show ?thesis
  proof (cases "u = u0")
    case True
    let ?x = "if flags_lost f then None else Some (v, version C + 1)"
    have o1: "outcome bl (mach s) k (lasting ?x) fl' bl' K' (mach s')" using o True t0 d(8) by (simp split: if_splits)
    have "answered_with Ks n s is (Text ''STORED'') (put k f v C) s'"
      by (rule answered_text [OF w k s' _ o1 n1, of "''STORED''"])
        (use True st n d(8) v in \<open>simp_all add: put_eq short_def\<close>)
    then show ?thesis using True b by auto
  next
    case False
    have o1: "outcome bl (mach s) k (lasting (bound C k)) fl' bl' K' (mach s')" using o False b by simp
    have "answered_with Ks n s is (Text ''EXISTS'') C s'"
      by (rule answered_text [OF w k s' _ o1 n1, of "''EXISTS''"]) (use False st n d(8,10) k in simp_all)
    then show ?thesis using False b by auto
  qed
qed

lemma join_request:
  assumes w: "waiting (ready (line_of (Join c k f v))) Ks (Suc n) fl bl K C s"
    and i: "inp s = asked (Join c k f v) @ is"
    and q: "proper (Join c k f v)" "timely (Join c k f v) C" and k: "k \<in> Ks"
  shows "\<exists>s'. answered_with Ks n s is (fst (serve (Join c k f v) C)) (snd (serve (Join c k f v) C)) s'"
proof -
  note d = waitingD [OF w]
  have v: "2 \<le> length v" "length v < 1600" "length k \<le> 250" using q by (simp_all add: plain_key_def)
  note nums = line_numbers [OF v(1,2)]
  have room: "room fl (mach s) (57 + length k + length v)" using mirrors_room [OF d(4)] v by simp
  have i': "inp s = RdData (line_of (Join c k f v) @ [LF]) # RdData v # is" using i by (simp add: asked_def)
  have nz: "case stored bl (mach s) k of None \<Rightarrow> True | Some (x, e, u) \<Rightarrow> u \<noteq> 0"
    using d(9) [OF k] q(2) by (cases "bound C k") auto
  obtain i s' fl' bl' K' where s': "thn drive_machine drive_machine s = Some (Inr ((), s'))" "at_rest (con s')"
      "inp s' = is" "outp s' = []" "rbuf_len (con s') = rbuf_len (con s)" and sp: "spent fl fl'"
      and st: "sent s' = sent s @ ''NOT_STORED'' @ crlf" "last_cas_id (mach s') = last_cas_id (mach s)"
      and o: "outcome bl (mach s) k (lasting (bound C k)) fl' bl' K' (mach s')"
    using join_served [OF d(1) i' d(3) plain_line_of [OF q(1) d(2)] tokens_line [OF q(1), unfolded line_words.simps] word_joint(4)
        v(3) nums(1-3,5) v(1) nums(6) d(5-7) room nz]
    unfolding d(11) [OF k] by blast
  note n1 = spare_spent [OF d(13) sp]
  have "answered_with Ks n s is (Text ''NOT_STORED'') C s'"
    by (rule answered_text [OF w k s' st(1) o n1]) (use st(2) d(8,10) k in simp_all)
  then show ?thesis by auto
qed

lemma get_request:
  assumes w: "waiting (ready (line_of (Get k))) Ks n fl bl K C s"
    and i: "inp s = asked (Get k) @ is" and q: "proper (Get k)" and k: "k \<in> Ks"
  shows "\<exists>s'. answered_with Ks n s is (fst (serve (Get k) C)) (snd (serve (Get k) C)) s'"
proof -
  note d = waitingD [OF w]
  note r = d(1-3) and m = d(4) and mi = d(5,6,8) d(10) [OF k] and lv = d(12) [OF k]
  have i': "inp s = RdData (line_of (Get k) @ [LF]) # is" and kl: "length k \<le> 250"
    using i q by (simp_all add: plain_key_def asked_def)
  have len: "case live bl (mach s) k of None \<Rightarrow> True | Some (v, e, u) \<Rightarrow> length v < 1600"
    using mi(4) unfolding lv by (cases "bound C k") (auto simp: short_def)
  obtain s' bl' where s': "thn drive_machine drive_machine s = Some (Inr ((), s'))" "at_rest (con s')" "inp s' = is"
      "outp s' = []" "rbuf_len (con s') = rbuf_len (con s)" "last_cas_id (mach s') = last_cas_id (mach s)"
      and o: "outcome bl (mach s) k (lasting (bound C k)) fl bl' K (mach s')"
      and b: "case lasting (bound C k) of None \<Rightarrow> sent s' = sent s @ ''END'' @ crlf
        | Some (v, e, u) \<Rightarrow> \<exists>g z. g AND ITEM_LINKED \<noteq> 0 \<and>
          sent s' = sent s @ ''VALUE '' @ k @ '' '' @ dec (unat g) @ '' '' @ dec (length v) @ '' '' @ dec (unat u) @
            LF # v @ ''END'' @ crlf @ NUL # z \<and> length (sent s') = length (sent s) + 2048"
    using get_served [OF r(1) i' r(3) plain_line_of [OF q r(2)] tokens_line [OF q, unfolded line_words.simps] kl mi(1,2) len]
    unfolding lv by blast
  have "\<exists>bs. told (fst (serve (Get k) C)) bs \<and> sent s' = sent s @ bs"
    using b by (cases "bound C k") fastforce+
  moreover have "waiting at_rest Ks n fl bl' K (snd (serve (Get k) C)) s'"
    using mirrors_outcome [OF m k o d(13) mi(4) refl] s' r(2) mi(3) by (simp add: waiting_def)
  ultimately show ?thesis using s'(1,3) unfolding answered_with_def by blast
qed

lemma delete_request:
  assumes w: "waiting (ready (line_of (Delete k))) Ks n fl bl K C s"
    and i: "inp s = asked (Delete k) @ is" and q: "proper (Delete k)" and k: "k \<in> Ks"
  shows "\<exists>s'. answered_with Ks n s is (fst (serve (Delete k) C)) (snd (serve (Delete k) C)) s'"
proof -
  note d = waitingD [OF w]
  have i': "inp s = RdData (line_of (Delete k) @ [LF]) # is" using i by (simp add: asked_def)
  obtain s' bl' where s': "thn drive_machine drive_machine s = Some (Inr ((), s'))" "at_rest (con s')" "inp s' = is"
      "outp s' = []" "rbuf_len (con s') = rbuf_len (con s)" "last_cas_id (mach s') = last_cas_id (mach s)"
      "sent s' = sent s @ (if bound C k = None then ''NOT_FOUND'' else ''DELETED'') @ crlf"
      and o: "outcome bl (mach s) k None fl bl' K (mach s')"
    using delete_served [OF d(1) i' d(3) plain_line_of [OF q d(2)] tokens_line [OF q, unfolded line_words.simps] d(5,6)]
    unfolding d(12) [OF k] lasting_simps(3) by blast
  have o1: "outcome bl (mach s) k (lasting None) fl bl' K (mach s')" using o by simp
  show ?thesis
    by (rule exI, rule answered_text [OF w k s'(1-5) s'(7) o1 d(13)]) (use s'(6) d(8) in \<open>simp_all add: short_def\<close>)
qed

lemma version_request:
  assumes w: "waiting (ready (line_of Version)) Ks n fl bl K C s"
    and i: "inp s = asked Version @ is"
  shows "\<exists>s'. answered_with Ks n s is (fst (serve Version C)) (snd (serve Version C)) s'"
proof -
  have r: "ready (line_of Version) (con s)" "rbuf_len (con s) = READBUF_LEN" "outp s = []" and m: "mirrors Ks n fl bl K (mach s) C"
    using w by (simp_all add: waiting_def)
  have i': "inp s = RdData (line_of Version @ [LF]) # is" and q: "proper Version" using i by (simp_all add: asked_def)
  have tk: "tokens (line_of Version) = [''version'']" using tokens_line [OF q] by simp
  obtain s' where "thn drive_machine drive_machine s = Some (Inr ((), s'))" "at_rest (con s')" "mach s' = mach s"
     "inp s' = is" "outp s' = []" "rbuf_len (con s') = rbuf_len (con s)" "sent s' = sent s @ ''CGXR MEMCACHE version 1.0'' @ crlf"
    using plain_served [OF r(1) i' r(3) plain_line_of [OF q r(2)], of "''version''"] tk by auto
  then show ?thesis using m r(2) by (fastforce simp: answered_with_def waiting_def)
qed

lemma other_request:
  assumes w: "waiting (ready (line_of (Other ws))) Ks n fl bl K C s"
    and i: "inp s = asked (Other ws) @ is" and q: "proper (Other ws)"
  shows "\<exists>s'. answered_with Ks n s is (fst (serve (Other ws) C)) (snd (serve (Other ws) C)) s'"
proof -
  note d = waitingD [OF w]
  have i': "inp s = RdData (line_of (Other ws) @ [LF]) # is" using i by (simp add: asked_def)
  have tk: "tokens (line_of (Other ws)) = ws" using tokens_line [OF q] by simp
  have c: "(\<exists>x. ws = [x] \<and> x \<noteq> ''quit'' \<and> x \<noteq> ''version'') \<or> (\<exists>x y. ws = [x, y] \<and> x \<noteq> ''get'' \<and> x \<noteq> ''delete'')"
    using q by (cases ws rule: unwords.cases) (auto simp: length_Suc_conv numeral_2_eq_2)
  then have pc: "\<exists>x. tokens (line_of (Other ws)) = [x] \<and> x \<noteq> ''quit'' \<or>
      (\<exists>y. tokens (line_of (Other ws)) = [x, y] \<and> x \<noteq> ''get'' \<and> x \<noteq> ''delete'')" "ws \<noteq> [''version'']"
    unfolding tk by auto
  obtain s' where "thn drive_machine drive_machine s = Some (Inr ((), s'))" "at_rest (con s')" "mach s' = mach s"
     "inp s' = is" "outp s' = []" "rbuf_len (con s') = rbuf_len (con s)" "sent s' = sent s @ ''CLIENT_BAD_COMMAND'' @ crlf"
    using plain_served [OF d(1) i' d(3) plain_line_of [OF q d(2)]] pc unfolding tk by auto
  then show ?thesis using d(2,4) by (fastforce simp: answered_with_def waiting_def)
qed

lemma request_served:
  assumes "waiting (ready (line_of q)) Ks (takes q + n) fl bl K C s" and "inp s = asked q @ is" and "proper q" and "timely q C" and "keys q \<subseteq> Ks"
  shows "\<exists>s'. answered_with Ks n s is (fst (serve q C)) (snd (serve q C)) s'"
proof (cases q)
  case (Store c k f v)
  then show ?thesis using assms store_request [of c k f v Ks n fl bl K C s] by simp
next
  case (Cas k f v u)
  then show ?thesis using assms cas_request [of k f v u Ks n fl bl K C s] by simp
next
  case (Join c k f v)
  then show ?thesis using assms join_request [of c k f v Ks n fl bl K C s] by simp
next
  case (Get k)
  then show ?thesis using assms get_request [of k Ks n fl bl K C s] by simp
next
  case (Delete k)
  then show ?thesis using assms delete_request [of k Ks n fl bl K C s] by simp
next
  case (Other ws)
  then show ?thesis using assms other_request [of ws Ks n fl bl K C s] by simp
next
  case Version
  then show ?thesis using assms version_request [of Ks n fl bl K C s] by simp
qed

text \<open>The state machine of the connection, which takes two events for a request, keeps the contract.\<close>

definition heeds :: "request list \<Rightarrow> conn \<Rightarrow> bool" where
  "heeds qs c = (case qs of [] \<Rightarrow> at_rest c | q # _ \<Rightarrow> ready (line_of q) c)"

lemma at_rest_heeds:
  assumes "at_rest c" and "rbuf_len c = READBUF_LEN" and "fitting qs C"
  shows "heeds qs c"
proof (cases qs)
  case Nil
  then show ?thesis using assms(1) by (simp add: heeds_def)
next
  case (Cons q qs')
  then have "proper q" using assms(3) by simp
  then show ?thesis using at_rest_ready [OF assms(1) plain_line_of [of q c]] assms(2) Cons by (simp add: heeds_def)
qed

definition follows where
  "follows Ks n is qs C s \<longleftrightarrow> (\<exists>fl bl K. waiting (heeds qs) Ks (expense qs + n) fl bl K C s) \<and> inp s = concat (map asked qs) @ is \<and>
     fitting qs C \<and> (\<forall>q \<in> set qs. keys q \<subseteq> Ks)"

interpretation connection: conforming "follows Ks n is" serve "thn drive_machine drive_machine" sent told for Ks n "is"
proof unfold_locales
  fix q qs C and s :: net
  assume f: "follows Ks n is (q # qs) C s"
  have h: "heeds (q # qs) = ready (line_of q)" by (rule ext) (simp add: heeds_def)
  from f obtain fl bl K where w: "waiting (ready (line_of q)) Ks (takes q + (expense qs + n)) fl bl K C s"
    unfolding follows_def h by (auto simp: add.assoc)
  from f have i: "inp s = asked q @ (concat (map asked qs) @ is)" and q: "proper q" "timely q C" "keys q \<subseteq> Ks"
    and rest: "fitting qs (snd (serve q C))" "\<forall>q \<in> set qs. keys q \<subseteq> Ks"
    by (simp_all add: follows_def)
  obtain s' fl' bl' K' bs where s': "thn drive_machine drive_machine s = Some (Inr ((), s'))"
      "inp s' = concat (map asked qs) @ is" "told (fst (serve q C)) bs" "sent s' = sent s @ bs"
      "waiting at_rest Ks (expense qs + n) fl' bl' K' (snd (serve q C)) s'"
    using request_served [OF w i q] unfolding answered_with_def by blast
  have "waiting (heeds qs) Ks (expense qs + n) fl' bl' K' (snd (serve q C)) s'"
    using s'(5) at_rest_heeds [OF _ _ rest(1)] by (simp add: waiting_def)
  then show "\<exists>s' bs. thn drive_machine drive_machine s = Some (Inr ((), s')) \<and> sent s' = sent s @ bs \<and>
      told (fst (serve q C)) bs \<and> follows Ks n is qs (snd (serve q C)) s'"
    using s'(1-4) rest unfolding follows_def by blast
qed

section \<open>The session\<close>

lemma session_served:
  assumes "heeds qs (con s)" and "rbuf_len (con s) = READBUF_LEN" and "outp s = []"
    and "inp s = concat (map asked qs) @ is" and "fitting qs C" and "\<forall>q \<in> set qs. keys q \<subseteq> Ks"
    and "mirrors Ks (expense qs + n) fl bl K (mach s) C"
  shows "\<exists>s' bss fl' bl' K'. seqs (replicate (length qs) (thn drive_machine drive_machine)) s = Some (Inr ((), s')) \<and>
     at_rest (con s') \<and> inp s' = is \<and> sent s' = sent s @ concat bss \<and> list_all2 told (fst (serves qs C)) bss \<and>
     mirrors Ks n fl' bl' K' (mach s') (snd (serves qs C))"
proof -
  have "waiting (heeds qs) Ks (expense qs + n) fl bl K C s" using assms by (simp add: waiting_def)
  then have "follows Ks n is qs C s" using assms(4-6) by (auto simp: follows_def)
  from connection.session [OF this] show ?thesis by (fastforce simp: follows_def waiting_def heeds_def)
qed

text \<open>C1: A session refines the abstract cache. A client sends any sequence of the requests of the abstract
  cache (set, add, replace, cas, append, prepend, get, delete, version and other lines of one or two
  words), each when it has the answer to the one before. The keys lie in different buckets of the
  table, have at most 250 characters, and no binding expires; values have 2 to 1599 bytes with their
  line end; a cas is sent only for a bound key (for another the server faults); append and prepend
  are lines of five words, without a version, and are sent only for a key that does not have the
  version 0; the store has a free chunk for the item of each storage request, and \<open>n\<close> more. Then the
  server takes two events for each request, does not fault, and answers each as the abstract cache
  does, in the words of the code, which differ from those of the file protocol for version, stats
  and other lines. The answer is given byte for byte but for get, where the flag byte is only known
  to have its lowest bit and the bytes that fill the buffer behind the answer are any. In the end
  the server has the bindings and the version number of the abstract cache, room for \<open>n\<close> items, a
  sound store, every mutex free, and the connection is at rest.\<close>
theorem session_refines:
  assumes "at_rest (con s)" and "rbuf_len (con s) = READBUF_LEN" and "outp s = []"
    and "inp s = concat (map asked qs) @ is" and "fitting qs C" and "\<forall>q \<in> set qs. keys q \<subseteq> Ks"
    and "mirrors Ks (expense qs + n) fl bl K (mach s) C"
  shows "\<exists>s' bss fl' bl' K'. seqs (replicate (length qs) (thn drive_machine drive_machine)) s = Some (Inr ((), s')) \<and>
     at_rest (con s') \<and> inp s' = is \<and> sent s' = sent s @ concat bss \<and> list_all2 told (fst (serves qs C)) bss \<and>
     mirrors Ks n fl' bl' K' (mach s') (snd (serves qs C))"
  by (rule session_served [OF at_rest_heeds [OF assms(1,2,5)] assms(2-7)])

text \<open>A session over two keys, from an empty store.\<close>

definition demo_session :: "request list" where
  "demo_session = [Store Set_it ''a'' 0 (''one'' @ crlf), Store Add_it ''e'' 0 (''two'' @ crlf),
     Store Add_it ''a'' 0 (''six'' @ crlf), Cas ''a'' 0 (''ten'' @ crlf) 7, Cas ''a'' 0 (''ten'' @ crlf) 1,
     Join Append_it ''a'' 0 (''s'' @ crlf), Get ''a'', Delete ''a'', Get ''a'', Version, Other [''stats'']]"

definition demo_answers :: "response list" where
  "demo_answers = [Text ''STORED'', Text ''STORED'', Text ''NOT_STORED'', Text ''EXISTS'', Text ''STORED'', Text ''NOT_STORED'',
     Found ''a'' (''ten'' @ crlf) 3, Text ''DELETED'', Text ''END'', Text ''CGXR MEMCACHE version 1.0'',
     Text ''CLIENT_BAD_COMMAND'']"

definition empty_cache :: cache where
  "empty_cache = \<lparr>bound = Map.empty, version = 0\<rparr>"

lemma demo_index: "hash_index 16 (hash ''a'') \<noteq> hash_index 16 (hash ''e'')" "hash_index 16 (hash ''e'') \<noteq> hash_index 16 (hash ''a'')"
  unfolding demo_hashes by (simp_all add: hash_index_def hashmask_def hashsize_def)

lemma demo_apart: "hashpower (hashtable m) = 16 \<Longrightarrow> apart m ''a'' ''e'' \<and> apart m ''e'' ''a''"
  using demo_index by (simp add: apart_def)

lemma demo_session_facts: "fitting demo_session empty_cache" "\<forall>q \<in> set demo_session. keys q \<subseteq> {''a'', ''e''}"
  "fst (serves demo_session empty_cache) = demo_answers" "length demo_session = 11" "expense demo_session = 6"
  by (simp_all add: demo_session_def demo_answers_def empty_cache_def put_def flags_lost_def plain_key_def word_def separates_def
      is_space_def char_val_def NUL_def)

lemma session_refines_witness:
  "\<exists>s s' bss. seqs (replicate 11 (thn drive_machine drive_machine)) s = Some (Inr ((), s')) \<and>
     sent s' = concat bss \<and> list_all2 told demo_answers bss"
proof -
  obtain m fl where m: "mc_inv fl (\<lambda>_. []) {} m" "stored (\<lambda>_. []) m = Map.empty" "unlocked m" "roomy m"
      "hashpower (hashtable m) = 16" "last_cas_id m = 0"
    by (rule demo_server_power)
  let ?s = "demo_net m (concat (map asked demo_session) @ []) []"
  have mi: "mirrors {''a'', ''e''} (expense demo_session + 0) fl (\<lambda>_. []) {} (mach ?s) empty_cache"
    using m demo_apart [OF m(5)] roomy_spare [OF m(4,1)] by (simp add: mirrors_def short_def empty_cache_def)
  have "\<exists>s' bss. seqs (replicate (length demo_session) (thn drive_machine drive_machine)) ?s = Some (Inr ((), s')) \<and>
      sent s' = concat bss \<and> list_all2 told demo_answers bss"
    using session_refines [OF _ _ _ _ demo_session_facts(1,2) mi, of "[]"]
    unfolding demo_session_facts(3) by (auto simp: READBUF_LEN_def)
  then show ?thesis unfolding demo_session_facts(4) by blast
qed

end
