(* ===== verification/Socket.thy ===== *)
theory Socket
  imports Machine
begin

text \<open>
  The listening socket (socket.h, socket.cpp): the system calls its constructor makes, in order,
  with their arguments, and what becomes of the server when one of them fails. What the calls
  return is given from outside; what the code prints is left out.
\<close>

section \<open>System calls\<close>

datatype domain = AF_INET | AF_UNIX
datatype sockopt = TCP_NODELAY | SO_REUSEADDR | SO_KEEPALIVE | SO_LINGER

text \<open>An address as the kernel is given it: port and address in network order, or the bytes of a path.\<close>

datatype sockaddr = InAddr "16 word" "32 word" | UnAddr "byte list"

text \<open>An option is set to an integer, with the length the call is told it has.\<close>

datatype syscall =
    SysUnlink "string option"
  | SysSocket domain
  | SysGetFlags int
  | SysSetFlags int int
  | SysSetsockopt int sockopt int nat
  | SysBind int sockaddr
  | SysListen int int
  | SysClose int

text \<open>\<open>sys_results\<close> is what the next calls return, 0 when it has run out; \<open>sys_trace\<close> is what has
  been called, with the results.\<close>

record host =
  sys_results :: "int list"
  sys_trace :: "(syscall \<times> int) list"

definition sys :: "syscall \<Rightarrow> (host, int) prog" where
  "sys c = bnd (gets sys_results) (\<lambda>rs. let r = (case rs of [] \<Rightarrow> 0 | r # _ \<Rightarrow> r) in
     thn (modify (\<lambda>h. h\<lparr>sys_results := tl rs, sys_trace := sys_trace h @ [(c, r)]\<rparr>)) (ret r))"

section \<open>Options\<close>

definition O_NONBLOCK :: int where "O_NONBLOCK = 2048"

definition set_nonblock :: "int \<Rightarrow> (host, bool) prog" where
  "set_nonblock fd = bnd (sys (SysGetFlags fd)) (\<lambda>flag.
     if flag < 0 then ret False
     else bnd (sys (SysSetFlags fd (flag OR O_NONBLOCK))) (\<lambda>r. ret (\<not> r < 0)))"

text \<open>The length given for the options is that of the pointer. When all three calls succeed the end
  of the function is reached without a value.\<close>

definition set_reuse_linger_keepalive :: "int \<Rightarrow> int \<Rightarrow> (host, int) prog" where
  "set_reuse_linger_keepalive fd flag =
     bnd (sys (SysSetsockopt fd SO_REUSEADDR flag 8)) (\<lambda>e. if e \<noteq> 0 then ret (- 1)
     else bnd (sys (SysSetsockopt fd SO_KEEPALIVE flag 8)) (\<lambda>e. if e \<noteq> 0 then ret (- 2)
     else bnd (sys (SysSetsockopt fd SO_LINGER flag 8)) (\<lambda>e. if e \<noteq> 0 then ret (- 3)
     else fail MissingReturn)))"

section \<open>Addresses\<close>

text \<open>\<open>htons\<close> on a little-endian machine.\<close>

definition htons :: "16 word \<Rightarrow> 16 word" where
  "htons w = push_bit 8 w OR drop_bit 8 w"

lemma htons_htons: "htons (htons w) = w"
proof -
  have "bit (htons (htons w)) n = bit w n" if "n < 16" for n
    using that by (auto simp: htons_def bit_simps not_less)
  then show ?thesis by (intro bit_word_eqI) simp
qed

definition INADDR_ANY :: "16 word" where "INADDR_ANY = 0"

text \<open>\<open>strncpy\<close> of the whole name into the 108 bytes of \<open>sun_path\<close>, which have been zeroed.\<close>

definition sun_path_len :: nat where "sun_path_len = 108"

definition sun_path_of :: "string option \<Rightarrow> (host, byte list) prog" where
  "sun_path_of name = (case name of None \<Rightarrow> fail NullDeref
     | Some f \<Rightarrow> if length f \<le> sun_path_len then ret (blit (replicate sun_path_len (CHR 0x00)) 0 f)
         else fail BufferOverrun)"

section \<open>The two sockets\<close>

definition close_and_exit :: "int \<Rightarrow> (host, 'a) prog" where
  "close_and_exit fd = thn (sys (SysClose fd)) (fail (ExitProcess 1))"

definition socket_tcp :: "settings \<Rightarrow> (host, int) prog" where
  "socket_tcp st = bnd (sys (SysSocket AF_INET)) (\<lambda>fd.
     if fd = - 1 then fail (ExitProcess 1)
     else bnd (set_nonblock fd) (\<lambda>ok.
     if \<not> ok then fail (ExitProcess 1)
     else bnd (sys (SysSetsockopt fd TCP_NODELAY 1 4)) (\<lambda>_.
     bnd (sys (SysBind fd (InAddr (htons (of_int (port st))) (ucast (htons INADDR_ANY))))) (\<lambda>r.
     if r = - 1 then close_and_exit fd
     else bnd (sys (SysListen fd (backlog st))) (\<lambda>r.
     if r = - 1 then close_and_exit fd
     else ret fd)))))"

text \<open>After a failed \<open>bind\<close> or \<open>listen\<close> the socket is closed and the code goes on.\<close>

definition socket_unix :: "settings \<Rightarrow> (host, int) prog" where
  "socket_unix st = bnd (sys (SysUnlink (unix_filename st))) (\<lambda>_.
     bnd (sun_path_of (unix_filename st)) (\<lambda>path.
     bnd (sys (SysSocket AF_UNIX)) (\<lambda>fd.
     if fd < 0 then fail (ExitProcess 1)
     else bnd (set_reuse_linger_keepalive fd 1) (\<lambda>r.
     if r < 0 then fail (ExitProcess 1)
     else bnd (sys (SysBind fd (UnAddr path))) (\<lambda>r. thn (whenP (r < 0) (bnd (sys (SysClose fd)) (\<lambda>_. ret ())))
     (bnd (sys (SysListen fd (backlog st))) (\<lambda>r. thn (whenP (r < 0) (bnd (sys (SysClose fd)) (\<lambda>_. ret ())))
     (ret fd))))))))"

text \<open>The constructor \<open>Socket(net_or_local, mem_setting)\<close>, the default one, and \<open>c_socket\<close>: the value
  is the descriptor.\<close>

definition socket_ctor :: "int \<Rightarrow> settings \<Rightarrow> (host, int) prog" where
  "socket_ctor model st = (if model \<noteq> 0 then socket_tcp st else socket_unix st)"

definition socket_default_ctor :: "(host, int) prog" where
  "socket_default_ctor = socket_tcp (default_settings\<lparr>port := 11211\<rparr>)"

section \<open>Properties\<close>

text \<open>The calls of a constructor that succeeds.\<close>

definition tcp_calls :: "settings \<Rightarrow> int \<Rightarrow> int \<Rightarrow> syscall list" where
  "tcp_calls st fd flags = [SysSocket AF_INET, SysGetFlags fd, SysSetFlags fd (flags OR O_NONBLOCK),
     SysSetsockopt fd TCP_NODELAY 1 4, SysBind fd (InAddr (htons (of_int (port st))) 0), SysListen fd (backlog st)]"

lemma htons_any: "ucast (htons INADDR_ANY) = (0 :: 32 word)"
  by (simp add: htons_def INADDR_ANY_def)

lemma tcp_socket_run:
  assumes "sys_results h = [fd, flags, r3, r4, r5, r6] @ rs"
  shows "socket_tcp st h = (if fd = - 1 \<or> flags < 0 \<or> r3 < 0 \<or> r5 = - 1 \<or> r6 = - 1 then Some (Inl (ExitProcess 1))
     else Some (Inr (fd, h\<lparr>sys_results := rs, sys_trace := sys_trace h @ zip (tcp_calls st fd flags) [fd, flags, r3, r4, r5, r6]\<rparr>)))"
  using assms by (simp add: socket_tcp_def set_nonblock_def close_and_exit_def sys_def prog_defs tcp_calls_def htons_any Let_def)

text \<open>C27: The network socket is made by exactly six calls, in the order in which it has to be: it is
  created, made non-blocking by adding the flag to those it had, and bound to the port of the
  settings in network order before it listens. Whenever one of them but the setting of TCP_NODELAY
  fails the server exits, so that no caller is ever given a descriptor that does not listen.\<close>
theorem tcp_socket_listens:
  assumes "sys_results h = [fd, flags, r3, r4, r5, r6] @ rs"
  shows "socket_tcp st h = (if fd = - 1 \<or> flags < 0 \<or> r3 < 0 \<or> r5 = - 1 \<or> r6 = - 1 then Some (Inl (ExitProcess 1))
     else Some (Inr (fd, h\<lparr>sys_results := rs, sys_trace := sys_trace h @ zip (tcp_calls st fd flags) [fd, flags, r3, r4, r5, r6]\<rparr>))) \<and>
     bit (flags OR O_NONBLOCK) 11 \<and> htons (htons (of_int (port st))) = of_int (port st)"
proof (intro conjI)
  show "socket_tcp st h = (if fd = - 1 \<or> flags < 0 \<or> r3 < 0 \<or> r5 = - 1 \<or> r6 = - 1 then Some (Inl (ExitProcess 1))
     else Some (Inr (fd, h\<lparr>sys_results := rs, sys_trace := sys_trace h @ zip (tcp_calls st fd flags) [fd, flags, r3, r4, r5, r6]\<rparr>)))"
    by (rule tcp_socket_run [OF assms])
  have "bit O_NONBLOCK 11" by (simp add: O_NONBLOCK_def bit_iff_odd)
  then show "bit (flags OR O_NONBLOCK) 11" by (simp add: bit_or_iff)
qed (rule htons_htons)

lemma tcp_socket_listens_witness:
  "\<exists>h'. socket_tcp default_settings \<lparr>sys_results = [3, 2, 0, 0, 0, 0], sys_trace = []\<rparr> = Some (Inr (3, h')) \<and>
     (SysSetFlags 3 2050, 0) \<in> set (sys_trace h') \<and>
     socket_tcp default_settings \<lparr>sys_results = [3, 2, 0, 0, - 1, 0], sys_trace = []\<rparr> = Some (Inl (ExitProcess 1))"
  using tcp_socket_listens [of "\<lparr>sys_results = [3, 2, 0, 0, 0, 0], sys_trace = []\<rparr>" 3 2 0 0 0 0 "[]" default_settings]
    tcp_socket_listens [of "\<lparr>sys_results = [3, 2, 0, 0, - 1, 0], sys_trace = []\<rparr>" 3 2 0 0 "- 1" 0 "[]" default_settings]
  by (simp add: tcp_calls_def O_NONBLOCK_def)

text \<open>The local socket can never be made, whatever the settings and the system calls return:
  without a file name a null pointer is read, a name of more than 108 bytes runs over the address,
  a failing call ends the server, and when all of them succeed the function that sets the options
  ends without returning the value its caller tests.\<close>
theorem unix_socket_never_made:
  "\<exists>e. socket_unix st h = Some (Inl e) \<and> e \<in> {NullDeref, BufferOverrun, ExitProcess 1, MissingReturn}"
proof (cases "unix_filename st")
  case None
  then show ?thesis by (simp add: socket_unix_def sun_path_of_def sys_def prog_defs Let_def)
next
  case (Some f)
  then show ?thesis
    by (cases "length f \<le> sun_path_len")
      (auto simp: socket_unix_def sun_path_of_def set_reuse_linger_keepalive_def sys_def prog_defs Let_def)
qed

end
