(* ===== verification/Server.thy ===== *)
theory Server
  imports Socket Startup Session
begin

text \<open>
  The server as a whole: \<open>main\<close> and \<open>socket_init\<close> (memcached.cpp), the connection a worker makes of
  what the listening thread hands it (\<open>thread_libev_process\<close> in thread.cpp), and the path of a
  client from the start of the process to the answer to its commands.
\<close>

section \<open>State\<close>

record server =
  s_host :: host
  s_net :: net

definition on_host :: "(host, 'a) prog \<Rightarrow> (server, 'a) prog" where
  "on_host m = (\<lambda>s. case m (s_host s) of None \<Rightarrow> None | Some (Inl e) \<Rightarrow> Some (Inl e)
     | Some (Inr (x, h)) \<Rightarrow> Some (Inr (x, s\<lparr>s_host := h\<rparr>)))"

definition on_net :: "(net, 'a) prog \<Rightarrow> (server, 'a) prog" where
  "on_net m = (\<lambda>s. case m (s_net s) of None \<Rightarrow> None | Some (Inl e) \<Rightarrow> Some (Inl e)
     | Some (Inr (x, n)) \<Rightarrow> Some (Inr (x, s\<lparr>s_net := n\<rparr>)))"

lemma on_host_run: "m (s_host s) = Some (Inr (x, h)) \<Longrightarrow> on_host m s = Some (Inr (x, s\<lparr>s_host := h\<rparr>))"
  by (simp add: on_host_def)

lemma on_net_run: "m (s_net s) = Some (Inr (x, n)) \<Longrightarrow> on_net m s = Some (Inr (x, s\<lparr>s_net := n\<rparr>))"
  by (simp add: on_net_def)

lemma on_disp_run: "m (disp s) = Some (Inr (x, d)) \<Longrightarrow> on_disp m s = Some (Inr (x, s\<lparr>disp := d\<rparr>))"
  by (simp add: on_disp_def)

section \<open>main\<close>

definition MODEL_NET :: int where "MODEL_NET = 1"
definition MODEL_LOCAL :: int where "MODEL_LOCAL = 0"

definition main_settings :: "settings \<Rightarrow> settings" where
  "main_settings st = st\<lparr>num_threads := 1, port := 11211, net_or_local := MODEL_NET, backlog := 1024\<rparr>"

text \<open>The settings are read by the workers' dispatch as well.\<close>

definition set_settings :: "(net, unit) prog" where
  "set_settings = modify (\<lambda>n. n\<lparr>mach := (mach n)\<lparr>mem_setting := main_settings (mem_setting (mach n))\<rparr>,
     disp := (disp n)\<lparr>d_num_threads := num_threads (main_settings (mem_setting (mach n)))\<rparr>\<rparr>)"

definition socket_init :: "nat \<Rightarrow> conn \<Rightarrow> (server, unit) prog" where
  "socket_init loop uninit = bnd (gets (\<lambda>s. mem_setting (mach (s_net s)))) (\<lambda>st.
     if net_or_local st \<noteq> 0
     then bnd (on_host (socket_ctor MODEL_NET st)) (\<lambda>fd. on_net (conn_ctor uninit (make_item loop fd conn_listening EV_READ) 1))
     else bnd (on_host (socket_ctor MODEL_LOCAL st)) (\<lambda>fd. on_net (conn_ctor uninit (make_item loop fd conn_listening EV_READ) 1)))"

definition server_main :: "bool \<Rightarrow> conn \<Rightarrow> (server, unit) prog" where
  "server_main pipe_ok uninit = thn (on_net set_settings)
     (bnd (on_net (on_disp main_ev_init)) (\<lambda>loop.
      bnd (gets (\<lambda>s. num_threads (mem_setting (mach (s_net s))))) (\<lambda>n.
      thn (on_net (on_disp (thread_init n pipe_ok)))
      (socket_init loop uninit))))"

text \<open>The connection a worker makes when its pipe is readable, with the buffer for lines of
  \<open>READBUF_LEN\<close> bytes.\<close>

definition worker_event :: "nat \<Rightarrow> conn \<Rightarrow> (net, unit) prog" where
  "worker_event i uninit = bnd (gets (\<lambda>n. length (w_conns (workthreads (disp n) ! i)))) (\<lambda>k.
     thn (on_disp (thread_libev_process i))
     (bnd (gets (\<lambda>n. drop k (w_conns (workthreads (disp n) ! i)))) (\<lambda>made. case made of
       [] \<Rightarrow> ret ()
     | item # _ \<Rightarrow> conn_ctor uninit item READBUF_LEN)))"

section \<open>Start\<close>

text \<open>The connection the constructor makes, when memory is granted.\<close>

definition fresh_conn :: "conn \<Rightarrow> conn_item \<Rightarrow> int \<Rightarrow> byte list \<Rightarrow> byte list \<Rightarrow> conn" where
  "fresh_conn uninit i read_len rb wb = uninit\<lparr> sfd := item_sfd i, c_state := item_state i, c_flag := item_evflag i,
     rbuf_len := read_len, wbuf_len := WRITEBUF_LEN,
     rbuf := rb, rbuf_now := 0, rbuf_rlen := 0, rnbuf_rlen := 0, rnbuf_len := 0, rnbuf := [],
     wbuf := wb, wbuf_now := 0, wbuf_wlen := 0, flag_stop := False,
     read_watched := True, write_watched := False, fd_open := True \<rparr>"

lemma conn_ctor_run:
  assumes "\<forall>k. alloc_ok (mach n) k"
  shows "conn_ctor uninit i read_len n = Some (Inr ((), n\<lparr>
     mach := (mach n)\<lparr>alloc_calls := Suc (Suc (alloc_calls (mach n)))\<rparr>,
     con := fresh_conn uninit i read_len (map (junk n (alloc_calls (mach n))) [0..<nat read_len])
       (map (junk n (Suc (alloc_calls (mach n)))) [0..<2048])\<rparr>))"
proof -
  have a: "alloc_ok (mach n) k" for k using assms by blast
  show ?thesis
    by (simp add: conn_ctor_def new_buf_def bnd_def thn_def gets_def modify_def ret_def a modc_run fresh_conn_def WRITEBUF_LEN_def)
qed

text \<open>The state in which \<open>main\<close> enters its event loop.\<close>

definition listening :: "machine \<Rightarrow> int \<Rightarrow> server \<Rightarrow> bool" where
  "listening m fd s \<longleftrightarrow> (let n = s_net s in
     (\<exists>j. mach n = m\<lparr>mem_setting := main_settings (mem_setting m), alloc_calls := j\<rparr>) \<and>
     disp n = started 1 \<and> sfd (con n) = fd \<and> c_state (con n) = conn_listening \<and>
     \<not> flag_stop (con n) \<and> read_watched (con n) \<and> fd_open (con n))"

definition same_events :: "net \<Rightarrow> net \<Rightarrow> bool" where
  "same_events n n' \<longleftrightarrow> inp n' = inp n \<and> outp n' = outp n \<and> sent n' = sent n \<and> accepts n' = accepts n \<and> junk n' = junk n"

lemma server_main_run:
  assumes ok: "\<forall>k. alloc_ok (mach (s_net s)) k" and d: "disp (s_net s) = dispatcher_init"
    and calls: "sys_results (s_host s) = [fd, flags, r3, r4, r5, r6] @ rs" "fd \<noteq> - 1" "0 \<le> flags" "0 \<le> r3" "r5 \<noteq> - 1" "r6 \<noteq> - 1"
  shows "\<exists>s'. server_main True uninit s = Some (Inr ((), s')) \<and> listening (mach (s_net s)) fd s' \<and>
     sys_results (s_host s') = rs \<and>
     sys_trace (s_host s') = sys_trace (s_host s) @
       zip (tcp_calls (main_settings (mem_setting (mach (s_net s)))) fd flags) [fd, flags, r3, r4, r5, r6] \<and>
     same_events (s_net s) (s_net s')"
proof -
  let ?m = "mach (s_net s)"
  let ?st = "main_settings (mem_setting ?m)"
  let ?n1 = "(s_net s)\<lparr>mach := ?m\<lparr>mem_setting := ?st\<rparr>, disp := dispatcher_init\<lparr>d_num_threads := 1\<rparr>\<rparr>"
  let ?n2 = "?n1\<lparr>disp := started 1\<rparr>"
  have 1: "on_net set_settings s = Some (Inr ((), s\<lparr>s_net := ?n1\<rparr>))"
    by (rule on_net_run) (simp add: set_settings_def modify_def d main_settings_def)
  have i: "bnd main_ev_init (\<lambda>l. thread_init 1 True) (dispatcher_init\<lparr>d_num_threads := 1\<rparr>) = Some (Inr ((), started 1))"
    by (rule start_run)
  obtain l d1 where l: "main_ev_init (dispatcher_init\<lparr>d_num_threads := 1\<rparr>) = Some (Inr (l, d1))"
    by (simp add: main_ev_init_def prog_defs)
  have t: "thread_init 1 True d1 = Some (Inr ((), started 1))" using i by (simp add: bnd_run [of main_ev_init, OF l])
  have 2: "on_net (on_disp main_ev_init) (s\<lparr>s_net := ?n1\<rparr>) = Some (Inr (l, s\<lparr>s_net := ?n1\<lparr>disp := d1\<rparr>\<rparr>))"
    using l by (simp add: on_net_def on_disp_def)
  have 3: "on_net (on_disp (thread_init 1 True)) (s\<lparr>s_net := ?n1\<lparr>disp := d1\<rparr>\<rparr>) = Some (Inr ((), s\<lparr>s_net := ?n2\<rparr>))"
    using t by (simp add: on_net_def on_disp_def)
  have nt: "num_threads ?st = 1" "net_or_local ?st \<noteq> 0" by (simp_all add: main_settings_def MODEL_NET_def)
  have "server_main True uninit s = socket_init l uninit (s\<lparr>s_net := ?n2\<rparr>)"
    unfolding server_main_def thn_run [of "on_net set_settings" s, OF 1]
      bnd_run [of "on_net (on_disp main_ev_init)" "s\<lparr>s_net := ?n1\<rparr>", OF 2]
    using nt(1) 3 by (simp add: bnd_def gets_def thn_def)
  moreover have "\<exists>s'. socket_init l uninit (s\<lparr>s_net := ?n2\<rparr>) = Some (Inr ((), s')) \<and> listening ?m fd s' \<and>
     sys_results (s_host s') = rs \<and> sys_trace (s_host s') = sys_trace (s_host s) @ zip (tcp_calls ?st fd flags) [fd, flags, r3, r4, r5, r6] \<and>
     same_events (s_net s) (s_net s')"
  proof -
    let ?h = "(s_host s)\<lparr>sys_results := rs, sys_trace := sys_trace (s_host s) @ zip (tcp_calls ?st fd flags) [fd, flags, r3, r4, r5, r6]\<rparr>"
    have h: "socket_ctor MODEL_NET ?st (s_host s) = Some (Inr (fd, ?h))"
      using calls tcp_socket_run [OF calls(1), of ?st] by (simp add: socket_ctor_def MODEL_NET_def)
    have ok2: "\<forall>k. alloc_ok (mach ?n2) k" using ok by simp
    note c = conn_ctor_run [OF ok2, of uninit "make_item l fd conn_listening EV_READ" 1]
    show ?thesis
      using nt(2) h c
      by (simp add: socket_init_def bnd_def gets_def on_host_def on_net_def listening_def Let_def fresh_conn_def make_item_def same_events_def)
        blast
  qed
  ultimately show ?thesis by simp
qed

section \<open>The first client\<close>

text \<open>The event in which the listening socket has a client: it is handed to the one worker.\<close>

definition with_client :: "int \<Rightarrow> dispatcher \<Rightarrow> dispatcher" where
  "with_client cfd d = d\<lparr>workthreads := (workthreads d)[0 := (hd (workthreads d))\<lparr>item_queue := (item_queue (hd (workthreads d)))
     \<lparr>data_queue := data_queue (item_queue (hd (workthreads d))) @ [make_item (w_loop (hd (workthreads d))) cfd conn_read EV_READ]\<rparr>\<rparr>],
     pipe := pipe d @ ''c''\<rparr>"

lemma accept_event:
  assumes c: "c_state (con n) = conn_listening" "\<not> flag_stop (con n)" "fd_open (con n)"
    and a: "accepts n = AcClient cfd True # as" and d: "only_first (disp n)"
  shows "drive_machine n = Some (Inr ((), n\<lparr>accepts := as, disp := with_client cfd (disp n),
     con := (con n)\<lparr>flag_stop := False\<rparr>\<rparr>))"
proof -
  let ?n1 = "n\<lparr>accepts := as, disp := with_client cfd (disp n), con := (con n)\<lparr>flag_stop := True\<rparr>\<rparr>"
  have "listen_step n = Some (Inr ((), ?n1))"
    using c(3) a dispatch_run_first [OF d, of cfd conn_read EV_READ]
    by (simp add: listen_step_def sock_accept_def bnd_def thn_def getc_run gets_def modify_def ret_def on_disp_def set_stop_def
        modc_run seqs.simps with_client_def)
  then have "drive_step n = Some (Inr ((), ?n1))" using c(1) by (simp add: drive_step_state)
  then have "drive_loop n = Some (Inr ((), ?n1))"
    using drive_loop_go [OF c(2)] drive_loop_stop [of ?n1] by simp
  then show ?thesis using drive_machine_stops [of n ?n1] by simp
qed

text \<open>The event in which the worker makes the connection.\<close>

lemma worker_event_run:
  assumes d: "only_first d" "w_conns (hd (workthreads d)) = []" "data_queue (item_queue (hd (workthreads d))) = []" "pipe d = []"
    and n: "disp n = with_client cfd d" and ok: "\<forall>k. alloc_ok (mach n) k"
  shows "\<exists>d' j. worker_event 0 uninit n = Some (Inr ((), n\<lparr>mach := (mach n)\<lparr>alloc_calls := j\<rparr>, disp := d',
     con := fresh_conn uninit (make_item (w_loop (hd (workthreads d))) cfd conn_read EV_READ) READBUF_LEN
       (map (junk n (alloc_calls (mach n))) [0..<2048]) (map (junk n (Suc (alloc_calls (mach n)))) [0..<2048])\<rparr>))"
proof -
  have ws: "workthreads d \<noteq> []" "list_all (\<lambda>w. \<not> mut (item_queue w)) (workthreads d)"
    using d(1) by (simp_all add: only_first_def)
  then obtain w0 wr where w: "workthreads d = w0 # wr" by (cases "workthreads d") auto
  have w0: "w_conns w0 = []" "data_queue (item_queue w0) = []" "\<not> mut (item_queue w0)" "list_all (\<lambda>w. \<not> mut (item_queue w)) wr"
    using d(2,3) ws w by simp_all
  let ?i = "make_item (w_loop w0) cfd conn_read EV_READ"
  have dn: "workthreads (disp n) = w0\<lparr>item_queue := (item_queue w0)\<lparr>data_queue := [?i]\<rparr>\<rparr> # wr" "pipe (disp n) = ''c''"
    using n w w0 d(4) by (simp_all add: with_client_def)
  let ?d = "(disp n)\<lparr>pipe := [], workthreads := w0\<lparr>item_queue := (item_queue w0)\<lparr>data_queue := []\<rparr>, w_conns := [?i]\<rparr> # wr\<rparr>"
  have t: "thread_libev_process 0 (disp n) = Some (Inr ((), ?d))"
    using serve_run [of "disp n" 0] dn w0 by simp
  have ok': "\<forall>k. alloc_ok (mach (n\<lparr>disp := ?d\<rparr>)) k" using ok by simp
  note c = conn_ctor_run [OF ok', of uninit ?i READBUF_LEN]
  have "worker_event 0 uninit n = conn_ctor uninit ?i READBUF_LEN (n\<lparr>disp := ?d\<rparr>)"
    using t dn w0(1) by (simp add: worker_event_def bnd_def thn_def gets_def on_disp_def)
  then show ?thesis
    unfolding c using w
    by (intro exI [of _ ?d] exI [of _ "Suc (Suc (alloc_calls (mach n)))"]) (simp add: READBUF_LEN_def)
qed

lemma fresh_conn_rest:
  "item_state i = conn_read \<Longrightarrow> length rb = 2048 \<Longrightarrow> length wb = 2048 \<Longrightarrow>
   resting (fresh_conn uninit i READBUF_LEN rb wb)"
  by (simp add: resting_def fresh_conn_def out_idle_def READBUF_LEN_def WRITEBUF_LEN_def)

text \<open>The settings and the counters are no part of the invariant of the store.\<close>

definition with_settings :: "settings \<Rightarrow> nat \<Rightarrow> machine \<Rightarrow> machine" where
  "with_settings st j m = m\<lparr>mem_setting := st, alloc_calls := j\<rparr>"

lemma with_settings_simps [simp]:
  "heap (with_settings st j m) = heap m" "slab (with_settings st j m) = slab m" "hashtable (with_settings st j m) = hashtable m"
  "lru_list (with_settings st j m) = lru_list m" "cache_lock (with_settings st j m) = cache_lock m"
  "alloc_ok (with_settings st j m) = alloc_ok m" "last_cas_id (with_settings st j m) = last_cas_id m"
  "brk (with_settings st j m) = brk m" "hashitems (with_settings st j m) = hashitems m"
  by (simp_all add: with_settings_def)

lemma mc_inv_settings: "mc_inv fl bl K (with_settings st j m) = mc_inv fl bl K m"
proof -
  have "entry bl (with_settings st j m) = entry bl m" by (rule ext) (simp add: entry_def)
  moreover have "in_table bl (with_settings st j m) = in_table bl m" by (simp add: in_table_def)
  moreover have "hash_inv bl (with_settings st j m) = hash_inv bl m" by (simp add: hash_inv_def Let_def)
  moreover have "slab_inv fl (with_settings st j m) = slab_inv fl m"
    by (simp add: slab_inv_def heap_ok_def free_ok_def)
  moreover have "lru_ok K (with_settings st j m) = lru_ok K m" by (simp add: lru_ok_def)
  ultimately show ?thesis unfolding mc_inv_def base_inv_def by simp
qed

lemma unlocked_settings: "unlocked (with_settings st j m) = unlocked m"
  by (simp add: unlocked_def)

lemma stored_settings: "stored bl (with_settings st j m) = stored bl m"
  by (rule ext) (simp add: stored_def entry_def cong: option.case_cong)

lemma spare_settings: "spare n fl (with_settings st j m) = spare n fl m"
  by (simp add: spare_def cong: sum.case_cong)

text \<open>When the socket of a client cannot be made non-blocking it is the listening one that is closed:
  the client is not served, and neither is any that comes later.\<close>

lemma nonblock_failure_stops_listening:
  assumes c: "c_state (con n) = conn_listening" "\<not> flag_stop (con n)" "fd_open (con n)"
    and a: "accepts n = AcClient cfd False # as"
  defines "n1 \<equiv> n\<lparr>accepts := as, con := (con n)\<lparr>fd_open := False, flag_stop := False\<rparr>\<rparr>"
  shows "drive_machine n = Some (Inr ((), n1))" and "drive_machine n1 = Some (Inr ((), n1))" and "disp n1 = disp n"
proof -
  let ?n0 = "n\<lparr>accepts := as, con := (con n)\<lparr>fd_open := False\<rparr>\<rparr>"
  have stop: "drive_machine t = Some (Inr ((), t\<lparr>con := (con t)\<lparr>flag_stop := False\<rparr>\<rparr>))"
    if t: "c_state (con t) = conn_listening" "\<not> flag_stop (con t)" "\<not> fd_open (con t)" for t :: net
  proof -
    let ?t = "t\<lparr>con := (con t)\<lparr>flag_stop := True\<rparr>\<rparr>"
    have "drive_step t = Some (Inr ((), ?t))"
      using t by (simp add: drive_step_state listen_step_def sock_accept_def bnd_def getc_run ret_def set_stop_def modc_run)
    then have "drive_loop t = Some (Inr ((), ?t))" using drive_loop_go [OF t(2)] drive_loop_stop [of ?t] by simp
    then show ?thesis using drive_machine_stops [of t ?t] by simp
  qed
  have "drive_step n = Some (Inr ((), ?n0))"
    using c a by (simp add: drive_step_state listen_step_def sock_accept_def bnd_def thn_def getc_run gets_def modify_def ret_def modc_run)
  then have "drive_machine n = drive_machine ?n0" by (rule drive_machine_go [OF c(2)])
  also have "\<dots> = Some (Inr ((), n1))" using stop [of ?n0] c by (simp add: n1_def)
  finally show "drive_machine n = Some (Inr ((), n1))" .
  show "drive_machine n1 = Some (Inr ((), n1))" using stop [of n1] c by (simp add: n1_def)
qed (simp add: n1_def)

section \<open>Properties\<close>

text \<open>The program of the process up to its event loop and the first two events: the listening socket has
  a client, and the worker's pipe is readable. Then each of \<open>n\<close> requests takes two events.\<close>

definition first_contact :: "conn \<Rightarrow> conn \<Rightarrow> (server, unit) prog" where
  "first_contact uninit uninit' = thn (on_net (on_mach globals_init)) (thn (server_main True uninit)
     (on_net (seqs [drive_machine, worker_event 0 uninit'])))"

definition exchanges :: "nat \<Rightarrow> (server, unit) prog" where
  "exchanges n = on_net (seqs (replicate n (thn drive_machine drive_machine)))"

text \<open>A process as the system starts it: nothing allocated, memory is granted, with whatever it holds,
  the calls that make the listening socket will succeed, and one client will connect.\<close>

definition booted :: "server \<Rightarrow> int \<Rightarrow> bool" where
  "booted s cfd \<longleftrightarrow> mach (s_net s) = fresh_server \<and> disp (s_net s) = dispatcher_init \<and>
     sys_results (s_host s) = [3, 2, 0, 0, 0, 0] \<and> sys_trace (s_host s) = [] \<and>
     accepts (s_net s) = [AcClient cfd True] \<and> outp (s_net s) = [] \<and> sent (s_net s) = []"

text \<open>From the start of the process to the connection of the first client: it rests, its buffer holds
  what was in memory, and the store is sound.\<close>

lemma client_connects:
  assumes b: "booted s cfd"
  obtains s1 n fl where
    "first_contact uninit uninit' s = Some (Inr ((), s1\<lparr>s_net := n\<rparr>))"
    "sys_trace (s_host s1) = zip (tcp_calls (main_settings default_settings) 3 2) [3, 2, 0, 0, 0, 0]"
    "resting (con n)" "rbuf_len (con n) = READBUF_LEN" "inp n = inp (s_net s)" "outp n = []" "sent n = []"
    "mc_inv fl (\<lambda>_. []) {} (mach n)" "unlocked (mach n)" "spare 481 fl (mach n)"
    "stored (\<lambda>_. []) (mach n) = Map.empty" "hashpower (hashtable (mach n)) = 16" "last_cas_id (mach n) = 0"
    "\<exists>k. rbuf (con n) = map (junk (s_net s) k) [0..<2048]"
proof -
  obtain m fl where m: "globals_init fresh_server = Some (Inr ((), m))" "mc_inv fl (\<lambda>_. []) {} m" "unlocked m"
      "\<And>i. alloc_ok m i" "mem_setting m = default_settings" "stored (\<lambda>_. []) m = Map.empty"
      "hashpower (hashtable m) = 16" "last_cas_id m = 0"
      "\<And>k. 0 < k \<Longrightarrow> k \<le> 2000 \<Longrightarrow> \<exists>cid. clsid_of (slab m) k = Inr cid \<and> cid \<noteq> 0 \<and> 481 \<le> length (fl cid)"
    by (rule globals_ready) (rule that)
  have "case clsid_of (slab m) k of Inl e \<Rightarrow> False
      | Inr cid \<Rightarrow> cid \<noteq> 0 \<and> (mem_limit (slab m) = 0 \<or> 481 \<le> length (fl cid))" if "k \<in> {1..2000}" for k
    using m(9) [of k] that by auto
  then have sp: "spare 481 fl m" using m(4) unfolding spare_def by blast
  let ?n0 = "(s_net s)\<lparr>mach := m\<rparr>"
  let ?s0 = "s\<lparr>s_net := ?n0\<rparr>"
  have 0: "on_net (on_mach globals_init) s = Some (Inr ((), ?s0))"
    using m(1) b by (simp add: on_net_def on_mach_def booted_def)
  have b0: "\<forall>k. alloc_ok (mach (s_net ?s0)) k" "disp (s_net ?s0) = dispatcher_init"
      "sys_results (s_host ?s0) = [3, 2, 0, 0, 0, 0] @ []" "mach (s_net ?s0) = m"
    using m(4) b by (simp_all add: booted_def)
  obtain s1 where s1: "server_main True uninit ?s0 = Some (Inr ((), s1))" "listening m 3 s1"
      "sys_trace (s_host s1) = zip (tcp_calls (main_settings default_settings) 3 2) [3, 2, 0, 0, 0, 0]" "same_events ?n0 (s_net s1)"
    using server_main_run [OF b0(1-3), of uninit] b0(4) m(5) b by (auto simp: booted_def)
  define n where "n = s_net s1"
  obtain j where l: "mach n = with_settings (main_settings (mem_setting m)) j m" "disp n = started 1"
      "c_state (con n) = conn_listening" "\<not> flag_stop (con n)" "fd_open (con n)"
    using s1(2) by (auto simp: listening_def Let_def n_def with_settings_def)
  have ev: "inp n = inp (s_net s)" "outp n = []" "sent n = []"
      "accepts n = [AcClient cfd True]" "junk n = junk (s_net s)"
    using s1(4) b by (simp_all add: same_events_def n_def booted_def)
  have of: "only_first (disp n)" unfolding l(2) by (rule only_first_started) simp
  let ?n1 = "n\<lparr>accepts := [], disp := with_client cfd (started 1), con := (con n)\<lparr>flag_stop := False\<rparr>\<rparr>"
  have 1: "drive_machine n = Some (Inr ((), ?n1))"
    using accept_event [OF l(3-5) ev(4) of] l(2) by simp
  have st: "only_first (started 1)" "w_conns (hd (workthreads (started 1))) = []"
      "data_queue (item_queue (hd (workthreads (started 1)))) = []" "pipe (started 1) = []"
    using only_first_started [of 1] by (simp_all add: started_def new_worker_def tsq_empty_def dispatcher_init_def)
  have wok: "\<forall>k. alloc_ok (mach ?n1) k" "disp ?n1 = with_client cfd (started 1)"
    using m(4) l(1) by simp_all
  let ?i = "make_item (w_loop (hd (workthreads (started 1)))) cfd conn_read EV_READ"
  let ?rb = "map (junk ?n1 (alloc_calls (mach ?n1))) [0..<2048]"
  let ?wb = "map (junk ?n1 (Suc (alloc_calls (mach ?n1)))) [0..<2048]"
  let ?c = "fresh_conn uninit' ?i READBUF_LEN ?rb ?wb"
  obtain d' j' where 2: "worker_event 0 uninit' ?n1 =
     Some (Inr ((), ?n1\<lparr>mach := (mach ?n1)\<lparr>alloc_calls := j'\<rparr>, disp := d', con := ?c\<rparr>))"
    using worker_event_run [OF st wok(2,1)] by blast
  let ?n2 = "?n1\<lparr>mach := (mach ?n1)\<lparr>alloc_calls := j'\<rparr>, disp := d', con := ?c\<rparr>"
  have two: "seqs [drive_machine, worker_event 0 uninit'] n = Some (Inr ((), ?n2))"
    unfolding seqs_run [of drive_machine n, OF 1] seqs_run [of "worker_event 0 uninit'" ?n1, OF 2] by (rule seqs_done)
  have go: "first_contact uninit uninit' s = Some (Inr ((), s1\<lparr>s_net := ?n2\<rparr>))"
    unfolding first_contact_def thn_run [of "on_net (on_mach globals_init)" s, OF 0]
      thn_run [of "server_main True uninit" ?s0, OF s1(1)]
    by (rule on_net_run) (use two in \<open>simp add: n_def\<close>)
  have m2: "mach ?n2 = with_settings (main_settings (mem_setting m)) j' m" by (simp add: l(1) with_settings_def)
  have store: "mc_inv fl (\<lambda>_. []) {} (mach ?n2)" "unlocked (mach ?n2)" "spare 481 fl (mach ?n2)"
      "stored (\<lambda>_. []) (mach ?n2) = Map.empty" "hashpower (hashtable (mach ?n2)) = 16" "last_cas_id (mach ?n2) = 0"
    unfolding m2 using m(2,3,6-8) sp
    by (simp_all add: mc_inv_settings unlocked_settings spare_settings stored_settings)
  have rest: "resting (con ?n2)" by (simp add: fresh_conn_rest make_item_def)
  have rl: "rbuf_len (con ?n2) = READBUF_LEN" by (simp add: fresh_conn_def)
  have e2: "inp ?n2 = inp (s_net s)" "outp ?n2 = []" "sent ?n2 = []" using ev(1-3) by simp_all
  have rb: "\<exists>k. rbuf (con ?n2) = map (junk (s_net s) k) [0..<2048]"
    using ev(5) by (intro exI [of _ "alloc_calls (mach ?n1)"]) (simp add: fresh_conn_def)
  show ?thesis by (rule that [OF go s1(3) rest rl e2 store rb])
qed

text \<open>C2: The server serves its first client: from the start of the process, through the construction of
  its globals, \<open>main\<close>, the accepting of the client, the hand-over to the worker and the connection the
  worker makes, with the settings and the memory limit \<open>main\<close> uses. The buffer for lines of that
  connection holds whatever was in the memory it was given; when the byte behind the client's first
  line happens to be 0 in it, the client may send a session of requests with the limits of the
  previous property and at most 481 storage requests (the chunks every class for a value below 1600
  bytes starts with), and is answered as the abstract cache, empty at first, answers.\<close>
theorem first_client_served:
  assumes "booted s cfd" and "inp (s_net s) = concat (map asked qs) @ is" and "qs \<noteq> []"
    and "fitting qs empty_cache" and "expense qs \<le> 481" and "\<forall>q \<in> set qs. keys q \<subseteq> Ks"
    and "\<forall>k \<in> Ks. \<forall>k' \<in> Ks. k \<noteq> k' \<longrightarrow> hash_index 16 (hash k) \<noteq> hash_index 16 (hash k')"
  shows "\<exists>s1. first_contact uninit uninit' s = Some (Inr ((), s1)) \<and>
     (\<exists>k. rbuf (con (s_net s1)) = map (junk (s_net s) k) [0..<2048]) \<and>
     map fst (sys_trace (s_host s1)) = tcp_calls (main_settings default_settings) 3 2 \<and>
     (rbuf (con (s_net s1)) ! Suc (length (line_of (hd qs))) = NUL \<longrightarrow>
       (\<exists>s' bss. exchanges (length qs) s1 = Some (Inr ((), s')) \<and> at_rest (con (s_net s')) \<and> inp (s_net s') = is \<and>
         sent (s_net s') = concat bss \<and> list_all2 told (fst (serves qs empty_cache)) bss))"
proof -
  obtain s0 n fl where go: "first_contact uninit uninit' s = Some (Inr ((), s0\<lparr>s_net := n\<rparr>))"
     and tr: "sys_trace (s_host s0) = zip (tcp_calls (main_settings default_settings) 3 2) [3, 2, 0, 0, 0, 0]"
     and c: "resting (con n)" "rbuf_len (con n) = READBUF_LEN" and e: "inp n = inp (s_net s)" "outp n = []" "sent n = []"
     and st: "mc_inv fl (\<lambda>_. []) {} (mach n)" "unlocked (mach n)" "spare 481 fl (mach n)"
        "stored (\<lambda>_. []) (mach n) = Map.empty" "hashpower (hashtable (mach n)) = 16" "last_cas_id (mach n) = 0"
     and rb: "\<exists>k. rbuf (con n) = map (junk (s_net s) k) [0..<2048]"
    by (rule client_connects [OF assms(1)]) (rule that)
  have "apart (mach n) k k'" if "k \<in> Ks" "k' \<in> Ks" "k \<noteq> k'" for k k'
    using assms(7) that st(5) by (simp add: apart_def)
  then have mi: "mirrors Ks (expense qs + 0) fl (\<lambda>_. []) {} (mach n) empty_cache"
    using st spare_less [OF st(3), of "expense qs"] assms(5) by (simp add: mirrors_def short_def empty_cache_def)
  have i: "inp n = concat (map asked qs) @ is" using e(1) assms(2) by simp
  have "\<exists>s' bss. exchanges (length qs) (s0\<lparr>s_net := n\<rparr>) = Some (Inr ((), s')) \<and> at_rest (con (s_net s')) \<and>
      inp (s_net s') = is \<and> sent (s_net s') = concat bss \<and> list_all2 told (fst (serves qs empty_cache)) bss"
    if "rbuf (con n) ! Suc (length (line_of (hd qs))) = NUL"
  proof -
    have "heeds qs (con n)" using that c(1) assms(3) by (cases qs) (simp_all add: heeds_def ready_def)
    from session_served [OF this c(2) e(2) i assms(4,6) mi] obtain n' bss where
      n': "seqs (replicate (length qs) (thn drive_machine drive_machine)) n = Some (Inr ((), n'))"
        "at_rest (con n')" "inp n' = is" "sent n' = sent n @ concat bss" "list_all2 told (fst (serves qs empty_cache)) bss"
      by blast
    have "exchanges (length qs) (s0\<lparr>s_net := n\<rparr>) = Some (Inr ((), s0\<lparr>s_net := n'\<rparr>))"
      unfolding exchanges_def by (rule on_net_run [where s = "s0\<lparr>s_net := n\<rparr>", simplified]) (rule n'(1))
    then show ?thesis using n'(2-5) e(3) by (intro exI [of _ "s0\<lparr>s_net := n'\<rparr>"] exI [of _ bss]) simp
  qed
  with go tr rb show ?thesis
    by (intro exI [of _ "s0\<lparr>s_net := n\<rparr>"]) (simp add: tcp_calls_def)
qed

lemma first_client_served_witness:
  "\<exists>s s1 s' bss. booted s 9 \<and> first_contact demo_conn demo_conn s = Some (Inr ((), s1)) \<and>
     exchanges 11 s1 = Some (Inr ((), s')) \<and> sent (s_net s') = concat bss \<and> list_all2 told demo_answers bss"
proof -
  let ?s = "\<lparr>s_host = \<lparr>sys_results = [3, 2, 0, 0, 0, 0], sys_trace = []\<rparr>, s_net =
    (demo_net fresh_server (concat (map asked demo_session) @ []) [])
      \<lparr>accepts := [AcClient 9 True], disp := dispatcher_init\<rparr>\<rparr>"
  have b: "booted ?s 9" by (simp add: booted_def demo_net_def)
  have h: "\<forall>k \<in> {''a'', ''e''}. \<forall>k' \<in> {''a'', ''e''}. k \<noteq> k' \<longrightarrow> hash_index 16 (hash k) \<noteq> hash_index 16 (hash k')"
    using demo_index by simp
  have i: "inp (s_net ?s) = concat (map asked demo_session) @ []" by (simp add: demo_net_def)
  have x: "expense demo_session \<le> 481" "demo_session \<noteq> []" by (simp_all add: demo_session_facts demo_session_def)
  obtain s1 k where s1: "first_contact demo_conn demo_conn ?s = Some (Inr ((), s1))"
      "rbuf (con (s_net s1)) = map (junk (s_net ?s) k) [0..<2048]"
    and go: "rbuf (con (s_net s1)) ! Suc (length (line_of (hd demo_session))) = NUL \<Longrightarrow>
       \<exists>s' bss. exchanges (length demo_session) s1 = Some (Inr ((), s')) \<and> sent (s_net s') = concat bss \<and>
         list_all2 told (fst (serves demo_session empty_cache)) bss"
    using first_client_served [OF b i x(2) demo_session_facts(1) x(1) demo_session_facts(2) h, of demo_conn demo_conn] by blast
  have "proper (hd demo_session)"
    by (simp add: demo_session_def plain_key_def word_def separates_def is_space_def char_val_def NUL_def)
  then have "Suc (length (line_of (hd demo_session))) < 2048" using length_line [of "hd demo_session"] by linarith
  then have "rbuf (con (s_net s1)) ! Suc (length (line_of (hd demo_session))) = NUL"
    unfolding s1(2) by (simp add: demo_net_def)
  from go [OF this] show ?thesis using b s1(1) unfolding demo_session_facts(3,4) by blast
qed

end
