(* ===== verification/Segments.thy ===== *)
theory Segments
  imports Storage
begin

text \<open>
  What becomes of a client whose lines and values do not arrive one by one: two commands in one
  segment, a command and its value in one segment, a value in two; and of the line after a bad one.
\<close>

section \<open>A line and more in one segment\<close>

definition long_segment :: "byte list \<Rightarrow> byte list \<Rightarrow> conn \<Rightarrow> bool" where
  "long_segment w x c \<longleftrightarrow> LF \<notin> set w \<and> NUL \<notin> set w \<and> x \<noteq> [] \<and> hd x \<noteq> NUL \<and>
     int (length w + length x) + 1 < rbuf_len c \<and> rbuf_len c < 2 ^ 27"

lemma with_segment_simps [simp]:
  "rbuf_len (with_segment w x c) = rbuf_len c" "flag_stop (with_segment w x c) = flag_stop c"
  "out_idle (with_segment w x c) = out_idle c" "x \<noteq> [] \<Longrightarrow> flag_shake (with_segment w x c) = (hd x \<noteq> NUL)"
  "rbuf_rlen (with_segment w x c) = int (Suc (length w + length x))"
  by (simp_all add: with_segment_def out_idle_def)

lemma length_with_segment:
  "length (rbuf c) = nat (rbuf_len c) \<Longrightarrow> int (length w + length x) + 1 < rbuf_len c \<Longrightarrow>
   length (rbuf (with_segment w x c)) = nat (rbuf_len c)"
  by (simp add: with_segment_def)

lemma segment_words:
  assumes "NUL \<notin> set w"
  shows "process_command (s\<lparr>con := with_segment w x c\<rparr>) = (
     let ts = tokens w in
     if length ts = 1 then command_one_para ts
     else if length ts = 2 then command_two_para ts
     else if length ts = 3 then command_three_para ts
     else if length ts = 5 then thn (command_five_six_para ts False) (modc (\<lambda>c. c\<lparr>flag_precmd := True\<rparr>))
     else if length ts = 6 then command_five_six_para ts True
     else seqs [
       clear_rbuf,
       modc (\<lambda>c. c\<lparr>rbuf_rlen := 0, rbuf_now := 0\<rparr>),
       conn_state_set conn_read,
       modc (\<lambda>c. c\<lparr>flag_precmd := False\<rparr>)]) (s\<lparr>con := with_segment w x c\<rparr>)"
proof -
  have "takeWhile (\<lambda>b. b \<noteq> NUL) (w @ NUL # l) = w" for l
    using assms by (simp add: takeWhile_tail) (metis takeWhile_eq_all_conv)
  then have "c_string (rbuf (with_segment w x c)) t = Some (Inr (w, t))" for t
    by (simp add: c_string_def with_segment_def ret_def)
  then show ?thesis by (simp add: process_command_def bnd_def getc_run)
qed

lemma segment_event:
  assumes rest: "resting (con s)" and i: "inp s = RdData (w @ LF # x) # is" and w: "LF \<notin> set w"
    and l: "int (length w + length x) + 1 < rbuf_len (con s)"
  defines "run \<equiv> thn process_command (after_command (length w + 1)) (s\<lparr>inp := is, con := with_segment w x (con s)\<rparr>)"
  shows "run = Some (Inl e) \<Longrightarrow> drive_machine s = Some (Inl e)"
    and "run = Some (Inr ((), s3)) \<Longrightarrow> flag_shake (con s3) \<Longrightarrow> c_state (con s3) \<noteq> conn_closed \<Longrightarrow>
      drive_machine s = drive_machine s3"
proof -
  have r: "c_state (con s) = conn_read" "\<not> flag_stop (con s)" "rbuf_len (con s) < 2 ^ 27"
      "length (rbuf (con s)) = nat (rbuf_len (con s))"
    using rest by (simp_all add: resting_def)
  let ?s1 = "s\<lparr>inp := is, con := with_bytes (w @ LF # x) (con s)\<rparr>"
  have "read_step s = Some (Inr ((), ?s1))"
    using l by (intro bytes_read [OF rest _ _ i]) simp_all
  then have "drive_step s = Some (Inr ((), ?s1))" using r(1) by (simp add: drive_step_state)
  then have 1: "drive_machine s = drive_machine ?s1" by (rule drive_machine_go [OF r(2)])
  have st: "c_state (con ?s1) = conn_parse_cmd" "\<not> flag_stop (con ?s1)" using r(2) by (simp_all add: with_bytes_def)
  have cs: "try_read_command ?s1 = thn (thn process_command (after_command (length w + 1))) (ret 1)
      (s\<lparr>inp := is, con := with_segment w x (con s)\<rparr>)"
    using command_start [OF w r(4) l r(3), of "s\<lparr>inp := is\<rparr>"] by simp
  show "drive_machine s = Some (Inl e)" if e: "run = Some (Inl e)"
  proof -
    have "try_read_command ?s1 = Some (Inl e)"
      unfolding cs by (simp only: thn_def bnd_def) (use e in \<open>simp add: run_def thn_def bnd_def\<close>)
    then have "drive_step ?s1 = Some (Inl e)"
      using st(1) by (simp add: drive_step_state parse_step_def seqs.simps thn_def bnd_def)
    then have "drive_loop ?s1 = Some (Inl e)" by (rule drive_loop_fault [OF st(2)])
    then show ?thesis unfolding 1 by (simp add: drive_machine_def thn_def bnd_def)
  qed
  show "drive_machine s = drive_machine s3"
    if s3: "run = Some (Inr ((), s3))" "flag_shake (con s3)" "c_state (con s3) \<noteq> conn_closed"
  proof -
    have "try_read_command ?s1 = Some (Inr (1, s3))"
      unfolding cs thn_run [of "thn process_command (after_command (length w + 1))", OF s3(1) [unfolded run_def]] by (simp add: ret_def)
    then have "drive_step ?s1 = Some (Inr ((), s3))"
      using st(1) s3(2,3) by (simp add: drive_step_state parse_step_def seqs.simps prog_defs getc_def)
    then show ?thesis unfolding 1 by (rule drive_machine_go [OF st(2)])
  qed
qed

text \<open>A line that is answered after its buffer has been cleared, when the byte behind it is not 0.\<close>

lemma cleared_line_overruns:
  assumes rest: "resting (con s)" and i: "inp s = RdData (w @ LF # x) # is" and w: "LF \<notin> set w" "NUL \<notin> set w"
    and l: "int (length w + length x) + 1 < rbuf_len (con s)" and sh: "flag_shake (with_segment w x (con s))"
    and ts: "tokens w = [c] \<and> c \<noteq> ''quit'' \<or> (\<exists>y. tokens w = [c, y] \<and> c \<noteq> ''get'' \<and> c \<noteq> ''delete'')"
  shows "drive_machine s = Some (Inl BufferOverrun)"
proof (rule segment_event(1) [OF rest i w(1) l])
  have r: "out_idle (con s)" "0 < rbuf_len (con s)" "rbuf_len (con s) < 2 ^ 27" "length (rbuf (con s)) = nat (rbuf_len (con s))"
    using rest by (simp_all add: resting_def)
  let ?c = "with_segment w x (con s)"
  let ?s1 = "s\<lparr>inp := is, con := ?c\<rparr>"
  define msg where "msg = (if tokens w = [''version''] then ''CGXR MEMCACHE version 1.0'' else ''CLIENT_BAD_COMMAND'')"
  have "process_command ?s1 = clear_and_answer msg ?s1"
    using segment_words [OF w(2), where s = "s\<lparr>inp := is\<rparr>"] ts
    by (auto simp: command_one_para_def command_two_para_def msg_def)
  also have "\<dots> = Some (Inr ((), ?s1\<lparr>con := answered msg ?c\<rparr>))"
    using clear_and_answer_run [of ?s1 msg] r length_with_segment [OF r(4) l] by simp
  finally have p: "process_command ?s1 = Some (Inr ((), ?s1\<lparr>con := answered msg ?c\<rparr>))" .
  let ?n = "length w + 1"
  have a: "flag_shake (answered msg ?c)" "rbuf_rlen (answered msg ?c) = 0"
      "rbuf (answered msg ?c) = replicate (nat (rbuf_len (con s))) NUL"
    using sh by (simp_all add: answered_def)
  have n: "int ?n < rbuf_len (con s)" "rbuf_len (con s) < 2 ^ 27" using l r(3) by simp_all
  have "(- int ?n) mod 2 ^ 64 = (2 ^ 64 - int ?n) mod 2 ^ 64" by (simp only: minus_mod_self1 mod_diff_left_eq [symmetric] mod_self diff_0)
  also have "\<dots> = 2 ^ 64 - int ?n" by (rule mod_pos_pos_trivial) (use n in simp_all)
  finally have "(- int ?n) mod 2 ^ 64 = 2 ^ 64 - int ?n" .
  then have sz: "size_t (- int ?n) = nat (2 ^ 64 - int ?n)" unfolding size_t_def by simp
  have big: "nat (rbuf_len (con s)) < ?n + size_t (- int ?n)" unfolding sz using n by simp
  have tw: "takeWhile (\<lambda>b. b \<noteq> CR) (replicate k NUL) = replicate k NUL" for k
    by (simp add: CR_def NUL_def)
  have mem: "memchr (replicate (nat (rbuf_len (con s))) NUL) ?n CR (size_t (- int ?n)) t = Some (Inl BufferOverrun)" for t
    unfolding memchr_def drop_replicate take_replicate tw Let_def using big by (simp add: fail_def)
  show "thn process_command (after_command ?n) ?s1 = Some (Inl BufferOverrun)"
    unfolding thn_run [of process_command ?s1, OF p]
    using a mem by (simp add: after_command_def bnd_def getc_run conn_shake_def)
qed

section \<open>Properties\<close>

text \<open>C38: A second command in the segment of the first takes the server down, when the first line is of
  one word other than quit or of two words other than get and delete: the code answers it after
  clearing its buffer, the number of bytes that follow the line is computed from the length 0 of
  the cleared buffer, and the search for the next line end, with a negative length, runs past
  the end of the buffer.\<close>
theorem pipelined_commands_overrun:
  assumes "at_rest (con s)" and "inp s = RdData (w @ LF # x) # is" and "long_segment w x (con s)"
    and "tokens w = [c] \<and> c \<noteq> ''quit'' \<or> (\<exists>y. tokens w = [c, y] \<and> c \<noteq> ''get'' \<and> c \<noteq> ''delete'')"
  shows "drive_machine s = Some (Inl BufferOverrun)"
  by (rule cleared_line_overruns [OF at_rest_resting [OF assms(1)] assms(2) _ _ _ _ assms(4)])
    (use assms(3) in \<open>simp_all add: long_segment_def\<close>)

text \<open>A new connection does the same with its first line, although nothing follows it, when the byte
  behind the line in the buffer it was given, which the code does not clear, is not 0.\<close>
theorem uncleared_buffer_overruns:
  assumes "resting (con s)" and "inp s = RdData (w @ [LF]) # is" and "plain_line w (con s)"
    and "rbuf (con s) ! Suc (length w) \<noteq> NUL"
    and "tokens w = [c] \<and> c \<noteq> ''quit'' \<or> (\<exists>y. tokens w = [c, y] \<and> c \<noteq> ''get'' \<and> c \<noteq> ''delete'')"
  shows "drive_machine s = Some (Inl BufferOverrun)"
proof (rule cleared_line_overruns [OF assms(1,2) _ _ _ _ assms(5)])
  have "Suc (length w) < length (rbuf (con s))"
    using assms(1,3) by (simp add: resting_def plain_line_def zless_nat_eq_int_zless)
  then show "flag_shake (with_segment w [] (con s))"
    using assms(4) by (simp add: with_segment_def hd_drop_conv_nth)
qed (use assms(3) in \<open>simp_all add: plain_line_def\<close>)

lemma pipelined_commands_overrun_witness:
  "drive_machine (demo_net fresh_server [RdData (''version'' @ LF # ''version'' @ [LF])] []) = Some (Inl BufferOverrun)"
proof -
  have "tokens ''version'' = [''version'']"
    by (simp add: tokens_def separates_def is_space_def char_val_def)
  then show ?thesis
    by (intro pipelined_commands_overrun [of _ "''version''" "''version'' @ [LF]" "[]" "''version''"])
      (simp_all add: long_segment_def LF_def NUL_def)
qed

text \<open>Copying a value that came with its line: it is found complete by its CR, and the count of what
  is there leaves out the line end.\<close>

lemma conn_shake_run:
  assumes d: "drop off (rbuf (con s)) = v @ crlf @ z" and lb: "length (rnbuf (con s)) = length v + 5"
    and lv: "length v < 2 ^ 19" and pre: "flag_precmd (con s)"
    and n: "n = int (length v) + 2"
  shows "conn_shake off n s = Some (Inr ((), s\<lparr>con := (con s)\<lparr>
     rnbuf := blit (blit (rnbuf (con s)) 0 v) (length v) [NUL], rnbuf_rlen := int (length v), rnbuf_now := 0,
     c_state := conn_nread, flag_precmd := False, flag_shake := True\<rparr>\<rparr>))"
proof -
  have "CR \<in> set (v @ crlf)" by (simp add: crlf_bytes)
  then have "takeWhile (\<lambda>b. b \<noteq> CR) (v @ crlf) \<noteq> v @ crlf" unfolding takeWhile_eq_all_conv by blast
  then have "length (takeWhile (\<lambda>b. b \<noteq> CR) (v @ crlf)) < length (v @ crlf)"
    by (metis length_takeWhile_le le_neq_implies_less takeWhile_eq_take take_all_iff)
  then obtain k where mem: "memchr (rbuf (con s)) off CR (length v + 2) s = Some (Inr (Some k, s))"
    unfolding memchr_def d by (simp add: crlf_bytes Let_def ret_def)
  have sz: "size_t (int (length v) + 2) = length v + 2" "size_t (int (length v)) = length v" using lv by simp_all
  have "length (rbuf (con s)) - off = length v + length (crlf @ z)" using arg_cong [OF d, of length] by simp
  moreover have "0 < length (crlf @ z)" by (simp add: crlf_bytes)
  ultimately have "off + length v \<le> length (rbuf (con s))" by linarith
  then have tk: "take_bytes (rbuf (con s)) (int off) (int (length v)) t = Some (Inr (v, t))" for t
    unfolding take_bytes_def sz nat_int using d by (auto simp: ret_def)
  have l2: "length (blit (rnbuf (con s)) 0 v) = length v + 5" using lb by simp
  show ?thesis
    unfolding n using mem tk lb l2 pre
    by (simp add: conn_shake_def shake_value_def bnd_def getc_run sz thn_def put_bytes_def ret_def seqs.simps modc_run conn_state_set_def
        del: nat_int_add of_nat_Suc of_nat_add)
qed

text \<open>A connection that neither reads a value nor has all of it goes round for ever.\<close>

lemma waiting_value_spins:
  assumes "c_state (con s) = conn_nread" and "flag_shake (con s)" and "rnbuf_len (con s) \<noteq> rnbuf_rlen (con s)"
    and "\<not> flag_stop (con s)"
  shows "drive_loop s = None"
proof (rule drive_loop_diverges [where I = "\<lambda>s. c_state (con s) = conn_nread \<and> \<not> flag_stop (con s) \<and> flag_shake (con s) \<and>
      rnbuf_len (con s) \<noteq> rnbuf_rlen (con s)"])
  fix t :: net
  assume "c_state (con t) = conn_nread \<and> \<not> flag_stop (con t) \<and> flag_shake (con t) \<and> rnbuf_len (con t) \<noteq> rnbuf_rlen (con t)"
  moreover from this have "drive_step t = Some (Inr ((), t))"
    by (simp add: drive_step_state read_value_stored_def finish_if_complete_def bnd_def getc_run whenP_def ret_def)
  ultimately show "\<not> flag_stop (con t) \<and> (\<exists>s'. drive_step t = Some (Inr ((), s')) \<and> c_state (con s') = conn_nread \<and>
      \<not> flag_stop (con s') \<and> flag_shake (con s') \<and> rnbuf_len (con s') \<noteq> rnbuf_rlen (con s'))" by blast
qed (use assms in simp_all)

text \<open>C37: A client that sends a set, add or replace and its value in one segment, as clients do, stops
  its thread for ever: the value is copied without its line end and counted two bytes short, so
  that it never becomes complete; since it was read ahead nothing more is read either, and the
  state machine goes round without end.\<close>
theorem value_with_line_hangs:
  assumes "at_rest (con s)" and "inp s = RdData (w @ LF # v @ crlf) # is" and "long_segment w (v @ crlf) (con s)"
    and "tokens w = [cmd, key, fs, es, ns]" and "length key \<le> 250"
    and "safe_strtoul fs = (True, f)" and "safe_strtol es = (True, ew)" and "safe_strtol ns = (True, nw)"
    and "sint nw = int (length v)" and "length v < 2 ^ 19"
    and "mc_inv fl bl K (mach s)" and "unlocked (mach s)" and "\<forall>i. alloc_ok (mach s) i"
    and "room fl (mach s) (59 + length key + length v)"
  shows "drive_machine s = None"
proof -
  note r = at_rest_simps [OF assms(1)]
  define nb where "nb = length v + 2"
  have nb: "sint nw + 2 = int nb" "2 \<le> nb" "nb < 2 ^ 20" using assms(9,10) by (simp_all add: nb_def)
  have room: "room fl (mach s) (57 + length key + nb)" using assms(14) by (simp add: nb_def add.assoc)
  let ?c = "with_segment w (v @ crlf) (con s)"
  let ?s1 = "s\<lparr>inp := is, con := ?c\<rparr>"
  obtain t0 i0 it m2 t i n fl' where st: "realtime (given_time ew) (mach s) = Some (Inr (t0, tick i0 (alloc_calls (mach s)) (mach s)))"
     "item_alloc (length key) (int nb) (tick i0 (alloc_calls (mach s)) (mach s)) = Some (Inr (it, m2))" "it \<noteq> 0"
     "fill_item it key f (given_time ew) (int nb) 0 m2 =
       Some (Inr ((), tick i (alloc_calls m2) (with_item it (filled n key f t (int nb) 0) m2)))"
     "\<And>v c. length v = nb \<Longrightarrow> c = client_item n key (ucast f) t 0 v \<Longrightarrow> world (mach s) (with_item it c m2)"
    using client_store [OF assms(11,12,13) room assms(5) nb(2,3) given_time_nonneg [of ew], of f 0] by blast
  let ?m3 = "tick i (alloc_calls m2) (with_item it (filled n key f t (int nb) 0) m2)"
  have "world (mach s) (with_item it (client_item n key (ucast f) t 0 (replicate nb NUL)) m2)" by (rule st(5)) simp_all
  then have ok3: "alloc_ok ?m3 (alloc_calls ?m3)" using assms(13) by (simp add: world_def with_item_def)
  have mch: "mach ?s1 = mach s" "junk ?s1 = junk s" by simp_all
  note five = store_words_run [OF assms(5-8) nb, where s = ?s1, unfolded mch, OF st(1-4) ok3, of "[]"]
  obtain m4 b where five': "command_five_six_para [cmd, key, fs, es, ns] False ?s1 = Some (Inr ((), ?s1\<lparr>mach := m4,
       con := ?c\<lparr>c_cmd := nread_of cmd, c_item := it, rnbuf_len := int nb, rnbuf := b, rnbuf_now := 0, c_state := conn_nread\<rparr>\<rparr>))"
      "length b = nb + 3"
    using five by (simp add: versioned_def)
  let ?c2 = "?c\<lparr>c_cmd := nread_of cmd, c_item := it, rnbuf_len := int nb, rnbuf := b, rnbuf_now := 0, c_state := conn_nread,
     flag_precmd := True\<rparr>"
  have nul: "NUL \<notin> set w" using assms(3) by (simp add: long_segment_def)
  have p: "process_command ?s1 = Some (Inr ((), ?s1\<lparr>mach := m4, con := ?c2\<rparr>))"
    using segment_words [OF nul, where s = "s\<lparr>inp := is\<rparr>"] assms(4) five'(1) by (simp add: thn_def bnd_def modc_run)
  have fl: "flag_shake ?c2" "flag_precmd ?c2" "rbuf_rlen ?c2 - int (length w + 1) = int nb" "rbuf ?c2 = rbuf ?c"
    using assms(3) by (simp_all add: long_segment_def nb_def crlf_def hd_append split: list.splits)
  obtain z where z: "drop (length w + 1) (rbuf ?c) = v @ crlf @ z" by (simp add: with_segment_def)
  let ?c3 = "?c2\<lparr>rnbuf := blit (blit b 0 v) (length v) [NUL], rnbuf_rlen := int (length v), rnbuf_now := 0, c_state := conn_nread,
     flag_precmd := False, flag_shake := True\<rparr>"
  let ?s3 = "?s1\<lparr>mach := m4, con := ?c3\<rparr>"
  have sh: "conn_shake (length w + 1) (int nb) (?s1\<lparr>mach := m4, con := ?c2\<rparr>) = Some (Inr ((), ?s3))"
    using conn_shake_run [of "length w + 1" "?s1\<lparr>mach := m4, con := ?c2\<rparr>" v z "int nb"] z fl(2,4) five'(2) assms(10)
    by (simp add: nb_def)
  have run: "thn process_command (after_command (length w + 1)) ?s1 = Some (Inr ((), ?s3))"
    unfolding thn_run [of process_command ?s1, OF p]
    using fl(1,3) sh by (simp add: after_command_def bnd_def getc_run)
  have 1: "drive_machine s = drive_machine ?s3"
    by (rule segment_event(2) [OF at_rest_resting [OF assms(1)] assms(2) _ _ run])
      (use assms(3) in \<open>simp_all add: long_segment_def\<close>)
  have "drive_loop ?s3 = None" by (rule waiting_value_spins) (use r(2) in \<open>simp_all add: nb_def\<close>)
  then show ?thesis unfolding 1 by (simp add: drive_machine_def thn_def bnd_def)
qed

lemma value_with_line_hangs_witness:
  "\<exists>m. drive_machine (demo_net m [RdData (''set k 0 0 2'' @ LF # ''cd'' @ crlf)] []) = None"
proof -
  obtain m fl bl K u where m: "mc_inv fl bl K m" "unlocked m" "\<forall>i. alloc_ok m i" "room fl m 62"
    by (rule demo_exchange)
  let ?s = "demo_net m [RdData (''set k 0 0 2'' @ LF # ''cd'' @ crlf)] []"
  have l: "long_segment ''set k 0 0 2'' (''cd'' @ crlf) (con ?s)" by (simp add: long_segment_def LF_def NUL_def crlf_def)
  have "drive_machine ?s = None"
    by (rule value_with_line_hangs [of ?s "''set k 0 0 2''" "''cd''" "[]", OF _ _ l tokens_plain(1) _ numbers_plain, of fl bl K])
      (use m in simp_all)
  then show ?thesis by blast
qed

text \<open>C39: A value that arrives in two parts is stored wrong: the second part is read to the start of the
  buffer, over the first. The client that sets a key to \<open>v1 @ v2\<close> is answered STORED, and the key is
  bound to a value that begins with \<open>v2\<close>, goes on with what \<open>v2\<close> has not covered of \<open>v1\<close> and ends
  with bytes that were in memory.\<close>
theorem split_value_garbled:
  assumes "at_rest (con s)" and "inp s = RdData (w @ [LF]) # RdData v1 # RdData v2 # is" and "outp s = []"
    and "plain_line w (con s)" and "tokens w = [''set'', key, fs, es, ns]" and "length key \<le> 250"
    and "safe_strtoul fs = (True, f)" and "safe_strtol es = (True, ew)" and "safe_strtol ns = (True, nw)"
    and "sint nw + 2 = int (length v1 + length v2)" and "v1 \<noteq> []" and "v2 \<noteq> []" and "length v1 + length v2 < 2 ^ 20"
    and "\<not> flags_lost f"
    and "mc_inv fl bl K (mach s)" and "unlocked (mach s)" and "\<forall>i. alloc_ok (mach s) i"
    and "room fl (mach s) (57 + length key + (length v1 + length v2))"
  shows "\<exists>s' fl' bl' K' z t. thn drive_machine drive_machine s = Some (Inr ((), s')) \<and> at_rest (con s') \<and>
     sent s' = sent s @ ''STORED'' @ crlf \<and> mc_inv fl' bl' K' (mach s') \<and> unlocked (mach s') \<and>
     stored bl' (mach s') key = Some (v2 @ drop (length v2) v1 @ z, t, last_cas_id (mach s) + 1) \<and>
     length (v2 @ drop (length v2) v1 @ z) = length v1 + length v2"
proof -
  define nb where "nb = length v1 + length v2"
  have i: "inp s = RdData (w @ [LF]) # map RdData ([v1] @ [v2]) @ is" using assms(2) by simp
  have e: "nread_of ''set'' \<noteq> NREAD_ERROR" by (simp add: nread_of_def)
  have "1 \<le> length v1" "1 \<le> length v2" using assms(11,12) by (simp_all add: Suc_le_eq)
  then have "2 \<le> nb" unfolding nb_def by linarith
  then have nb: "sint nw + 2 = int nb" "2 \<le> nb" "nb < 2 ^ 20" using assms(10,13) by (simp_all add: nb_def)
  have ps: "sum_list (map length ([v1] @ [v2])) = nb" "[] \<notin> set ([v1] @ [v2])" using assms(11,12) by (auto simp: nb_def)
  have room: "room fl (mach s) (57 + length key + nb)" using assms(18) by (simp add: nb_def)
  obtain r c fl' m t i b where g: "mc_inv fl' bl K m" "pending fl' bl m r c" "unlocked m"
     "last_cas_id m = last_cas_id (mach s)" "length b = nb + 3"
     "key_of c = key" "value_of c = take nb (overlay b ([v1] @ [v2]))" "it_flag c = ucast f" "it_exptime c = t"
    and ev: "\<And>st cv m3. store_item (nread_of ''set'') r m = Some (Inr ((st, cv), m3)) \<Longrightarrow>
       \<exists>s'. thn drive_machine drive_machine s = Some (Inr ((), s')) \<and> at_rest (con s') \<and>
         rbuf_len (con s') = rbuf_len (con s) \<and> mach s' = m3 \<and> inp s' = is \<and> outp s' = [] \<and> sent s' = sent s @
           (if st = STORED then ''STORED'' else if nread_of ''set'' = NREAD_CAS then ''EXISTS'' else ''NOT_STORED'') @ crlf"
    using storage_events [OF at_rest_ready [OF assms(1,4)] i assms(3-5) e assms(6-9) nb ps assms(15-17) room] by metis
  define z where "z = take (nb - length (v2 @ drop (length v2) v1)) (drop (max (length v1) (length v2)) b)"
  have "overlay b ([v1] @ [v2]) = v2 @ drop (length v2) v1 @ drop (max (length v1) (length v2)) b"
    by (cases "length v2 \<le> length v1") (simp_all add: overlay_def blit_def max_def)
  then have val: "value_of c = v2 @ drop (length v2) v1 @ z"
    unfolding g(7) z_def by (simp add: nb_def)
  have lz: "length (v2 @ drop (length v2) v1 @ z) = nb"
    using g(5) by (simp add: z_def nb_def max_def)
  let ?S = "(STORED, Some (v2 @ drop (length v2) v1 @ z, t, last_cas_id (mach s) + 1))"
  have Seq: "?S = store_spec (nread_of ''set'') (live bl m (key_of c)) c True (last_cas_id m + 1)"
    using store_spec_client [of "''set''" c key "v2 @ drop (length v2) v1 @ z" f t "live bl m (key_of c)" True] g(4,6,8,9) val assms(14)
    by (simp add: applies_def)
  obtain cv bl' K' m3 where st: "store_item (nread_of ''set'') r m = Some (Inr ((STORED, cv), m3))"
      "outcome bl m key (Some (v2 @ drop (length v2) v1 @ z, t, last_cas_id (mach s) + 1)) fl' bl' K' m3"
    using store_item_plain [OF g(1-3) _ _ Seq] g(6) by (auto simp: nread_of_def)
  obtain s' where s': "thn drive_machine drive_machine s = Some (Inr ((), s'))" "at_rest (con s')" "mach s' = m3"
      "sent s' = sent s @ ''STORED'' @ crlf"
    using ev [OF st(1)] by auto
  have o: "mc_inv fl' bl' K' (mach s')" "stored bl' (mach s') key = Some (v2 @ drop (length v2) v1 @ z, t, last_cas_id (mach s) + 1)"
    using st(2) unfolding s'(3) outcome_def put_at_def by simp_all
  have ul: "unlocked (mach s')" using outcome_unlocked [OF st(2)] s'(3) g(3) by simp
  show ?thesis
    by (intro exI conjI) (rule s' o ul lz [unfolded nb_def])+
qed

lemma split_value_garbled_witness:
  "\<exists>s s' bl. thn drive_machine drive_machine s = Some (Inr ((), s')) \<and> sent s' = ''STORED'' @ crlf \<and>
     map_option (take 3 \<circ> fst) (stored bl (mach s') ''k'') = Some (CHR ''d'' # crlf)"
proof -
  obtain m fl bl K u where m: "mc_inv fl bl K m" "unlocked m" "\<forall>i. alloc_ok m i" "room fl m 62"
    by (rule demo_exchange)
  let ?s = "demo_net m [RdData (''set k 0 0 2'' @ [LF]), RdData ''c'', RdData (''d'' @ crlf)] []"
  have w: "plain_line ''set k 0 0 2'' (con ?s)" by (simp add: plain_line_def LF_def NUL_def)
  have "\<exists>s' bl. thn drive_machine drive_machine ?s = Some (Inr ((), s')) \<and> sent s' = ''STORED'' @ crlf \<and>
     map_option (take 3 \<circ> fst) (stored bl (mach s') ''k'') = Some (CHR ''d'' # crlf)"
    using split_value_garbled [of ?s "''set k 0 0 2''" "''c''" "''d'' @ crlf" "[]", OF _ _ _ w tokens_plain(1) _ numbers_plain,
      of fl bl K] m by (fastforce simp: flags_lost_def crlf_def)
  then show ?thesis by blast
qed

section \<open>After a bad line\<close>












end
