(* ===== verification/Spec2Isabelle.thy ===== *)
theory Spec2Isabelle
  imports Tool Store Dispatch Conn Protocol Traffic Drive States Dialogue Lookup Storage Session Socket
    Server Segments
begin

text \<open>
  A verification library for mini-memcached (src/memcached), a cache server in C++ that speaks a
  subset of the text protocol of memcached.

  \<^bold>\<open>The program.\<close> \<open>main\<close> (memcached.cpp) makes the listening socket (socket.cpp) and the worker
  threads (thread.cpp). The listening connection hands every accepted socket to a worker through a
  queue (threadsafe_queue.h) and a pipe; the worker makes a connection (conn.cpp) of it, whose
  state machine \<open>drive_machine\<close> reads lines and values, runs the commands and writes the answers.
  The commands work on the item store of slab.cpp: a slab allocator, a hash table with locks per
  region, and queues of items per slab class (\<open>LRU_list\<close>). \<open>main\<close> starts exactly one worker, so
  that the operations of the store are run one after the other, as they are here; their mutexes
  are modelled, and taking one that is held does not return.

  \<^bold>\<open>The model.\<close> An operation is a program (theory Prelude): a function of the state to \<open>None\<close>, it does
  not return, to a fault (null pointer, access past a buffer, overflow, \<open>exit\<close>, ...), or to a value
  and the next state. Null is address 0, items live in a heap of records (\<open>machine\<close>), buffers are
  lists of bytes whose length is the allocated size. What the environment does is given by the
  state: the clock, which allocations succeed and what is in the memory they return, what the
  calls on the sockets find (\<open>inp\<close>, \<open>outp\<close>, \<open>accepts\<close>), what the calls of \<open>main\<close> return. Integers
  have their width where it matters: \<open>u8\<close>, \<open>u32\<close> and \<open>u64\<close> are words, an \<open>int\<close> that may overflow
  is checked (\<open>int_add\<close>) or wrapped (\<open>c_int\<close>), \<open>size_t\<close> is the conversion to 64 bits, and the sizes
  of the slab classes are computed modulo 2^32, the length of a page as an \<open>int\<close> (\<open>page_len\<close>).

  \<^item> Prelude: types, programs, the total-correctness predicate \<open>wp\<close> with its rules (\<open>wp_rules\<close>), the
    interface \<open>mutex\<close>, chains of pointers, copying into buffers.
  \<^item> Machine: the records of slab.h and settings.h, the globals of memcached.h, the primitive effects.
  \<^item> Tool: tool.cpp, one interface \<open>checked_conversion\<close> for its four functions; which texts they
    accept, and that they invert printing.
  \<^item> Slabs: class \<open>Slab\<close>: the class table (\<open>make_table\<close>; \<open>slab_table\<close> is what it is when nothing wraps), the
    free lists (\<open>slab_inv\<close>), allocation and release, the
    preallocation by the constructor.
  \<^item> Hashing: class \<open>HashTable\<close>: the hash function, buckets (\<open>hash_inv\<close>), find, insert and delete, the
    region locks; the interface \<open>item_index\<close> is what the rest relies on.
  \<^item> Lru: class \<open>LRU_list\<close> but for storing: linking, unlinking, reference counts, lookup with expiry,
    allocation with eviction; the invariant \<open>mc_inv\<close> of the whole store and that each operation keeps it.
  \<^item> Startup: the constructors of the globals, and the sound and empty store they leave; stat.h.
  \<^item> Store: \<open>do_store_item\<close>; the abstract store \<open>stored\<close> (a map from keys to value, expiry and version),
    the abstract commands \<open>store_spec\<close>, and that the code refines them.
  \<^item> Dispatch: the queue (interface \<open>fifo\<close>), the pipe, the workers; the runs of accepting and serving as
    a transition system, with invariants by rule induction.
  \<^item> Conn, Protocol, Drive: class \<open>Conn\<close>: the constructor, reading and writing, answers; words, commands,
    the reading of values; the state machine, a loop that need not end (\<open>partial_function\<close>).
  \<^item> States: the interface \<open>effect\<close> (what every run of a program does to a state, composed from its
    parts); the state graph of a connection (\<open>moves\<close>), which no step leaves, and the roles of connections.
  \<^item> Traffic: sending and receiving end, lose nothing and keep the order; answers fit their buffer.
  \<^item> Dialogue, Lookup, Storage: a line (and a value) from its arrival to the answer the client receives and
    the store afterwards, from a connection \<open>at_rest\<close>, for each command that can be answered.
  \<^item> Session: the interface \<open>conforming\<close> of a server that follows a specification; the abstract cache
    (\<open>serve\<close>: requests, responses, bindings with versions) and that \<open>drive_machine\<close> keeps the contract, so that
    every sequence of requests is answered as the abstract cache answers it.
  \<^item> Socket: the constructors of class \<open>Socket\<close> as sequences of system calls.
  \<^item> Server: \<open>main\<close>, and the path of the first client through every part, to its whole session.
  \<^item> Segments: what happens when lines and values do not arrive one by one.

  \<^bold>\<open>What is shown.\<close> A session over the wire refines the abstract cache (C1), and so does the session of
  the first client of a process that starts from nothing, if the memory its connection is given has a 0 behind
  the first line (C2); each command is followed from the bytes a client sends
  to those it receives, expiry included (C3 to C7). The words of the answers are those of the code; for
  version, stats, flush_all, incr and decr they are not those of the file src/memcached/protocol. Underneath, the store is a map: each storage
  command, lookup and deletion refines the map operation, keeps \<open>mc_inv\<close>, meets no fault and leaves every
  mutex free (C8 to C11, C17 to C19); the allocator never hands out a chunk in use (C14 to C16, C28). A
  connection never leaves its state graph or its role (C12, C13); the hand-over loses no connection
  (C20, C21); loops end and lose nothing (C22, C23); a line is split into the words it is made of and
  numbers are read as they are printed (C24 to C26); the listening socket is made by the right calls (C27). The other
  properties say where the code does not do what it means to, with the input that shows it: long
  values (C29), append and prepend without a version (C30), cas of a missing key (C31), flags (C32), deletion
  at the head of a bucket (C33), the memory limit at start (C34), two workers on one pipe, which leave a
  connection waiting for the next one (C35), lines and values that do not arrive one by one (C36 to C39), the
  line after a get of too long a key (C40). Not every such input is covered: C38 is about first lines of one
  word other than quit or of two words other than get and delete, C40 about that one kind of bad line. The
  byte behind the first line of a new connection (\<open>uncleared_buffer_overruns\<close>), settings whose sizes wrap
  (\<open>chunk_size_wraps\<close>, \<open>chunk_size_below_header\<close>, \<open>page_len_wraps\<close>), lines of three words (\<open>three_words_crash\<close>), the local
  socket (\<open>unix_socket_never_made\<close>) and the choice of the worker (\<open>only_the_first_worker_serves\<close>)
  are theorems of Segments, Slabs, Dialogue, Socket and Dispatch.

  \<^bold>\<open>Bounds.\<close> Keys have at most 250 bytes (\<open>KEY_MAX_LENGTH\<close>) where a command checks it. A value of a
  storage command is shorter than 2^20 bytes, the largest chunk, a buffer for lines shorter than 2^27
  bytes (one read doubles it at most four times). A session (C1) has keys that lie in different
  buckets, since deletion at the head of a bucket drops the bucket (C33), values below 1600 bytes, since
  longer ones overrun the reply (C29), no expiry (C4 treats it), no cas of an unbound key, since it faults
  (C31), joins without a version only, and room for an item per storage request (\<open>spare\<close>), since no chunk is
  ever given back; the allocator (C14 to C16) has pages of less than 2^31 bytes; the process starts with room for 481 (C2). No fuel is used: loops are
  recursions with a measure, or partial functions of which termination is proved.

  \<^bold>\<open>Not modelled.\<close> Output to the standard streams. Failures of the pipe of the dispatcher (conn.cpp:268-270,
  thread.cpp:61): it stays open and blocks, its writes and reads of one byte succeed. More than 2^32 chunks
  or pages in a class. The event loops of libev: they are the order in
  which the events occur, a parameter of the theorems. Two threads inside the store at a time: there
  is one worker. The code after the test for a missing newline in
  \<open>try_read_command\<close>, which cannot be reached. The contents of a released buffer. \<open>delete\<close> of a
  connection in \<open>conn_handler\<close>, after which it is not used; a closed connection is never released.
\<close>

end
